(* ===== verification/Prelude.thy ===== *)
theory Prelude
  imports Main "HOL-Library.Word" "HOL-Library.Signed_Division" "HOL-Library.Char_ord"
    "HOL-Library.List_Lexorder" "HOL-Library.Code_Target_Numeral"
begin

text \<open>
  Shared vocabulary of the development: the machine types the sources use, the result type of an
  operation that may park its thread, lemma collections, and the facts on lists that several
  components need (counting the elements of an indexed list of threads, splitting a text at a
  delimiter the way \<^verbatim>\<open>std::getline\<close> does).
\<close>

section \<open>Machine types and results\<close>

text \<open>
  \<^verbatim>\<open>std::uint64_t\<close> and \<^verbatim>\<open>std::int64_t\<close> are both words of 64 bits; the second one is read with
  \<^const>\<open>sint\<close>. Sizes (\<^verbatim>\<open>std::size_t\<close>) on which the code does no arithmetic are \<^typ>\<open>nat\<close>.
\<close>

type_synonym u64 = "64 word"
type_synonym i64 = "64 word"

text \<open>An operation that waits on a condition either cannot proceed yet or runs to its end.\<close>

datatype 'r attempt = Blocked | Done 'r

named_theorems queue_defs \<open>definitions of the bounded queue\<close>
named_theorems pipeline_defs \<open>definitions of the ingestion pipeline\<close>

lemma attempt_not_Blocked: "a \<noteq> Blocked \<longleftrightarrow> (\<exists>r. a = Done r)"
  by (cases a) auto

section \<open>Counting in an indexed list\<close>

definition count_if :: "('a \<Rightarrow> bool) \<Rightarrow> 'a list \<Rightarrow> nat" where
  "count_if P xs = length (filter P xs)"

lemma count_if_simps [simp]:
  "count_if P [] = 0"
  "count_if P (x # xs) = (if P x then 1 else 0) + count_if P xs"
  by (auto simp: count_if_def)

lemma count_if_pos: "0 < count_if P xs \<longleftrightarrow> (\<exists>i < length xs. P (xs ! i))"
  by (simp add: count_if_def filter_empty_conv) (metis in_set_conv_nth)

lemma count_if_zero: "count_if P xs = 0 \<longleftrightarrow> (\<forall>i < length xs. \<not> P (xs ! i))"
  using count_if_pos [of P xs] by auto

lemma count_if_update:
  "i < length xs \<Longrightarrow>
    count_if P (xs[i := y]) + (if P (xs ! i) then 1 else 0) = count_if P xs + (if P y then 1 else 0)"
proof (induction xs arbitrary: i)
  case Nil
  then show ?case by simp
next
  case (Cons x xs)
  then show ?case by (cases i) auto
qed

lemma count_if_le_one:
  assumes "\<And>i j. \<lbrakk>i < length xs; j < length xs; P (xs ! i); P (xs ! j)\<rbrakk> \<Longrightarrow> i = j"
  shows "count_if P xs \<le> 1"
  unfolding count_if_def length_filter_conv_card One_nat_def
  by (subst card_le_Suc0_iff_eq) (use assms in auto)

lemma count_if_map: "count_if P (map f xs) = count_if (\<lambda>x. P (f x)) xs"
  by (induction xs) auto

lemma count_if_mono: "(\<And>x. P x \<Longrightarrow> Q x) \<Longrightarrow> count_if P xs \<le> count_if Q xs"
  by (induction xs) auto

lemma count_if_False [simp]: "count_if (\<lambda>x. False) xs = 0"
  by (simp add: count_if_def)

lemma count_if_replicate [simp]: "count_if P (replicate n x) = (if P x then n else 0)"
  by (induction n) auto

end
