(* ===== verification/Fifo_Interface.thy ===== *)
theory Fifo_Interface
  imports Prelude
begin

text \<open>
  The contract a blocking bounded queue offers to its clients, as the header of
  \<^verbatim>\<open>bounded_queue.hpp\<close> words it: first in, first out; an insertion waits while the queue is full
  and fails once it is closed; a removal waits while the queue is empty and open, and fails only
  when it is closed and drained. The client results (what any sequence of operations hands out,
  and that a consumer loop drains a closed queue) are proved here once, from the contract alone.
\<close>

section \<open>Sequences of operations and the consumer loop\<close>

text \<open>
  The mutex of a queue serialises its critical sections, so what any number of threads do to it
  is a sequence of operations. A run collects the items that successful insertions accepted and
  the items that removals handed out. A blocked attempt changes nothing: its thread tries again
  later, as a later element of the sequence.
\<close>

datatype 'a queue_op = Push 'a | Pop | Shutdown

record ('q, 'a) queue_run =
  final :: 'q
  accepted :: "'a list"
  popped :: "'a list"

record ('q, 'a) queue_iface =
  q_push :: "'a \<Rightarrow> 'q \<Rightarrow> (bool \<times> 'q) attempt"
  q_pop :: "'q \<Rightarrow> ('a option \<times> 'q) attempt"
  q_shutdown :: "'q \<Rightarrow> 'q"

fun apply_op :: "('q, 'a) queue_iface \<Rightarrow> 'a queue_op \<Rightarrow> ('q, 'a) queue_run \<Rightarrow> ('q, 'a) queue_run" where
  "apply_op I (Push x) r =
     (case q_push I x (final r) of
        Blocked \<Rightarrow> r
      | Done (ok, q) \<Rightarrow> r\<lparr>final := q, accepted := accepted r @ (if ok then [x] else [])\<rparr>)"
| "apply_op I Pop r =
     (case q_pop I (final r) of
        Blocked \<Rightarrow> r
      | Done (None, q) \<Rightarrow> r\<lparr>final := q\<rparr>
      | Done (Some x, q) \<Rightarrow> r\<lparr>final := q, popped := popped r @ [x]\<rparr>)"
| "apply_op I Shutdown r = r\<lparr>final := q_shutdown I (final r)\<rparr>"

definition run_ops :: "('q, 'a) queue_iface \<Rightarrow> 'q \<Rightarrow> 'a queue_op list \<Rightarrow> ('q, 'a) queue_run" where
  "run_ops I q cs = fold (apply_op I) cs \<lparr>final = q, accepted = [], popped = []\<rparr>"

text \<open>
  The loop \<^verbatim>\<open>while (queue.pop(event)) ...\<close> of a consumer that is alone with the queue: the items
  it receives and the queue it leaves, \<^const>\<open>None\<close> when the loop is still waiting or running
  after \<open>fuel\<close> removals.
\<close>

fun drain_loop :: "('q, 'a) queue_iface \<Rightarrow> nat \<Rightarrow> 'q \<Rightarrow> ('a list \<times> 'q) option" where
  "drain_loop I 0 q = None"
| "drain_loop I (Suc fuel) q =
     (case q_pop I q of
        Blocked \<Rightarrow> None
      | Done (None, q') \<Rightarrow> Some ([], q')
      | Done (Some x, q') \<Rightarrow> map_option (apfst ((#) x)) (drain_loop I fuel q'))"

section \<open>The contract\<close>

locale bounded_fifo =
  fixes I :: "('q, 'a) queue_iface"
    and inv :: "'q \<Rightarrow> bool"
    and contents :: "'q \<Rightarrow> 'a list"
    and closed :: "'q \<Rightarrow> bool"
    and cap :: "'q \<Rightarrow> nat"
  assumes push_blocks: "inv q \<Longrightarrow> q_push I x q = Blocked \<longleftrightarrow> \<not> closed q \<and> cap q \<le> length (contents q)"
    and push_result: "inv q \<Longrightarrow> q_push I x q = Done (ok, q') \<Longrightarrow>
      ok = (\<not> closed q) \<and> contents q' = contents q @ (if closed q then [] else [x]) \<and>
      closed q' = closed q \<and> cap q' = cap q"
    and push_inv: "inv q \<Longrightarrow> q_push I x q = Done (ok, q') \<Longrightarrow> inv q'"
    and pop_blocks: "inv q \<Longrightarrow> q_pop I q = Blocked \<longleftrightarrow> \<not> closed q \<and> contents q = []"
    and pop_result: "inv q \<Longrightarrow> q_pop I q = Done (r, q') \<Longrightarrow>
      contents q = (case r of None \<Rightarrow> [] | Some x \<Rightarrow> [x]) @ contents q' \<and>
      (r = None \<longrightarrow> contents q' = []) \<and> closed q' = closed q \<and> cap q' = cap q"
    and pop_inv: "inv q \<Longrightarrow> q_pop I q = Done (r, q') \<Longrightarrow> inv q'"
    and shutdown_result: "contents (q_shutdown I q) = contents q" "closed (q_shutdown I q)"
      "cap (q_shutdown I q) = cap q"
    and shutdown_inv: "inv q \<Longrightarrow> inv (q_shutdown I q)"
    and inv_bounded: "inv q \<Longrightarrow> length (contents q) \<le> cap q"
begin

text \<open>
  What every reachable run satisfies, relative to the queue it started from: nothing is lost,
  duplicated or reordered, the capacity never changes, a closed queue stays closed and accepts
  nothing more.
\<close>

definition run_ok :: "'q \<Rightarrow> ('q, 'a) queue_run \<Rightarrow> bool" where
  "run_ok q0 r \<longleftrightarrow> inv (final r) \<and> cap (final r) = cap q0 \<and>
     popped r @ contents (final r) = contents q0 @ accepted r \<and>
     (closed q0 \<longrightarrow> closed (final r) \<and> accepted r = [])"

lemma apply_op_ok:
  assumes "run_ok q0 r"
  shows "run_ok q0 (apply_op I c r)"
proof (cases c)
  case (Push x)
  with assms show ?thesis
    by (auto simp: run_ok_def split: attempt.splits dest: push_result push_inv)
next
  case Pop
  with assms show ?thesis
    by (auto simp: run_ok_def split: attempt.splits option.splits dest: pop_inv pop_result)
next
  case Shutdown
  with assms show ?thesis by (simp add: run_ok_def shutdown_result shutdown_inv)
qed

lemma run_ops_ok: "inv q \<Longrightarrow> run_ok q (run_ops I q cs)"
  unfolding run_ops_def
  by (rule fold_invariant [where Q = "\<lambda>_. True"]) (auto simp: apply_op_ok, simp add: run_ok_def)

lemma fifo_conservation:
  "inv q \<Longrightarrow> popped (run_ops I q cs) @ contents (final (run_ops I q cs)) =
     contents q @ accepted (run_ops I q cs)"
  using run_ops_ok by (simp add: run_ok_def)

lemma closed_accepts_nothing:
  "inv q \<Longrightarrow> closed q \<Longrightarrow> accepted (run_ops I q cs) = [] \<and> closed (final (run_ops I q cs))"
  using run_ops_ok by (simp add: run_ok_def)

lemma run_bounded:
  "inv q \<Longrightarrow> length (contents (final (run_ops I q cs))) \<le> cap q"
  using run_ops_ok [of q cs] inv_bounded by (fastforce simp: run_ok_def)

lemma drain_closed:
  "\<lbrakk>inv q; closed q; length (contents q) < fuel\<rbrakk> \<Longrightarrow>
     \<exists>q'. drain_loop I fuel q = Some (contents q, q') \<and> contents q' = [] \<and> closed q' \<and> inv q'"
proof (induction fuel arbitrary: q)
  case 0
  then show ?case by simp
next
  case (Suc fuel)
  then obtain r q1 where pop: "q_pop I q = Done (r, q1)"
    by (metis attempt.exhaust pop_blocks prod.exhaust)
  note res = pop_result [OF Suc.prems(1) pop] and inv1 = pop_inv [OF Suc.prems(1) pop]
  show ?case
  proof (cases r)
    case None
    with pop res inv1 Suc.prems show ?thesis by auto
  next
    case (Some x)
    with res Suc.prems have "length (contents q1) < fuel" "closed q1" by auto
    from Suc.IH [OF inv1 this(2,1)] pop res Some show ?thesis by auto
  qed
qed

end

end
