(* ===== verification/Bounded_Queue.thy ===== *)
theory Bounded_Queue
  imports Fifo_Interface
begin

text \<open>
  \<^verbatim>\<open>BoundedQueue<T>\<close> of \<^verbatim>\<open>include/tickforge/bounded_queue.hpp\<close>, with each critical section as one
  operation on the state the mutex protects. An operation whose wait predicate is false is
  \<^const>\<open>Blocked\<close>: its thread stays parked and the state is unchanged. The interleaving of the
  instructions inside the critical sections, the condition variables and the notifications are
  the subject of the theory \<^verbatim>\<open>Queue_Threads\<close>, which refines this one.
\<close>

section \<open>State and operations\<close>

record 'a BoundedQueue =
  capacity :: nat
  queue :: "'a list"
  high_water_mark :: nat
  is_shutdown :: bool

definition BoundedQueue_new :: "nat \<Rightarrow> 'a BoundedQueue" where
  "BoundedQueue_new c = \<lparr>capacity = c, queue = [], high_water_mark = 0, is_shutdown = False\<rparr>"

text \<open>The predicates of the two \<^verbatim>\<open>wait\<close> calls.\<close>

definition can_push :: "'a BoundedQueue \<Rightarrow> bool" where
  "can_push q \<longleftrightarrow> length (queue q) < capacity q \<or> is_shutdown q"

definition can_pop :: "'a BoundedQueue \<Rightarrow> bool" where
  "can_pop q \<longleftrightarrow> queue q \<noteq> [] \<or> is_shutdown q"

text \<open>What \<^verbatim>\<open>push\<close> and \<^verbatim>\<open>pop\<close> do between the return of \<^verbatim>\<open>wait\<close> and the release of the mutex.\<close>

definition push_critical :: "'a \<Rightarrow> 'a BoundedQueue \<Rightarrow> bool \<times> 'a BoundedQueue" where
  "push_critical x q =
     (if is_shutdown q then (False, q)
      else let q1 = q\<lparr>queue := queue q @ [x]\<rparr>;
               q2 = (if high_water_mark q1 < length (queue q1)
                     then q1\<lparr>high_water_mark := length (queue q1)\<rparr> else q1)
           in (True, q2))"

definition pop_critical :: "'a BoundedQueue \<Rightarrow> 'a option \<times> 'a BoundedQueue" where
  "pop_critical q =
     (case queue q of
        [] \<Rightarrow> (None, q)
      | x # xs \<Rightarrow> (Some x, q\<lparr>queue := xs\<rparr>))"

definition push :: "'a \<Rightarrow> 'a BoundedQueue \<Rightarrow> (bool \<times> 'a BoundedQueue) attempt" where
  "push x q = (if can_push q then Done (push_critical x q) else Blocked)"

definition pop :: "'a BoundedQueue \<Rightarrow> ('a option \<times> 'a BoundedQueue) attempt" where
  "pop q = (if can_pop q then Done (pop_critical q) else Blocked)"

definition shutdown :: "'a BoundedQueue \<Rightarrow> 'a BoundedQueue" where
  "shutdown q = q\<lparr>is_shutdown := True\<rparr>"

definition bq_size :: "'a BoundedQueue \<Rightarrow> nat" where
  "bq_size q = length (queue q)"

definition highWaterMark :: "'a BoundedQueue \<Rightarrow> nat" where
  "highWaterMark q = high_water_mark q"

lemmas [queue_defs] = BoundedQueue_new_def can_push_def can_pop_def push_critical_def
  pop_critical_def push_def pop_def shutdown_def bq_size_def highWaterMark_def

section \<open>Invariant and functional behaviour\<close>

definition bq_inv :: "'a BoundedQueue \<Rightarrow> bool" where
  "bq_inv q \<longleftrightarrow> length (queue q) \<le> high_water_mark q \<and> high_water_mark q \<le> capacity q"

lemma BoundedQueue_new_simps [simp]:
  "capacity (BoundedQueue_new c) = c" "queue (BoundedQueue_new c) = []"
  "high_water_mark (BoundedQueue_new c) = 0" "is_shutdown (BoundedQueue_new c) = False"
  by (simp_all add: BoundedQueue_new_def)

lemma bq_inv_new [simp]: "bq_inv (BoundedQueue_new c)"
  by (simp add: bq_inv_def queue_defs)

lemma capacity_ops [simp]:
  "capacity (snd (push_critical x q)) = capacity q"
  "capacity (snd (pop_critical q)) = capacity q"
  "capacity (shutdown q) = capacity q"
  by (auto simp: queue_defs Let_def split: list.splits)

lemma is_shutdown_ops [simp]:
  "is_shutdown (snd (push_critical x q)) = is_shutdown q"
  "is_shutdown (snd (pop_critical q)) = is_shutdown q"
  "is_shutdown (shutdown q)"
  by (auto simp: queue_defs Let_def split: list.splits)

lemma queue_ops:
  "queue (snd (push_critical x q)) = queue q @ (if is_shutdown q then [] else [x])"
  "queue (snd (pop_critical q)) = tl (queue q)"
  "queue (shutdown q) = queue q"
  by (auto simp: queue_defs Let_def split: list.splits)

lemma result_ops [simp]:
  "fst (push_critical x q) = (\<not> is_shutdown q)"
  "fst (pop_critical q) = (case queue q of [] \<Rightarrow> None | y # ys \<Rightarrow> Some y)"
  by (auto simp: queue_defs Let_def split: list.splits)

text \<open>The same as facts about the result, for the four ways a critical section can end.\<close>

lemma critical_cases:
  "push_critical x q = (True, q') \<Longrightarrow> \<not> is_shutdown q \<and> queue q' = queue q @ [x] \<and>
     capacity q' = capacity q \<and> \<not> is_shutdown q'"
  "push_critical x q = (False, q') \<Longrightarrow> is_shutdown q \<and> q' = q"
  "pop_critical q = (Some y, q') \<Longrightarrow> queue q = y # queue q' \<and> capacity q' = capacity q \<and>
     is_shutdown q' = is_shutdown q"
  "pop_critical q = (None, q') \<Longrightarrow> queue q = [] \<and> q' = q"
  by (auto simp: push_critical_def pop_critical_def Let_def split: if_splits list.splits)

lemma bq_inv_push: "bq_inv q \<Longrightarrow> can_push q \<Longrightarrow> bq_inv (snd (push_critical x q))"
  by (auto simp: bq_inv_def queue_defs Let_def)

lemma bq_inv_pop: "bq_inv q \<Longrightarrow> bq_inv (snd (pop_critical q))"
  by (auto simp: bq_inv_def queue_defs split: list.splits)

lemma bq_inv_shutdown: "bq_inv q \<Longrightarrow> bq_inv (shutdown q)"
  by (simp add: bq_inv_def queue_defs)

lemma push_Done_iff:
  "push x q = Done (ok, q') \<longleftrightarrow> can_push q \<and> ok = (\<not> is_shutdown q) \<and> q' = snd (push_critical x q)"
  by (auto simp: push_def push_critical_def Let_def)

lemma pop_Done_iff:
  "pop q = Done (r, q') \<longleftrightarrow>
     can_pop q \<and> r = (case queue q of [] \<Rightarrow> None | y # ys \<Rightarrow> Some y) \<and> q' = snd (pop_critical q)"
  by (auto simp: pop_def pop_critical_def split: list.splits)

section \<open>The queue keeps the contract\<close>

definition bq_iface :: "('a BoundedQueue, 'a) queue_iface" where
  "bq_iface = \<lparr>q_push = push, q_pop = pop, q_shutdown = shutdown\<rparr>"

lemma bq_iface_simps [simp]:
  "q_push bq_iface = push" "q_pop bq_iface = pop" "q_shutdown bq_iface = shutdown"
  by (simp_all add: bq_iface_def)

interpretation bq: bounded_fifo bq_iface bq_inv queue is_shutdown capacity
proof unfold_locales
  fix q q' :: "'a BoundedQueue" and x ok r
  show "q_push bq_iface x q = Blocked \<longleftrightarrow> \<not> is_shutdown q \<and> capacity q \<le> length (queue q)"
    by (auto simp: push_def can_push_def)
  show "q_pop bq_iface q = Blocked \<longleftrightarrow> \<not> is_shutdown q \<and> queue q = []"
    by (auto simp: pop_def can_pop_def)
  show "queue (q_shutdown bq_iface q) = queue q" "is_shutdown (q_shutdown bq_iface q)"
    "capacity (q_shutdown bq_iface q) = capacity q"
    by (simp_all add: queue_ops)
  assume inv: "bq_inv q"
  show "length (queue q) \<le> capacity q" "bq_inv (q_shutdown bq_iface q)"
    using inv bq_inv_shutdown [of q] by (auto simp: bq_inv_def)
  show "ok = (\<not> is_shutdown q) \<and> queue q' = queue q @ (if is_shutdown q then [] else [x]) \<and>
      is_shutdown q' = is_shutdown q \<and> capacity q' = capacity q" "bq_inv q'"
    if "q_push bq_iface x q = Done (ok, q')"
    using that inv by (auto simp: push_Done_iff queue_ops bq_inv_push)
  show "queue q = (case r of None \<Rightarrow> [] | Some y \<Rightarrow> [y]) @ queue q' \<and>
      (r = None \<longrightarrow> queue q' = []) \<and> is_shutdown q' = is_shutdown q \<and> capacity q' = capacity q"
    "bq_inv q'"
    if "q_pop bq_iface q = Done (r, q')"
    using that inv by (auto simp: pop_Done_iff queue_ops bq_inv_pop split: list.splits)
qed

section \<open>The high-water mark\<close>

text \<open>How many items the queue holds before, between and after the operations of a run.\<close>

fun occupancies :: "'a queue_op list \<Rightarrow> ('a BoundedQueue, 'a) queue_run \<Rightarrow> nat list" where
  "occupancies [] r = [bq_size (final r)]"
| "occupancies (c # cs) r = bq_size (final r) # occupancies cs (apply_op bq_iface c r)"

lemma high_water_mark_apply:
  assumes "bq_inv (final r)"
  shows "high_water_mark (final (apply_op bq_iface c r)) =
      max (high_water_mark (final r)) (bq_size (final (apply_op bq_iface c r)))"
    and "bq_inv (final (apply_op bq_iface c r))"
proof -
  show "high_water_mark (final (apply_op bq_iface c r)) =
      max (high_water_mark (final r)) (bq_size (final (apply_op bq_iface c r)))"
    using assms
    by (cases c) (auto simp: bq_inv_def queue_defs Let_def split: attempt.splits option.splits list.splits)
  show "bq_inv (final (apply_op bq_iface c r))"
    using bq.apply_op_ok [of "final r" "\<lparr>final = final r, accepted = [], popped = []\<rparr>" c] assms
    by (cases c) (auto simp: bq.run_ok_def split: attempt.splits option.splits)
qed

lemma high_water_mark_fold:
  "bq_inv (final r) \<Longrightarrow>
    high_water_mark (final (fold (apply_op bq_iface) cs r)) =
      max (high_water_mark (final r)) (Max (set (occupancies cs r)))"
proof (induction cs arbitrary: r)
  case Nil
  then show ?case by (simp add: bq_inv_def bq_size_def)
next
  case (Cons c cs)
  let ?r = "apply_op bq_iface c r"
  have ne: "set (occupancies cs ?r) \<noteq> {}" "bq_size (final ?r) \<in> set (occupancies cs ?r)"
    by (cases cs; simp)+
  then have "bq_size (final ?r) \<le> Max (set (occupancies cs ?r))" by simp
  moreover have "bq_size (final r) \<le> high_water_mark (final r)"
    using Cons.prems by (simp add: bq_inv_def bq_size_def)
  ultimately show ?case
    using Cons.IH [of ?r] high_water_mark_apply [OF Cons.prems, of c] ne(1) by (simp add: max_def)
qed

section \<open>Properties\<close>

text \<open>
  First in, first out. After any sequence of pushes, pops and shutdowns on a new queue, the
  items handed out so far followed by the items still queued are exactly the items accepted so
  far, in the order they were accepted, and there are never more items queued than the capacity.
\<close>

lemma queue_fifo:
  "let r = run_ops bq_iface (BoundedQueue_new c) ops in
     popped r @ queue (final r) = accepted r \<and> length (queue (final r)) \<le> c"
  using bq.fifo_conservation [of "BoundedQueue_new c" ops] bq.run_bounded [of "BoundedQueue_new c" ops]
  by (simp add: Let_def)

text \<open>
  Drain, then stop. On a queue that has been shut down, no sequence of operations enqueues
  anything any more, and a consumer loop that pops until \<^verbatim>\<open>pop\<close> returns false terminates and
  receives exactly the items that were queued, in order.
\<close>

lemma queue_shutdown_drains:
  assumes "bq_inv q" and "length (queue q) < fuel"
  shows "accepted (run_ops bq_iface (shutdown q) ops) = [] \<and>
    (\<exists>q'. drain_loop bq_iface fuel (shutdown q) = Some (queue q, q') \<and> queue q' = [])"
  using bq.closed_accepts_nothing [of "shutdown q" ops] bq.drain_closed [of "shutdown q" fuel]
    assms bq_inv_shutdown [OF assms(1)] by (auto simp: queue_ops)

lemma queue_shutdown_drains_witness:
  "let q = \<lparr>capacity = 2, queue = [7, 8 :: nat], high_water_mark = 2, is_shutdown = False\<rparr> in
    accepted (run_ops bq_iface (shutdown q) [Push 9, Pop]) = [] \<and>
    (\<exists>q'. drain_loop bq_iface 3 (shutdown q) = Some ([7, 8], q') \<and> queue q' = [])"
  using queue_shutdown_drains
    [of "\<lparr>capacity = 2, queue = [7, 8 :: nat], high_water_mark = 2, is_shutdown = False\<rparr>" 3 "[Push 9, Pop]"]
  by (simp add: bq_inv_def)

text \<open>
  C26: \<^verbatim>\<open>highWaterMark\<close> is the largest number of items that were ever queued at the same time: it is
  never too low, never too high, and draining does not lower it.
\<close>

theorem queue_high_water_mark_exact:
  "highWaterMark (final (run_ops bq_iface (BoundedQueue_new c) ops)) =
     Max (set (occupancies ops \<lparr>final = BoundedQueue_new c, accepted = [], popped = []\<rparr>))"
  using high_water_mark_fold [of "\<lparr>final = BoundedQueue_new c, accepted = [], popped = []\<rparr>" ops]
  by (simp add: run_ops_def highWaterMark_def)

text \<open>
  Exactly when the operations block, and what they return when they do not. \<^verbatim>\<open>push\<close> blocks on a
  full queue that is not shut down, and otherwise returns true and appends its item, or returns
  false and leaves the queue as it is when it is shut down; \<^verbatim>\<open>pop\<close> blocks on an empty queue that is
  not shut down, and otherwise hands out the front item, or returns false when there is none.
\<close>

lemma queue_operations:
  "(push x q = Blocked \<longleftrightarrow> capacity q \<le> length (queue q) \<and> \<not> is_shutdown q) \<and>
   (push x q = Done (True, q') \<longrightarrow> queue q' = queue q @ [x] \<and> \<not> is_shutdown q) \<and>
   (push x q = Done (False, q') \<longrightarrow> q' = q \<and> is_shutdown q) \<and>
   (pop q = Blocked \<longleftrightarrow> queue q = [] \<and> \<not> is_shutdown q) \<and>
   (pop q = Done (Some y, q') \<longrightarrow> queue q = y # queue q') \<and>
   (pop q = Done (None, q') \<longrightarrow> queue q = [] \<and> q' = q \<and> is_shutdown q)"
  by (auto simp: push_def pop_def can_push_def can_pop_def dest: critical_cases)

lemma queue_operations_witness:
  "push (7::nat) (BoundedQueue_new 0) = Blocked \<and>
   push (7::nat) (BoundedQueue_new 1) =
     Done (True, \<lparr>capacity = 1, queue = [7], high_water_mark = 1, is_shutdown = False\<rparr>) \<and>
   pop (BoundedQueue_new 1 :: nat BoundedQueue) = Blocked"
  using queue_operations [of 7 "BoundedQueue_new 0"] queue_operations [of 7 "BoundedQueue_new 1"]
  by (simp add: queue_defs)

end
