(* ===== verification/Queue_Threads.thy ===== *)
theory Queue_Threads
  imports Bounded_Queue
begin

text \<open>
  The threads inside a \<^verbatim>\<open>BoundedQueue\<close>: each call of \<^verbatim>\<open>push\<close>, \<^verbatim>\<open>pop\<close> and \<^verbatim>\<open>shutdown\<close> is a sequence of
  atomic steps (acquire the mutex, evaluate the wait predicate, park on a condition variable and
  release the mutex, run the critical section, release, notify), and the steps of any number of
  threads interleave freely. Condition variables behave as the C++ standard says:
  \<^verbatim>\<open>notify_one\<close> wakes one parked thread if there is one and is lost otherwise, \<^verbatim>\<open>notify_all\<close> wakes all
  of them, and a parked thread may wake with no notification at all. \<^verbatim>\<open>push\<close> and \<^verbatim>\<open>pop\<close> notify after
  they have released the mutex, as the code does.

  The results: the mutex is exclusive, every interleaving is a sequence of the atomic
  operations of \<^verbatim>\<open>Bounded_Queue\<close>, and no wakeup is lost.
\<close>

section \<open>Thread states and steps\<close>

text \<open>Where a thread is in the code; the names follow the three member functions.\<close>

datatype 'a pc =
    Idle
  | PushLock 'a | PushTest 'a | is_PushWait: PushWait 'a | PushWake 'a | is_PushBody: PushBody 'a
  | is_PushNotify: PushNotify
  | PopLock | PopTest | is_PopWait: PopWait | PopWake | PopBody | is_PopNotify: PopNotify
  | ShutLock | ShutSet | is_ShutNotifyFull: ShutNotifyFull | is_ShutNotifyEmpty: ShutNotifyEmpty

text \<open>
  \<^verbatim>\<open>shared\<close> is the object behind the mutex, \<^verbatim>\<open>owner\<close> the thread that holds the mutex and \<^verbatim>\<open>thr\<close> the
  threads. \<^verbatim>\<open>trace\<close> and \<^verbatim>\<open>took\<close>/\<^verbatim>\<open>gave\<close> are ghost state: the critical sections in the order they ran,
  the items accepted and the items handed out.
\<close>

record 'a queue_threads =
  shared :: "'a BoundedQueue"
  owner :: "nat option"
  thr :: "'a pc list"
  trace :: "'a queue_op list"
  took :: "'a list"
  gave :: "'a list"

definition threads_start :: "nat \<Rightarrow> nat \<Rightarrow> 'a queue_threads" where
  "threads_start c n = \<lparr>shared = BoundedQueue_new c, owner = None, thr = replicate n Idle,
     trace = [], took = [], gave = []\<rparr>"

fun wake_push :: "'a pc \<Rightarrow> 'a pc" where
  "wake_push (PushWait x) = PushWake x"
| "wake_push p = p"

fun wake_pop :: "'a pc \<Rightarrow> 'a pc" where
  "wake_pop PopWait = PopWake"
| "wake_pop p = p"

definition at_pc :: "'a queue_threads \<Rightarrow> nat \<Rightarrow> 'a pc \<Rightarrow> bool" where
  "at_pc s i p \<longleftrightarrow> i < length (thr s) \<and> thr s ! i = p"

definition goto :: "nat \<Rightarrow> 'a pc \<Rightarrow> 'a queue_threads \<Rightarrow> 'a queue_threads" where
  "goto i p s = s\<lparr>thr := (thr s)[i := p]\<rparr>"

text \<open>\<^verbatim>\<open>qstep i s t\<close>: one atomic step of thread \<^verbatim>\<open>i\<close> takes \<^verbatim>\<open>s\<close> to \<^verbatim>\<open>t\<close>.\<close>

inductive qstep :: "nat \<Rightarrow> 'a queue_threads \<Rightarrow> 'a queue_threads \<Rightarrow> bool" where
  call_push: "at_pc s i Idle \<Longrightarrow> qstep i s (goto i (PushLock x) s)"
| push_lock: "at_pc s i (PushLock x) \<Longrightarrow> owner s = None \<Longrightarrow>
    qstep i s (goto i (PushTest x) (s\<lparr>owner := Some i\<rparr>))"
| push_park: "at_pc s i (PushTest x) \<Longrightarrow> \<not> can_push (shared s) \<Longrightarrow>
    qstep i s (goto i (PushWait x) (s\<lparr>owner := None\<rparr>))"
| push_spurious: "at_pc s i (PushWait x) \<Longrightarrow> qstep i s (goto i (PushWake x) s)"
| push_relock: "at_pc s i (PushWake x) \<Longrightarrow> owner s = None \<Longrightarrow>
    qstep i s (goto i (PushTest x) (s\<lparr>owner := Some i\<rparr>))"
| push_go: "at_pc s i (PushTest x) \<Longrightarrow> can_push (shared s) \<Longrightarrow> qstep i s (goto i (PushBody x) s)"
| push_true: "at_pc s i (PushBody x) \<Longrightarrow> push_critical x (shared s) = (True, q) \<Longrightarrow>
    qstep i s (goto i PushNotify (s\<lparr>shared := q, owner := None,
      trace := trace s @ [Push x], took := took s @ [x]\<rparr>))"
| push_false: "at_pc s i (PushBody x) \<Longrightarrow> push_critical x (shared s) = (False, q) \<Longrightarrow>
    qstep i s (goto i Idle (s\<lparr>shared := q, owner := None, trace := trace s @ [Push x]\<rparr>))"
| push_notify: "at_pc s i PushNotify \<Longrightarrow> at_pc s j PopWait \<Longrightarrow>
    qstep i s (goto j PopWake (goto i Idle s))"
| push_notify_lost: "at_pc s i PushNotify \<Longrightarrow> \<not> (\<exists>j. at_pc s j PopWait) \<Longrightarrow> qstep i s (goto i Idle s)"
| call_pop: "at_pc s i Idle \<Longrightarrow> qstep i s (goto i PopLock s)"
| pop_lock: "at_pc s i PopLock \<Longrightarrow> owner s = None \<Longrightarrow>
    qstep i s (goto i PopTest (s\<lparr>owner := Some i\<rparr>))"
| pop_park: "at_pc s i PopTest \<Longrightarrow> \<not> can_pop (shared s) \<Longrightarrow>
    qstep i s (goto i PopWait (s\<lparr>owner := None\<rparr>))"
| pop_spurious: "at_pc s i PopWait \<Longrightarrow> qstep i s (goto i PopWake s)"
| pop_relock: "at_pc s i PopWake \<Longrightarrow> owner s = None \<Longrightarrow>
    qstep i s (goto i PopTest (s\<lparr>owner := Some i\<rparr>))"
| pop_go: "at_pc s i PopTest \<Longrightarrow> can_pop (shared s) \<Longrightarrow> qstep i s (goto i PopBody s)"
| pop_true: "at_pc s i PopBody \<Longrightarrow> pop_critical (shared s) = (Some x, q) \<Longrightarrow>
    qstep i s (goto i PopNotify (s\<lparr>shared := q, owner := None,
      trace := trace s @ [Pop], gave := gave s @ [x]\<rparr>))"
| pop_false: "at_pc s i PopBody \<Longrightarrow> pop_critical (shared s) = (None, q) \<Longrightarrow>
    qstep i s (goto i Idle (s\<lparr>shared := q, owner := None, trace := trace s @ [Pop]\<rparr>))"
| pop_notify: "at_pc s i PopNotify \<Longrightarrow> at_pc s j (PushWait x) \<Longrightarrow>
    qstep i s (goto j (PushWake x) (goto i Idle s))"
| pop_notify_lost: "at_pc s i PopNotify \<Longrightarrow> \<not> (\<exists>j x. at_pc s j (PushWait x)) \<Longrightarrow> qstep i s (goto i Idle s)"
| call_shutdown: "at_pc s i Idle \<Longrightarrow> qstep i s (goto i ShutLock s)"
| shut_lock: "at_pc s i ShutLock \<Longrightarrow> owner s = None \<Longrightarrow>
    qstep i s (goto i ShutSet (s\<lparr>owner := Some i\<rparr>))"
| shut_set: "at_pc s i ShutSet \<Longrightarrow>
    qstep i s (goto i ShutNotifyFull (s\<lparr>shared := shutdown (shared s), owner := None,
      trace := trace s @ [Shutdown]\<rparr>))"
| shut_notify_full: "at_pc s i ShutNotifyFull \<Longrightarrow>
    qstep i s (goto i ShutNotifyEmpty (s\<lparr>thr := map wake_push (thr s)\<rparr>))"
| shut_notify_empty: "at_pc s i ShutNotifyEmpty \<Longrightarrow>
    qstep i s (goto i Idle (s\<lparr>thr := map wake_pop (thr s)\<rparr>))"

text \<open>States some interleaving of \<^verbatim>\<open>n\<close> threads on a queue of capacity \<^verbatim>\<open>c\<close> leads to.\<close>

inductive qreach :: "nat \<Rightarrow> nat \<Rightarrow> 'a queue_threads \<Rightarrow> bool" for c n where
  start: "qreach c n (threads_start c n)"
| step: "qreach c n s \<Longrightarrow> qstep i s t \<Longrightarrow> qreach c n t"

section \<open>Mutual exclusion\<close>

fun holds_lock :: "'a pc \<Rightarrow> bool" where
  "holds_lock (PushTest x) = True"
| "holds_lock (PushBody x) = True"
| "holds_lock PopTest = True"
| "holds_lock PopBody = True"
| "holds_lock ShutSet = True"
| "holds_lock p = False"

definition mutex_inv :: "'a queue_threads \<Rightarrow> bool" where
  "mutex_inv s \<longleftrightarrow> (\<forall>i < length (thr s). holds_lock (thr s ! i) \<longleftrightarrow> owner s = Some i)"

lemma goto_simps [simp]:
  "shared (goto i p s) = shared s" "owner (goto i p s) = owner s" "trace (goto i p s) = trace s"
  "took (goto i p s) = took s" "gave (goto i p s) = gave s" "length (thr (goto i p s)) = length (thr s)"
  "thr (goto i p s) = (thr s)[i := p]"
  by (simp_all add: goto_def)

lemma holds_wake [simp]:
  "holds_lock (wake_push p) = holds_lock p" "holds_lock (wake_pop p) = holds_lock p"
  by (cases p; simp)+

lemma mutex_step: "qstep i s t \<Longrightarrow> mutex_inv s \<Longrightarrow> mutex_inv t"
  by (induction rule: qstep.induct) (auto simp: mutex_inv_def at_pc_def nth_list_update)

section \<open>Every interleaving is a sequence of atomic operations\<close>

text \<open>
  The wait predicate still holds when the critical section runs: between the two the thread
  keeps the mutex.
\<close>

definition body_inv :: "'a queue_threads \<Rightarrow> bool" where
  "body_inv s \<longleftrightarrow> (\<forall>i < length (thr s). (is_PushBody (thr s ! i) \<longrightarrow> can_push (shared s)) \<and>
     (thr s ! i = PopBody \<longrightarrow> can_pop (shared s)))"

lemma body_wake [simp]:
  "is_PushBody (wake_push p) = is_PushBody p" "is_PushBody (wake_pop p) = is_PushBody p"
  "wake_push p = PopBody \<longleftrightarrow> p = PopBody" "wake_pop p = PopBody \<longleftrightarrow> p = PopBody"
  by (cases p; simp)+

lemma holds_body: "is_PushBody p \<Longrightarrow> holds_lock p"
  by (cases p) auto

lemma can_shutdown [simp]: "can_push (shutdown q)" "can_pop (shutdown q)"
  by (simp_all add: can_push_def can_pop_def)

text \<open>When the thread that holds the mutex leaves its critical section, nobody is in one.\<close>

lemma only_holder:
  "\<lbrakk>mutex_inv s; at_pc s i p; holds_lock p; j < length (thr s); holds_lock (thr s ! j)\<rbrakk> \<Longrightarrow> j = i"
  by (auto simp: mutex_inv_def at_pc_def)

lemma body_leave:
  assumes "mutex_inv s" "at_pc s i p" "holds_lock p" "\<not> holds_lock p'" "thr u = (thr s)[i := p']"
  shows "body_inv u"
proof -
  have free: "\<not> holds_lock (thr u ! j)" if j: "j < length (thr u)" for j
  proof (cases "j = i")
    case True
    with assms(2,4,5) show ?thesis by (simp add: at_pc_def)
  next
    case False
    with assms(5) j have "thr u ! j = thr s ! j" and "j < length (thr s)" by simp_all
    with only_holder [OF assms(1-3)] False show ?thesis by metis
  qed
  show ?thesis
    unfolding body_inv_def using free holds_body by (metis holds_lock.simps(4))
qed

lemma body_step: "qstep i s t \<Longrightarrow> mutex_inv s \<Longrightarrow> body_inv s \<Longrightarrow> body_inv t"
proof (induction rule: qstep.induct)
  case (push_true s i x q)
  show ?case by (rule body_leave [OF push_true(3) push_true(1)]) simp_all
next
  case (push_false s i x q)
  show ?case by (rule body_leave [OF push_false(3) push_false(1)]) simp_all
next
  case (pop_true s i x q)
  show ?case by (rule body_leave [OF pop_true(3) pop_true(1)]) simp_all
next
  case (pop_false s i q)
  show ?case by (rule body_leave [OF pop_false(3) pop_false(1)]) simp_all
qed (auto simp: body_inv_def at_pc_def nth_list_update)

definition linear_inv :: "nat \<Rightarrow> 'a queue_threads \<Rightarrow> bool" where
  "linear_inv c s \<longleftrightarrow> run_ops bq_iface (BoundedQueue_new c) (trace s) =
     \<lparr>final = shared s, accepted = took s, popped = gave s\<rparr>"

lemma run_ops_snoc: "run_ops I q (cs @ [c]) = apply_op I c (run_ops I q cs)"
  by (simp add: run_ops_def)

lemma linear_step: "qstep i s t \<Longrightarrow> body_inv s \<Longrightarrow> linear_inv c s \<Longrightarrow> linear_inv c t"
  by (induction rule: qstep.induct)
    (auto simp: linear_inv_def body_inv_def at_pc_def run_ops_snoc push_def pop_def)

definition safe_inv :: "nat \<Rightarrow> 'a queue_threads \<Rightarrow> bool" where
  "safe_inv c s \<longleftrightarrow> mutex_inv s \<and> body_inv s \<and> linear_inv c s"

lemma safe_start: "safe_inv c (threads_start c n)"
  by (simp add: safe_inv_def mutex_inv_def body_inv_def linear_inv_def threads_start_def run_ops_def)

lemma safe_step: "qstep i s t \<Longrightarrow> safe_inv c s \<Longrightarrow> safe_inv c t"
  by (simp add: safe_inv_def mutex_step body_step linear_step)

lemma qreach_safe: "qreach c n s \<Longrightarrow> safe_inv c s"
  by (induction rule: qreach.induct) (auto intro: safe_start safe_step)

lemma qstep_length: "qstep i s t \<Longrightarrow> length (thr t) = length (thr s)"
  by (induction rule: qstep.induct) simp_all

lemma qreach_length: "qreach c n s \<Longrightarrow> length (thr s) = n"
  by (induction rule: qreach.induct) (auto simp: threads_start_def dest: qstep_length)

section \<open>No wakeup is lost\<close>

text \<open>
  A thread inside \<^verbatim>\<open>push\<close> that will evaluate its predicate again or is past it (\<^verbatim>\<open>push_active\<close>), and
  the same for \<^verbatim>\<open>pop\<close>.
\<close>

fun push_active :: "'a pc \<Rightarrow> bool" where
  "push_active (PushWake x) = True"
| "push_active (PushTest x) = True"
| "push_active (PushBody x) = True"
| "push_active p = False"

fun pop_active :: "'a pc \<Rightarrow> bool" where
  "pop_active PopWake = True"
| "pop_active PopTest = True"
| "pop_active PopBody = True"
| "pop_active p = False"

abbreviation tally :: "('a pc \<Rightarrow> bool) \<Rightarrow> 'a queue_threads \<Rightarrow> nat" where
  "tally P s \<equiv> count_if P (thr s)"

text \<open>
  While some producer is parked, every free slot is matched by a producer that is awake or by
  a consumer that is about to notify; while some consumer is parked, every queued item is
  matched in the same way. After a shutdown, a parked thread is matched by the shutdown
  thread's pending \<^verbatim>\<open>notify_all\<close>.
\<close>

definition wake_inv :: "'a queue_threads \<Rightarrow> bool" where
  "wake_inv s \<longleftrightarrow> (let q = shared s in
     (\<not> is_shutdown q \<and> 0 < tally is_PushWait s \<longrightarrow>
        capacity q \<le> length (queue q) + tally push_active s + tally is_PopNotify s) \<and>
     (\<not> is_shutdown q \<and> 0 < tally is_PopWait s \<longrightarrow>
        length (queue q) \<le> tally pop_active s + tally is_PushNotify s) \<and>
     (is_shutdown q \<and> 0 < tally is_PushWait s \<longrightarrow> 0 < tally is_ShutNotifyFull s) \<and>
     (is_shutdown q \<and> 0 < tally is_PopWait s \<longrightarrow>
        0 < tally is_ShutNotifyFull s + tally is_ShutNotifyEmpty s))"

text \<open>The tallies after one thread has moved, for the predicates the invariant speaks of.\<close>

lemma tallies_goto:
  assumes "at_pc s i p"
  defines "b P \<equiv> (if P p then 1 else 0 :: nat)" and "b' P p' \<equiv> (if P p' then 1 else 0 :: nat)"
  shows "tally is_PushWait (goto i p' s) + b is_PushWait = tally is_PushWait s + b' is_PushWait p'"
    "tally push_active (goto i p' s) + b push_active = tally push_active s + b' push_active p'"
    "tally is_PushNotify (goto i p' s) + b is_PushNotify = tally is_PushNotify s + b' is_PushNotify p'"
    "tally is_PopWait (goto i p' s) + b is_PopWait = tally is_PopWait s + b' is_PopWait p'"
    "tally pop_active (goto i p' s) + b pop_active = tally pop_active s + b' pop_active p'"
    "tally is_PopNotify (goto i p' s) + b is_PopNotify = tally is_PopNotify s + b' is_PopNotify p'"
    "tally is_ShutNotifyFull (goto i p' s) + b is_ShutNotifyFull =
       tally is_ShutNotifyFull s + b' is_ShutNotifyFull p'"
    "tally is_ShutNotifyEmpty (goto i p' s) + b is_ShutNotifyEmpty =
       tally is_ShutNotifyEmpty s + b' is_ShutNotifyEmpty p'"
  unfolding b_def b'_def using assms(1) count_if_update [of i "thr s" _ p'] by (simp_all add: at_pc_def)

lemmas wake_simps = wake_inv_def Let_def can_push_def can_pop_def

text \<open>Steps that neither touch the queue nor consume a notification.\<close>

lemma wake_move:
  assumes "at_pc s i p" "thr v = thr s" "shared v = shared s" "wake_inv s"
    and "is_PushWait p' \<Longrightarrow> \<not> can_push (shared s)" "is_PopWait p' \<Longrightarrow> \<not> can_pop (shared s)"
    and "push_active p \<Longrightarrow> push_active p' \<or> is_PushWait p'" "pop_active p \<Longrightarrow> pop_active p' \<or> is_PopWait p'"
    and "\<not> is_PushNotify p" "\<not> is_PopNotify p" "\<not> is_ShutNotifyFull p" "\<not> is_ShutNotifyEmpty p"
  shows "wake_inv (goto i p' v)"
proof -
  let ?u = "goto i p' v"
  have u: "thr ?u = thr (goto i p' s)" using assms(2) by simp
  note t = tallies_goto [OF assms(1), of p', folded u]
  have PW: "\<not> can_push (shared s) \<or> tally is_PushWait ?u \<le> tally is_PushWait s \<and> tally push_active s \<le> tally push_active ?u"
    using t(1,2) assms(5,7) by (auto split: if_splits)
  have QW: "\<not> can_pop (shared s) \<or> tally is_PopWait ?u \<le> tally is_PopWait s \<and> tally pop_active s \<le> tally pop_active ?u"
    using t(4,5) assms(6,8) by (auto split: if_splits)
  have N: "tally is_PushNotify s \<le> tally is_PushNotify ?u" "tally is_PopNotify s \<le> tally is_PopNotify ?u"
    "tally is_ShutNotifyFull s \<le> tally is_ShutNotifyFull ?u" "tally is_ShutNotifyEmpty s \<le> tally is_ShutNotifyEmpty ?u"
    using t(3,6,7,8) assms(9-12) by auto
  show ?thesis
  proof (cases "is_shutdown (shared s)")
    case True
    with assms(3,4) PW QW N show ?thesis by (auto simp: wake_simps)
  next
    case False
    with assms(3,4) PW QW N(1,2) show ?thesis by (auto simp: wake_simps)
  qed
qed

lemma wake_push_true:
  assumes "at_pc s i (PushBody x)" "push_critical x (shared s) = (True, q)" "wake_inv s"
    "thr u = thr (goto i PushNotify s)" "shared u = q"
  shows "wake_inv u"
  using tallies_goto [OF assms(1), of PushNotify] assms(3-) critical_cases(1) [OF assms(2)]
  by (simp add: wake_simps; arith)

lemma wake_push_false:
  assumes "at_pc s i (PushBody x)" "push_critical x (shared s) = (False, q)" "wake_inv s"
    "thr u = thr (goto i Idle s)" "shared u = q"
  shows "wake_inv u"
  using tallies_goto [OF assms(1), of Idle] assms(3-) critical_cases(2) [OF assms(2)]
  by (simp add: wake_simps; arith)

lemma wake_pop_true:
  assumes "at_pc s i PopBody" "pop_critical (shared s) = (Some y, q)" "wake_inv s"
    "thr u = thr (goto i PopNotify s)" "shared u = q"
  shows "wake_inv u"
  using tallies_goto [OF assms(1), of PopNotify] assms(3-) critical_cases(3) [OF assms(2)]
  by (simp add: wake_simps; arith)

lemma wake_pop_false:
  assumes "at_pc s i PopBody" "pop_critical (shared s) = (None, q)" "wake_inv s"
    "thr u = thr (goto i Idle s)" "shared u = q"
  shows "wake_inv u"
  using tallies_goto [OF assms(1), of Idle] assms(3-) critical_cases(4) [OF assms(2)]
  by (simp add: wake_simps; arith)

lemma at_goto: "at_pc s j p \<Longrightarrow> j \<noteq> i \<Longrightarrow> at_pc (goto i p' s) j p"
  by (simp add: at_pc_def)

lemma wake_push_notify:
  assumes "at_pc s i PushNotify" "at_pc s j PopWait" "wake_inv s"
  shows "wake_inv (goto j PopWake (goto i Idle s))"
proof -
  have j: "at_pc (goto i Idle s) j PopWait"
    by (rule at_goto [OF assms(2)]) (use assms(1,2) in \<open>auto simp: at_pc_def\<close>)
  show ?thesis
    using assms(3) tallies_goto [OF assms(1), of Idle] tallies_goto [OF j, of PopWake]
    by (simp add: wake_simps; arith)
qed

lemma wake_pop_notify:
  assumes "at_pc s i PopNotify" "at_pc s j (PushWait x)" "wake_inv s"
  shows "wake_inv (goto j (PushWake x) (goto i Idle s))"
proof -
  have j: "at_pc (goto i Idle s) j (PushWait x)"
    by (rule at_goto [OF assms(2)]) (use assms(1,2) in \<open>auto simp: at_pc_def\<close>)
  show ?thesis
    using assms(3) tallies_goto [OF assms(1), of Idle] tallies_goto [OF j, of "PushWake x"]
    by (simp add: wake_simps; arith)
qed

lemma tally_none:
  "\<not> (\<exists>j. at_pc s j PopWait) \<Longrightarrow> tally is_PopWait s = 0"
  "\<not> (\<exists>j x. at_pc s j (PushWait x)) \<Longrightarrow> tally is_PushWait s = 0"
  by (auto simp: count_if_zero at_pc_def is_PushWait_def is_PopWait_def)

lemma wake_push_notify_lost:
  assumes "at_pc s i PushNotify" "\<not> (\<exists>j. at_pc s j PopWait)" "wake_inv s"
  shows "wake_inv (goto i Idle s)"
  using assms(3) tallies_goto [OF assms(1), of Idle] tally_none(1) [OF assms(2)]
  by (simp add: wake_simps; arith)

lemma wake_pop_notify_lost:
  assumes "at_pc s i PopNotify" "\<not> (\<exists>j x. at_pc s j (PushWait x))" "wake_inv s"
  shows "wake_inv (goto i Idle s)"
  using assms(3) tallies_goto [OF assms(1), of Idle] tally_none(2) [OF assms(2)]
  by (simp add: wake_simps; arith)

lemma wake_shut_set:
  assumes "at_pc s i ShutSet" "wake_inv s" "thr u = thr (goto i ShutNotifyFull s)" "shared u = shutdown (shared s)"
  shows "wake_inv u"
  using assms(2-) tallies_goto [OF assms(1), of ShutNotifyFull] by (simp add: wake_simps; arith)

text \<open>\<^verbatim>\<open>notify_all\<close>: nobody is parked on that condition variable afterwards.\<close>

lemma wake_push_preds [simp]:
  "is_PushWait (wake_push p) = False" "is_PopWait (wake_push p) = is_PopWait p"
  "pop_active (wake_push p) = pop_active p" "is_PushNotify (wake_push p) = is_PushNotify p"
  by (cases p; simp)+

lemma wake_pop_preds [simp]:
  "is_PopWait (wake_pop p) = False" "is_PushWait (wake_pop p) = is_PushWait p"
  "is_ShutNotifyFull (wake_pop p) = is_ShutNotifyFull p"
  "push_active (wake_pop p) = push_active p" "is_PopNotify (wake_pop p) = is_PopNotify p"
  by (cases p; simp)+

lemma wake_shut_full:
  assumes "at_pc s i ShutNotifyFull" "wake_inv s"
  shows "wake_inv (goto i ShutNotifyEmpty (s\<lparr>thr := map wake_push (thr s)\<rparr>))"
proof -
  let ?s = "s\<lparr>thr := map wake_push (thr s)\<rparr>"
  let ?u = "goto i ShutNotifyEmpty ?s"
  have "at_pc ?s i ShutNotifyFull" using assms(1) by (auto simp: at_pc_def)
  from tallies_goto [OF this, of ShutNotifyEmpty]
  have "tally is_PushWait ?u = 0" "tally is_PopWait ?u = tally is_PopWait s"
    "tally pop_active ?u = tally pop_active s" "tally is_PushNotify ?u = tally is_PushNotify s"
    "0 < tally is_ShutNotifyEmpty ?u"
    by (simp_all add: count_if_map)
  with assms(2) show ?thesis by (simp add: wake_simps)
qed

lemma wake_shut_empty:
  assumes "at_pc s i ShutNotifyEmpty" "wake_inv s"
  shows "wake_inv (goto i Idle (s\<lparr>thr := map wake_pop (thr s)\<rparr>))"
proof -
  let ?s = "s\<lparr>thr := map wake_pop (thr s)\<rparr>"
  let ?u = "goto i Idle ?s"
  have "at_pc ?s i ShutNotifyEmpty" using assms(1) by (auto simp: at_pc_def)
  from tallies_goto [OF this, of Idle]
  have "tally is_PopWait ?u = 0" "tally is_PushWait ?u = tally is_PushWait s"
    "tally push_active ?u = tally push_active s" "tally is_PopNotify ?u = tally is_PopNotify s"
    "tally is_ShutNotifyFull ?u = tally is_ShutNotifyFull s"
    by (simp_all add: count_if_map)
  with assms(2) show ?thesis by (simp add: wake_simps)
qed

lemma wake_step: "qstep i s t \<Longrightarrow> wake_inv s \<Longrightarrow> wake_inv t"
proof (induction rule: qstep.induct)
  case push_true
  then show ?case by (rule wake_push_true) simp_all
next
  case push_false
  then show ?case by (rule wake_push_false) simp_all
next
  case pop_true
  then show ?case by (rule wake_pop_true) simp_all
next
  case pop_false
  then show ?case by (rule wake_pop_false) simp_all
next
  case shut_set
  then show ?case by (rule wake_shut_set) simp_all
qed (erule wake_push_notify wake_push_notify_lost wake_pop_notify wake_pop_notify_lost
       wake_shut_full wake_shut_empty; assumption | erule wake_move; simp)+

lemma qreach_wake: "qreach c n s \<Longrightarrow> wake_inv s"
  by (induction rule: qreach.induct) (auto intro: wake_step, simp add: wake_inv_def threads_start_def)

section \<open>Progress\<close>

text \<open>A thread is busy when it is inside a call and not parked on a condition variable.\<close>

definition busy :: "'a pc \<Rightarrow> bool" where
  "busy p \<longleftrightarrow> p \<noteq> Idle \<and> \<not> is_PushWait p \<and> \<not> is_PopWait p"

lemma holder_steps:
  assumes "at_pc s i p" "holds_lock p"
  shows "\<exists>t. qstep i s t"
proof (cases p)
  case (PushTest x)
  with assms show ?thesis by (cases "can_push (shared s)") (auto intro: qstep.intros)
next
  case (PushBody x)
  then show ?thesis
    using assms qstep.push_true qstep.push_false by (metis (full_types) prod.exhaust)
next
  case PopTest
  with assms show ?thesis by (cases "can_pop (shared s)") (auto intro: qstep.intros)
next
  case PopBody
  then show ?thesis
    using assms qstep.pop_true qstep.pop_false by (metis option.exhaust prod.exhaust)
qed (use assms in \<open>auto intro: qstep.intros\<close>)

lemma busy_steps:
  assumes "at_pc s i p" "busy p" "owner s = None"
  shows "\<exists>t. qstep i s t"
proof (cases p)
  case PushNotify
  with assms(1) have "at_pc s i PushNotify" by simp
  then show ?thesis using qstep.push_notify qstep.push_notify_lost by metis
next
  case PopNotify
  with assms(1) have "at_pc s i PopNotify" by simp
  then show ?thesis using qstep.pop_notify qstep.pop_notify_lost by metis
next
  case (PushLock x)
  with assms show ?thesis by (auto intro: qstep.push_lock)
next
  case (PushWake x)
  with assms show ?thesis by (auto intro: qstep.push_relock)
next
  case PopLock
  with assms show ?thesis by (auto intro: qstep.pop_lock)
next
  case PopWake
  with assms show ?thesis by (auto intro: qstep.pop_relock)
next
  case ShutLock
  with assms show ?thesis by (auto intro: qstep.shut_lock)
next
  case ShutNotifyFull
  with assms show ?thesis by (auto intro: qstep.shut_notify_full)
next
  case ShutNotifyEmpty
  with assms show ?thesis by (auto intro: qstep.shut_notify_empty)
qed (use assms(2) holder_steps [OF assms(1)] in \<open>simp_all add: busy_def\<close>)

text \<open>Where some thread is busy, some busy thread can take a step.\<close>

lemma busy_progress:
  assumes inv: "mutex_inv s" and owner: "\<And>i. owner s = Some i \<Longrightarrow> i < length (thr s)"
    and busy: "at_pc s i p" "busy p"
  shows "\<exists>j p' t. at_pc s j p' \<and> busy p' \<and> qstep j s t"
proof (cases "owner s")
  case None
  with busy show ?thesis using busy_steps by blast
next
  case (Some j)
  with inv owner have "at_pc s j (thr s ! j)" "holds_lock (thr s ! j)"
    by (auto simp: mutex_inv_def at_pc_def)
  moreover from this(2) have "busy (thr s ! j)" by (cases "thr s ! j") (auto simp: busy_def)
  ultimately show ?thesis using holder_steps by blast
qed

lemma owner_step:
  "qstep j s t \<Longrightarrow> (\<And>i. owner s = Some i \<Longrightarrow> i < length (thr s)) \<Longrightarrow> owner t = Some i \<Longrightarrow> i < length (thr t)"
  by (induction arbitrary: i rule: qstep.induct) (auto simp: at_pc_def)

lemma qreach_owner: "qreach c n s \<Longrightarrow> owner s = Some i \<Longrightarrow> i < length (thr s)"
proof (induction arbitrary: i rule: qreach.induct)
  case start
  then show ?case by (simp add: threads_start_def)
next
  case (step s j t)
  then show ?case using owner_step by blast
qed

lemma qreach_progress:
  assumes "qreach c n s" "at_pc s i p" "busy p"
  shows "\<exists>j p' t. at_pc s j p' \<and> busy p' \<and> qstep j s t"
  using busy_progress [OF _ qreach_owner [OF assms(1)] assms(2,3)] qreach_safe [OF assms(1)]
  by (simp add: safe_inv_def)

text \<open>
  A parked thread whose predicate holds is never alone: the tallies of \<^const>\<open>wake_inv\<close> leave room
  for it only beside a busy thread.
\<close>

lemma helpers_are_busy:
  "tally push_active s \<le> tally busy s" "tally pop_active s \<le> tally busy s"
  "tally is_PushNotify s \<le> tally busy s" "tally is_PopNotify s \<le> tally busy s"
  "tally is_ShutNotifyFull s \<le> tally busy s" "tally is_ShutNotifyEmpty s \<le> tally busy s"
proof -
  have "push_active p \<Longrightarrow> busy p" "pop_active p \<Longrightarrow> busy p" "is_PushNotify p \<Longrightarrow> busy p"
    "is_PopNotify p \<Longrightarrow> busy p" "is_ShutNotifyFull p \<Longrightarrow> busy p" "is_ShutNotifyEmpty p \<Longrightarrow> busy p"
    for p :: "'a pc"
    by (cases p; simp add: busy_def)+
  then show "tally push_active s \<le> tally busy s" "tally pop_active s \<le> tally busy s"
    "tally is_PushNotify s \<le> tally busy s" "tally is_PopNotify s \<le> tally busy s"
    "tally is_ShutNotifyFull s \<le> tally busy s" "tally is_ShutNotifyEmpty s \<le> tally busy s"
    by (simp_all add: count_if_mono)
qed

lemma parked_has_helper:
  assumes inv: "wake_inv s" and here: "at_pc s i p"
    and parked: "is_PushWait p \<and> can_push (shared s) \<or> is_PopWait p \<and> can_pop (shared s)"
  shows "\<exists>j p'. at_pc s j p' \<and> busy p'"
proof -
  have pos: "P p \<Longrightarrow> 0 < tally P s" for P
    using here by (auto simp: count_if_pos at_pc_def)
  have "0 < tally busy s"
    using parked
  proof (elim disjE conjE)
    assume "is_PushWait p" "can_push (shared s)"
    with pos [of is_PushWait] inv helpers_are_busy [of s] show ?thesis
      by (cases "is_shutdown (shared s)") (simp_all add: wake_simps)
  next
    assume "is_PopWait p" "can_pop (shared s)"
    with pos [of is_PopWait] inv helpers_are_busy [of s] show ?thesis
      by (cases "is_shutdown (shared s)") (auto simp: wake_simps simp flip: length_greater_0_conv)
  qed
  then show ?thesis by (auto simp: count_if_pos at_pc_def)
qed

section \<open>After a shutdown every call returns\<close>

text \<open>A step of a thread that is already inside a call.\<close>

definition inner_step :: "'a queue_threads \<Rightarrow> 'a queue_threads \<Rightarrow> bool" where
  "inner_step s t \<longleftrightarrow> (\<exists>i. qstep i s t \<and> \<not> at_pc s i Idle)"

fun work :: "'a pc \<Rightarrow> nat" where
  "work Idle = 0"
| "work (PushWait x) = 5" | "work (PushWake x) = 4" | "work (PushLock x) = 4"
| "work (PushTest x) = 3" | "work (PushBody x) = 2" | "work PushNotify = 1"
| "work PopWait = 5" | "work PopWake = 4" | "work PopLock = 4"
| "work PopTest = 3" | "work PopBody = 2" | "work PopNotify = 1"
| "work ShutLock = 4" | "work ShutSet = 3" | "work ShutNotifyFull = 2" | "work ShutNotifyEmpty = 1"

definition total_work :: "'a queue_threads \<Rightarrow> nat" where
  "total_work s = sum_list (map work (thr s))"

lemma total_work_goto:
  "at_pc s i p \<Longrightarrow> thr v = thr s \<Longrightarrow> total_work (goto i p' v) + work p = total_work s + work p'"
  using elem_le_sum_list [of i "map work (thr s)"]
  by (auto simp: total_work_def at_pc_def map_update sum_list_update)

lemma total_work_less:
  "at_pc s i p \<Longrightarrow> thr v = thr s \<Longrightarrow> work p' < work p \<Longrightarrow> total_work (goto i p' v) < total_work s"
  using total_work_goto [of s i p v p'] by simp

lemma total_work_wake:
  "total_work (s\<lparr>thr := map wake_push (thr s)\<rparr>) \<le> total_work s"
  "total_work (s\<lparr>thr := map wake_pop (thr s)\<rparr>) \<le> total_work s"
proof -
  have "work (wake_push p) \<le> work p" "work (wake_pop p) \<le> work p" for p :: "'a pc"
    by (cases p; simp)+
  then show "total_work (s\<lparr>thr := map wake_push (thr s)\<rparr>) \<le> total_work s"
    "total_work (s\<lparr>thr := map wake_pop (thr s)\<rparr>) \<le> total_work s"
    by (auto simp: total_work_def intro!: sum_list_mono)
qed

lemma total_work_bound: "total_work s \<le> 5 * length (thr s)"
proof -
  have "work p \<le> 5" for p :: "'a pc" by (cases p) auto
  then have "sum_list (map work ps) \<le> 5 * length ps" for ps :: "'a pc list"
    by (induction ps) (auto simp: add_mono)
  then show ?thesis by (simp add: total_work_def)
qed

lemma at_wake:
  "at_pc s i ShutNotifyFull \<Longrightarrow> at_pc (s\<lparr>thr := map wake_push (thr s)\<rparr>) i ShutNotifyFull"
  "at_pc s i ShutNotifyEmpty \<Longrightarrow> at_pc (s\<lparr>thr := map wake_pop (thr s)\<rparr>) i ShutNotifyEmpty"
  by (auto simp: at_pc_def)

lemma shutdown_work:
  "qstep i s t \<Longrightarrow> \<not> at_pc s i Idle \<Longrightarrow> is_shutdown (shared s) \<Longrightarrow> total_work t < total_work s"
proof (induction rule: qstep.induct)
  case (push_notify s i j)
  then have "at_pc (goto i Idle s) j PopWait" by (auto simp: at_pc_def nth_list_update)
  with push_notify.hyps(1) show ?case
    using total_work_goto [of s i PushNotify s Idle]
      total_work_goto [of "goto i Idle s" j PopWait "goto i Idle s" PopWake] by simp
next
  case (pop_notify s i j x)
  then have "at_pc (goto i Idle s) j (PushWait x)" by (auto simp: at_pc_def nth_list_update)
  with pop_notify.hyps(1) show ?case
    using total_work_goto [of s i PopNotify s Idle]
      total_work_goto [of "goto i Idle s" j "PushWait x" "goto i Idle s" "PushWake x"] by simp
next
  case (shut_notify_full s i)
  with total_work_goto [OF at_wake(1), OF this(1) refl, of ShutNotifyEmpty] total_work_wake(1) [of s]
  show ?case by simp
next
  case (shut_notify_empty s i)
  with total_work_goto [OF at_wake(2), OF this(1) refl, of Idle] total_work_wake(2) [of s]
  show ?case by simp
qed (auto simp: can_push_def can_pop_def intro: total_work_less)

lemma inner_steps_work:
  assumes "(inner_step ^^ k) s t" "is_shutdown (shared s)"
  shows "k + total_work t \<le> total_work s \<and> is_shutdown (shared t)"
  using assms
proof (induction k arbitrary: t)
  case 0
  then show ?case by simp
next
  case (Suc k)
  from Suc.prems(1) obtain u where "(inner_step ^^ k) s u" "inner_step u t" by auto
  then obtain i where u: "(inner_step ^^ k) s u" "qstep i u t" "\<not> at_pc u i Idle"
    by (auto simp: inner_step_def)
  with Suc have ih: "k + total_work u \<le> total_work s" "is_shutdown (shared u)" by auto
  moreover have "is_shutdown (shared t)"
    using u(2) ih(2) by (induction rule: qstep.induct) (auto dest: critical_cases)
  ultimately show ?case using shutdown_work [OF u(2,3)] by auto
qed

lemma qreach_inner_steps: "(inner_step ^^ k) s t \<Longrightarrow> qreach c n s \<Longrightarrow> qreach c n t"
proof (induction k arbitrary: t)
  case (Suc k)
  from Suc.prems(1) obtain u where "(inner_step ^^ k) s u" "inner_step u t" by auto
  with Suc.IH Suc.prems(2) have "qreach c n u" "inner_step u t" by blast+
  then show ?case by (auto simp: inner_step_def intro: qreach.step)
qed simp

lemma shutdown_progress:
  assumes "qreach c n s" "is_shutdown (shared s)" "i < n" "thr s ! i \<noteq> Idle"
  shows "\<exists>j p t. at_pc s j p \<and> busy p \<and> qstep j s t"
proof -
  have here: "at_pc s i (thr s ! i)" using assms(1,3) by (simp add: at_pc_def qreach_length)
  have "\<exists>j p. at_pc s j p \<and> busy p"
  proof (cases "busy (thr s ! i)")
    case True
    with here show ?thesis by blast
  next
    case False
    with assms(2,4) have "is_PushWait (thr s ! i) \<and> can_push (shared s) \<or>
        is_PopWait (thr s ! i) \<and> can_pop (shared s)"
      by (auto simp: busy_def can_push_def can_pop_def)
    then show ?thesis using parked_has_helper here qreach_wake assms(1) by blast
  qed
  then show ?thesis using qreach_progress [OF assms(1)] by blast
qed

section \<open>Properties\<close>

text \<open>
  The mutex of the queue is exclusive. In every state that any interleaving of any number of
  threads reaches, at most one thread is between acquiring and releasing the mutex.
\<close>

lemma queue_mutual_exclusion:
  assumes "qreach c n s"
  shows "tally holds_lock s \<le> 1 \<and> (owner s = None \<longrightarrow> tally holds_lock s = 0)"
proof -
  have "mutex_inv s" using qreach_safe [OF assms] by (simp add: safe_inv_def)
  then show ?thesis
    by (intro conjI impI count_if_le_one) (auto simp: mutex_inv_def count_if_zero)
qed

text \<open>
  C6: linearisability. Whatever the interleaving, the shared queue, the items accepted and the
  items handed out are those of the atomic operations executed one after the other in the order
  of their critical sections; so items leave in the order they came, none is lost or duplicated,
  and the queue never holds more than its capacity.
\<close>

theorem queue_linearizable:
  assumes "qreach c n s"
  shows "run_ops bq_iface (BoundedQueue_new c) (trace s) =
      \<lparr>final = shared s, accepted = took s, popped = gave s\<rparr> \<and>
    gave s @ queue (shared s) = took s \<and> length (queue (shared s)) \<le> c"
proof -
  from qreach_safe [OF assms] have run: "run_ops bq_iface (BoundedQueue_new c) (trace s) =
      \<lparr>final = shared s, accepted = took s, popped = gave s\<rparr>"
    by (simp add: safe_inv_def linear_inv_def)
  then show ?thesis
    using bq.fifo_conservation [of "BoundedQueue_new c" "trace s"]
      bq.run_bounded [of "BoundedQueue_new c" "trace s"] by simp
qed

text \<open>
  C7: no lost wakeup. Although \<^verbatim>\<open>push\<close> and \<^verbatim>\<open>pop\<close> notify only one thread and only after releasing the
  mutex, and although threads may wake spuriously, the queue never comes to rest with a thread
  parked whose wait predicate holds: some thread that is not parked can take a step.
\<close>

theorem queue_no_lost_wakeup:
  assumes "qreach c n s" "at_pc s i p"
    and "is_PushWait p \<and> can_push (shared s) \<or> is_PopWait p \<and> can_pop (shared s)"
  shows "\<exists>j p' t. at_pc s j p' \<and> busy p' \<and> qstep j s t"
proof -
  obtain k q where "at_pc s k q" "busy q"
    using parked_has_helper [OF qreach_wake [OF assms(1)] assms(2,3)] by blast
  then show ?thesis by (rule qreach_progress [OF assms(1)])
qed

text \<open>
  C25: \<^verbatim>\<open>shutdown\<close> releases everybody. Once the queue is shut down, the threads that are inside a call
  take at most five steps each, however they are scheduled and however often they wake spuriously; and at every
  moment either every call has returned or some thread that is not parked on a condition variable can
  step. So nobody waits for a spurious wakeup, and in every run that goes on as long as such a thread can step
  every call returns.
\<close>

theorem queue_shutdown_releases_all:
  assumes "qreach c n s" "is_shutdown (shared s)" "(inner_step ^^ k) s t"
  shows "k \<le> 5 * n \<and> ((\<exists>j p u. at_pc t j p \<and> busy p \<and> qstep j t u) \<or> (\<forall>i < n. thr t ! i = Idle))"
proof -
  have "k \<le> total_work s" "is_shutdown (shared t)" using inner_steps_work [OF assms(3,2)] by auto
  moreover have "total_work s \<le> 5 * n"
    using total_work_bound [of s] qreach_length [OF assms(1)] by simp
  ultimately show ?thesis
    using shutdown_progress qreach_inner_steps [OF assms(3,1)] by (meson le_trans)
qed

section \<open>Witnesses\<close>

text \<open>
  A run of two threads on a queue of capacity one: thread 0 parks in \<^verbatim>\<open>pop\<close>, thread 1 pushes the
  item 7 and releases the mutex, and has not notified yet. In the second run thread 1 shuts the
  queue down instead.
\<close>

definition example_state :: "nat queue_threads" where
  "example_state = \<lparr>shared = \<lparr>capacity = 1, queue = [7], high_water_mark = 1, is_shutdown = False\<rparr>,
     owner = None, thr = [PopWait, PushNotify], trace = [Push 7], took = [7], gave = []\<rparr>"

definition example_shutdown :: "nat queue_threads" where
  "example_shutdown = \<lparr>shared = \<lparr>capacity = 1, queue = [], high_water_mark = 0, is_shutdown = True\<rparr>,
     owner = None, thr = [PopWait, ShutNotifyFull], trace = [Shutdown], took = [], gave = []\<rparr>"

definition parked_state :: "nat queue_threads" where
  "parked_state = \<lparr>shared = BoundedQueue_new 1, owner = None, thr = [PopWait, Idle],
     trace = [], took = [], gave = []\<rparr>"

lemmas example_defs = at_pc_def goto_def threads_start_def parked_state_def BoundedQueue_new_def
  can_push_def can_pop_def push_critical_def shutdown_def

lemma parked_reachable: "qreach 1 2 parked_state"
proof -
  let ?s = "threads_start 1 2 :: nat queue_threads"
  let ?s1 = "goto 0 PopLock ?s"
  let ?s2 = "goto 0 PopTest (?s1\<lparr>owner := Some 0\<rparr>)"
  have "qreach 1 2 ?s1"
    by (rule qreach.step [OF qreach.start qstep.call_pop]) (simp add: example_defs)
  then have "qreach 1 2 ?s2"
    by (rule qreach.step [OF _ qstep.pop_lock]) (simp_all add: example_defs)
  then have "qreach 1 2 (goto 0 PopWait (?s2\<lparr>owner := None\<rparr>))"
    by (rule qreach.step [OF _ qstep.pop_park]) (simp_all add: example_defs)
  also have "goto 0 PopWait (?s2\<lparr>owner := None\<rparr>) = parked_state"
    by (simp add: example_defs numeral_2_eq_2)
  finally show ?thesis .
qed

lemma example_reachable: "qreach 1 2 example_state"
proof -
  let ?s1 = "goto 1 (PushLock 7) parked_state"
  let ?s2 = "goto 1 (PushTest 7) (?s1\<lparr>owner := Some 1\<rparr>)"
  let ?s3 = "goto 1 (PushBody 7) ?s2"
  have "qreach 1 2 ?s1"
    by (rule qreach.step [OF parked_reachable qstep.call_push]) (simp add: example_defs)
  then have "qreach 1 2 ?s2"
    by (rule qreach.step [OF _ qstep.push_lock]) (simp_all add: example_defs)
  then have "qreach 1 2 ?s3"
    by (rule qreach.step [OF _ qstep.push_go]) (simp_all add: example_defs)
  from qreach.step [OF this qstep.push_true [of _ 1 7 "snd (push_critical 7 (shared ?s3))"]]
  show ?thesis by (simp add: example_defs example_state_def)
qed

lemma example_shutdown_reachable: "qreach 1 2 example_shutdown"
proof -
  let ?s1 = "goto 1 ShutLock parked_state"
  let ?s2 = "goto 1 ShutSet (?s1\<lparr>owner := Some 1\<rparr>)"
  have "qreach 1 2 ?s1"
    by (rule qreach.step [OF parked_reachable qstep.call_shutdown]) (simp add: example_defs)
  then have "qreach 1 2 ?s2"
    by (rule qreach.step [OF _ qstep.shut_lock]) (simp_all add: example_defs)
  from qreach.step [OF this qstep.shut_set [of _ 1]]
  show ?thesis by (simp add: example_defs example_shutdown_def)
qed

lemma queue_mutual_exclusion_witness: "tally holds_lock example_state \<le> 1 \<and> owner example_state = None"
  using queue_mutual_exclusion [OF example_reachable] by (simp add: example_state_def)

theorem queue_linearizable_witness:
  "run_ops bq_iface (BoundedQueue_new 1) [Push 7] =
     \<lparr>final = shared example_state, accepted = [7], popped = []\<rparr>"
  using queue_linearizable [OF example_reachable] by (simp add: example_state_def)

theorem queue_no_lost_wakeup_witness: "\<exists>j p t. at_pc example_state j p \<and> busy p \<and> qstep j example_state t"
  by (rule queue_no_lost_wakeup [OF example_reachable, of 0 PopWait])
    (simp_all add: example_state_def at_pc_def can_pop_def)

theorem queue_shutdown_releases_all_witness:
  "is_shutdown (shared example_shutdown) \<and> (0::nat) \<le> 5 * 2 \<and>
    (\<exists>j p u. at_pc example_shutdown j p \<and> busy p \<and> qstep j example_shutdown u)"
proof -
  have sd: "is_shutdown (shared example_shutdown)" by (simp add: example_shutdown_def)
  have "(inner_step ^^ 0) example_shutdown example_shutdown" by simp
  moreover have "\<not> (\<forall>i < 2. thr example_shutdown ! i = Idle)" by (auto simp: example_shutdown_def intro!: exI [of _ 0])
  ultimately show ?thesis using queue_shutdown_releases_all [OF example_shutdown_reachable sd, of 0] sd by blast
qed

end
