(* ===== verification/Doubles.thy ===== *)
theory Doubles
  imports Prelude
begin

text \<open>
  The C++ type \<^verbatim>\<open>double\<close> as the sources use it: a binary64 bit pattern, its classification, the
  comparison with zero, the conversion from integers, and \<^verbatim>\<open>std::from_chars\<close> for floating point
  numbers in its general format (the standard library function the price parser calls). A
  magnitude is the 63 low bits of the pattern; rounding is to nearest, ties to even.
\<close>

section \<open>Bit patterns\<close>

type_synonym double = "64 word"

definition d_neg :: "double \<Rightarrow> bool" where
  "d_neg d \<longleftrightarrow> 2 ^ 63 \<le> unat d"

definition d_mag :: "double \<Rightarrow> nat" where
  "d_mag d = unat d mod 2 ^ 63"

definition inf_mag :: nat where
  "inf_mag = 2047 * 2 ^ 52"

definition d_finite :: "double \<Rightarrow> bool" where
  "d_finite d \<longleftrightarrow> d_mag d < inf_mag"

definition d_nan :: "double \<Rightarrow> bool" where
  "d_nan d \<longleftrightarrow> inf_mag < d_mag d"

definition mk_double :: "bool \<Rightarrow> nat \<Rightarrow> double" where
  "mk_double neg m = word_of_nat (m + (if neg then 2 ^ 63 else 0))"

text \<open>\<^verbatim>\<open>d <= 0.0\<close>: false for a NaN, true for both zeros.\<close>

definition d_le_zero :: "double \<Rightarrow> bool" where
  "d_le_zero d \<longleftrightarrow> \<not> d_nan d \<and> (d_neg d \<or> d_mag d = 0)"

section \<open>Rounding a quotient of natural numbers\<close>

fun bits :: "nat \<Rightarrow> nat" where
  "bits n = (if n = 0 then 0 else Suc (bits (n div 2)))"

declare bits.simps [simp del]

definition div_half_even :: "nat \<Rightarrow> nat \<Rightarrow> nat" where
  "div_half_even n m = (let q = n div m; r = n mod m
     in if 2 * r < m \<or> 2 * r = m \<and> even q then q else Suc q)"

text \<open>\<^verbatim>\<open>n / (m * 2 ^ e)\<close> as a pair of numerator and denominator.\<close>

definition scale :: "nat \<Rightarrow> nat \<Rightarrow> int \<Rightarrow> nat \<times> nat" where
  "scale n m e = (if 0 \<le> e then (n, m * 2 ^ nat e) else (n * 2 ^ nat (- e), m))"

text \<open>
  The exponent of the last place: the significand then has 53 bits, or fewer when the number is
  subnormal (exponent -1074).
\<close>

definition last_place :: "nat \<Rightarrow> nat \<Rightarrow> int" where
  "last_place n m =
     (let e = int (bits n) - int (bits m) - 53;
          (a, b) = scale n m e
      in max (if 2 ^ 53 \<le> a div b then e + 1 else e) (- 1074))"

text \<open>
  The magnitude nearest to \<^verbatim>\<open>n / m\<close>. With the significand \<^verbatim>\<open>s\<close> and the last place \<^verbatim>\<open>e\<close> it is
  \<^verbatim>\<open>(e + 1074) * 2^52 + s\<close>: the hidden bit and a carry out of the significand both land in the
  exponent field. Results from \<^const>\<open>inf_mag\<close> on stand for an overflow.
\<close>

definition round_mag :: "nat \<Rightarrow> nat \<Rightarrow> nat" where
  "round_mag n m =
     (if n = 0 then 0
      else let e = last_place n m; (a, b) = scale n m e
           in nat (e + 1074) * 2 ^ 52 + div_half_even a b)"

text \<open>Conversion of an integer of at most 64 bits, as \<^verbatim>\<open>static_cast<double>\<close> does it.\<close>

definition int_to_double :: "int \<Rightarrow> double" where
  "int_to_double i = mk_double (i < 0) (round_mag (nat \<bar>i\<bar>) 1)"

section \<open>\<^verbatim>\<open>std::from_chars\<close>\<close>

datatype from_chars_result =
    Invalid_argument
  | Result_out_of_range
  | Converted double string \<comment> \<open>the value and the unconsumed rest\<close>

definition is_digit :: "char \<Rightarrow> bool" where
  "is_digit c \<longleftrightarrow> 48 \<le> (of_char c :: nat) \<and> (of_char c :: nat) \<le> 57"

definition digit_val :: "char \<Rightarrow> nat" where
  "digit_val c = of_char c - 48"

definition digits_val :: "string \<Rightarrow> nat" where
  "digits_val s = foldl (\<lambda>n c. 10 * n + digit_val c) 0 s"

definition to_lower :: "char \<Rightarrow> char" where
  "to_lower c = (if 65 \<le> (of_char c :: nat) \<and> (of_char c :: nat) \<le> 90 then char_of (of_char c + 32 :: nat) else c)"

definition starts_ci :: "string \<Rightarrow> string \<Rightarrow> bool" where
  "starts_ci p s \<longleftrightarrow> map to_lower (take (length p) s) = p"

text \<open>The rest after one expected character.\<close>

definition strip :: "char \<Rightarrow> string \<Rightarrow> string option" where
  "strip c s = (case s of [] \<Rightarrow> None | a # t \<Rightarrow> if a = c then Some t else None)"

text \<open>The optional exponent: consumed only if at least one digit follows.\<close>

definition read_exponent :: "string \<Rightarrow> int \<times> string" where
  "read_exponent s =
     (case s of
        [] \<Rightarrow> (0, s)
      | c # t \<Rightarrow>
          if to_lower c \<noteq> CHR ''e'' then (0, s)
          else let (neg, u) = (case strip CHR ''-'' t of
                     Some v \<Rightarrow> (True, v)
                   | None \<Rightarrow> (case strip CHR ''+'' t of Some v \<Rightarrow> (False, v) | None \<Rightarrow> (False, t)));
                   ds = takeWhile is_digit u
               in if ds = [] then (0, s)
                  else (if neg then - int (digits_val ds) else int (digits_val ds), dropWhile is_digit u))"

definition decimal_mag :: "nat \<Rightarrow> int \<Rightarrow> nat" where
  "decimal_mag n e = (if 0 \<le> e then round_mag (n * 10 ^ nat e) 1 else round_mag n (10 ^ nat (- e)))"

definition is_alnum :: "char \<Rightarrow> bool" where
  "is_alnum c \<longleftrightarrow> is_digit c \<or> c = CHR ''_'' \<or> 97 \<le> (of_char (to_lower c) :: nat) \<and> (of_char (to_lower c) :: nat) \<le> 122"

definition skip_nan_payload :: "string \<Rightarrow> string" where
  "skip_nan_payload s =
     (case Option.bind (strip CHR ''('' s) (\<lambda>t. strip CHR '')'' (dropWhile is_alnum t)) of
        Some u \<Rightarrow> u
      | None \<Rightarrow> s)"

definition from_chars_decimal :: "bool \<Rightarrow> string \<Rightarrow> from_chars_result" where
  "from_chars_decimal neg s =
     (let ip = takeWhile is_digit s;
          s1 = dropWhile is_digit s;
          (fp, s2) = (case strip CHR ''.'' s1 of
             Some t \<Rightarrow> (takeWhile is_digit t, dropWhile is_digit t)
           | None \<Rightarrow> ([], s1))
      in if ip = [] \<and> fp = [] then Invalid_argument
         else let (ex, rest) = read_exponent s2;
                  n = digits_val (ip @ fp);
                  m = decimal_mag n (ex - int (length fp))
              in if inf_mag \<le> m \<or> (n \<noteq> 0 \<and> m = 0) then Result_out_of_range
                 else Converted (mk_double neg m) rest)"

definition from_chars :: "string \<Rightarrow> from_chars_result" where
  "from_chars s =
     (let (neg, t) = (case strip CHR ''-'' s of Some u \<Rightarrow> (True, u) | None \<Rightarrow> (False, s))
      in if starts_ci ''infinity'' t then Converted (mk_double neg inf_mag) (drop 8 t)
         else if starts_ci ''inf'' t then Converted (mk_double neg inf_mag) (drop 3 t)
         else if starts_ci ''nan'' t
              then Converted (mk_double neg (inf_mag + 2 ^ 51)) (skip_nan_payload (drop 3 t))
         else from_chars_decimal neg t)"

section \<open>Text after a number\<close>

text \<open>A character that cannot continue a run of digits.\<close>

definition number_ends :: "char \<Rightarrow> bool" where
  "number_ends c \<longleftrightarrow> \<not> is_digit c \<and> c \<noteq> CHR ''.'' \<and> to_lower c \<noteq> CHR ''e''"

lemma takeWhile_digits:
  "list_all is_digit ds \<Longrightarrow> \<not> is_digit c \<Longrightarrow>
     takeWhile is_digit (ds @ c # s) = ds \<and> dropWhile is_digit (ds @ c # s) = c # s"
  "list_all is_digit ds \<Longrightarrow> takeWhile is_digit ds = ds \<and> dropWhile is_digit ds = []"
  by (induction ds) auto

lemma from_chars_decimal_trailing:
  assumes "list_all is_digit ds" "number_ends c"
  shows "from_chars_decimal neg (ds @ c # junk) =
    (case from_chars_decimal neg ds of Converted p rest \<Rightarrow> Converted p (c # junk) | r \<Rightarrow> r)"
  using assms by (simp add: from_chars_decimal_def takeWhile_digits number_ends_def strip_def
      read_exponent_def Let_def)

lemma from_chars_digit:
  assumes "is_digit d"
  shows "from_chars (d # s) = from_chars_decimal False (d # s)"
proof -
  from assms have "d \<noteq> CHR ''-''" and d: "to_lower d = d" "d \<noteq> CHR ''i''" "d \<noteq> CHR ''n''"
    by (auto simp: is_digit_def to_lower_def)
  then show ?thesis by (simp add: from_chars_def strip_def starts_ci_def)
qed

lemma from_chars_trailing:
  assumes "list_all is_digit ds" "ds \<noteq> []" "number_ends c"
  shows "from_chars (ds @ c # junk) =
    (case from_chars ds of Converted p rest \<Rightarrow> Converted p (c # junk) | r \<Rightarrow> r)"
  using assms from_chars_decimal_trailing [OF assms(1,3)]
  by (cases ds) (auto simp: from_chars_digit)

section \<open>Not a number\<close>

lemma nan_is_nan: "d_nan (mk_double neg (inf_mag + 2 ^ 51))"
  by (cases neg) (simp_all add: d_nan_def mk_double_def d_mag_def inf_mag_def)

lemma nan_not_le_zero: "d_nan p \<Longrightarrow> \<not> d_le_zero p"
  by (simp add: d_le_zero_def)

lemma nan_not_finite: "d_nan p \<Longrightarrow> \<not> d_finite p"
  by (simp add: d_nan_def d_finite_def)

lemma from_chars_nan:
  assumes "starts_ci ''nan'' s"
  shows "\<exists>p rest. from_chars s = Converted p rest \<and> d_nan p"
proof -
  from assms obtain c u where s: "s = c # u" "to_lower c = CHR ''n''"
    by (cases s) (auto simp: starts_ci_def)
  then have "c \<noteq> CHR ''-''" by (auto simp: to_lower_def)
  with s have "strip CHR ''-'' s = None" "\<not> starts_ci ''infinity'' s" "\<not> starts_ci ''inf'' s"
    by (simp_all add: strip_def starts_ci_def)
  with assms nan_is_nan [of False] show ?thesis by (simp add: from_chars_def)
qed

end
