(* ===== verification/Json_Model.thy ===== *)
theory Json_Model
  imports Doubles
begin

text \<open>
  The JSON library (\<^verbatim>\<open>nlohmann::json\<close>) is not part of the repository. Its values are modelled by
  their documented kinds; its parser and its serialiser are parameters, and the locale
  \<^verbatim>\<open>json_codec\<close> states the documented behaviour the program relies on: \<^verbatim>\<open>dump()\<close> writes one line, and
  parsing it back gives the same value, except that a non-negative signed integer comes back
  unsigned and that a NaN or an infinity, which JSON cannot express, is written as null.
  \<^verbatim>\<open>dump()\<close> throws on strings that are not UTF-8; \<^verbatim>\<open>parse()\<close> throws \<^verbatim>\<open>parse_error\<close> on malformed text and
  \<^verbatim>\<open>out_of_range\<close> on a number too large for a double.
\<close>

section \<open>Values and access\<close>

datatype json =
    JNull
  | JBool bool
  | JInt i64       \<comment> \<open>\<^verbatim>\<open>number_integer\<close>\<close>
  | JUInt u64      \<comment> \<open>\<^verbatim>\<open>number_unsigned\<close>\<close>
  | JFloat double  \<comment> \<open>\<^verbatim>\<open>number_float\<close>\<close>
  | JString string
  | JArray "json list"
  | JObject "(string \<times> json) list"

datatype json_exn = Parse_error string | Out_of_range string | Type_error string

text \<open>\<^verbatim>\<open>contains(k)\<close> and \<^verbatim>\<open>at(k)\<close> together: the member, if the value is an object and has it.\<close>

definition member :: "string \<Rightarrow> json \<Rightarrow> json option" where
  "member k j = (case j of JObject kvs \<Rightarrow> map_of kvs k | _ \<Rightarrow> None)"

definition is_object :: "json \<Rightarrow> bool" where
  "is_object j = (case j of JObject kvs \<Rightarrow> True | _ \<Rightarrow> False)"

definition is_number :: "json \<Rightarrow> bool" where
  "is_number j = (case j of JInt w \<Rightarrow> True | JUInt w \<Rightarrow> True | JFloat d \<Rightarrow> True | _ \<Rightarrow> False)"

text \<open>
  \<^verbatim>\<open>get<std::int64_t>\<close> and \<^verbatim>\<open>get<std::uint64_t>\<close> of an integer: a \<^verbatim>\<open>static_cast\<close>, which keeps the bits.
  \<^verbatim>\<open>None\<close> when \<^verbatim>\<open>is_number_integer()\<close> is false.
\<close>

definition get_integer :: "json \<Rightarrow> 64 word option" where
  "get_integer j = (case j of JInt w \<Rightarrow> Some w | JUInt w \<Rightarrow> Some w | _ \<Rightarrow> None)"

definition get_string :: "json \<Rightarrow> string option" where
  "get_string j = (case j of JString s \<Rightarrow> Some s | _ \<Rightarrow> None)"

lemma get_string_simps [simp]: "get_string (JString s) = Some s" "get_string v = Some s \<longleftrightarrow> v = JString s"
  by (simp add: get_string_def, cases v) (auto simp: get_string_def)

definition get_double :: "json \<Rightarrow> double option" where
  "get_double j =
     (case j of
        JInt w \<Rightarrow> Some (int_to_double (sint w))
      | JUInt w \<Rightarrow> Some (int_to_double (uint w))
      | JFloat d \<Rightarrow> Some d
      | _ \<Rightarrow> None)"

text \<open>
  \<^verbatim>\<open>j[k] = v\<close>: an object keeps its members in a \<^verbatim>\<open>std::map\<close>, sorted by key, and assigning to a member of
  null makes an object of it. (On any other kind \<^verbatim>\<open>operator[]\<close> throws; the program never does that.)
\<close>

fun put_member :: "string \<Rightarrow> json \<Rightarrow> (string \<times> json) list \<Rightarrow> (string \<times> json) list" where
  "put_member k v [] = [(k, v)]"
| "put_member k v ((k', v') # kvs) =
     (if k < k' then (k, v) # (k', v') # kvs
      else if k = k' then (k, v) # kvs
      else (k', v') # put_member k v kvs)"

fun put :: "string \<Rightarrow> json \<Rightarrow> json \<Rightarrow> json" where
  "put k v (JObject kvs) = JObject (put_member k v kvs)"
| "put k v JNull = JObject [(k, v)]"
| "put k v j = j"

section \<open>The codec\<close>

text \<open>Well-formed UTF-8, by the table of byte sequences of the Unicode standard.\<close>

definition byte :: "char \<Rightarrow> nat" where
  "byte c = of_char c"

definition cont :: "char \<Rightarrow> bool" where
  "cont c \<longleftrightarrow> 128 \<le> byte c \<and> byte c \<le> 191"

fun utf8 :: "string \<Rightarrow> bool" where
  "utf8 [] = True"
| "utf8 (a # s) =
     (if byte a < 128 then utf8 s
      else case s of
        b # s1 \<Rightarrow>
          if 194 \<le> byte a \<and> byte a \<le> 223 then cont b \<and> utf8 s1
          else (case s1 of
            c # s2 \<Rightarrow>
              if 224 \<le> byte a \<and> byte a \<le> 239
              then (if byte a = 224 then 160 \<le> byte b \<and> byte b \<le> 191
                    else if byte a = 237 then 128 \<le> byte b \<and> byte b \<le> 159 else cont b)
                   \<and> cont c \<and> utf8 s2
              else (case s2 of
                d # s3 \<Rightarrow>
                  240 \<le> byte a \<and> byte a \<le> 244 \<and>
                  (if byte a = 240 then 144 \<le> byte b \<and> byte b \<le> 191
                   else if byte a = 244 then 128 \<le> byte b \<and> byte b \<le> 143 else cont b)
                  \<and> cont c \<and> cont d \<and> utf8 s3
              | [] \<Rightarrow> False)
          | [] \<Rightarrow> False)
      | [] \<Rightarrow> False)"

text \<open>Values whose strings are all UTF-8 and whose objects are sorted by key.\<close>

fun json_ok :: "json \<Rightarrow> bool" where
  "json_ok (JString s) = utf8 s"
| "json_ok (JArray js) = (\<forall>j \<in> set js. json_ok j)"
| "json_ok (JObject kvs) = (sorted_wrt (<) (map fst kvs) \<and> (\<forall>kv \<in> set kvs. utf8 (fst kv) \<and> json_ok (snd kv)))"
| "json_ok j = True"

text \<open>What a value becomes when it is written and read back.\<close>

fun reread :: "json \<Rightarrow> json" where
  "reread (JInt w) = (if 0 \<le> sint w then JUInt w else JInt w)"
| "reread (JFloat d) = (if d_finite d then JFloat d else JNull)"
| "reread (JArray js) = JArray (map reread js)"
| "reread (JObject kvs) = JObject (map (map_prod id reread) kvs)"
| "reread j = j"

type_synonym json_parser = "string \<Rightarrow> json_exn + json"
type_synonym json_dumper = "json \<Rightarrow> json_exn + string"

locale json_codec =
  fixes parse :: json_parser and dump :: json_dumper
  assumes dump_ok: "json_ok j \<Longrightarrow> \<exists>s. dump j = Inr s"
    and dump_line: "json_ok j \<Longrightarrow> dump j = Inr s \<Longrightarrow> s \<noteq> [] \<and> CHR 0x0A \<notin> set s"
    and parse_dump: "json_ok j \<Longrightarrow> dump j = Inr s \<Longrightarrow> parse s = Inr (reread j)"
    and parse_ok: "parse s = Inr j \<Longrightarrow> json_ok j"
begin

lemma dumpE:
  assumes "json_ok j"
  obtains s where "dump j = Inr s" "s \<noteq> []" "CHR 0x0A \<notin> set s" "parse s = Inr (reread j)"
  using assms dump_ok dump_line parse_dump by blast

lemma parsed_string:
  assumes "parse s = Inr j" "member k j = Some (JString v)"
  shows "utf8 v"
  using parse_ok [OF assms(1)] assms(2)
  by (cases j) (auto simp: member_def dest!: map_of_SomeD)

end

end
