(* ===== verification/Market_Event.thy ===== *)
theory Market_Event
  imports Json_Model
begin

text \<open>
  The normalised event (\<^verbatim>\<open>include/tickforge/market_event.hpp\<close>) and its capture format
  (\<^verbatim>\<open>src/market_event_json.cpp\<close>): the record, the conversions of its time stamp, and the two
  translations between events and JSON values.
\<close>

section \<open>Events and time stamps\<close>

text \<open>
  A time point of \<^verbatim>\<open>system_clock\<close> or \<^verbatim>\<open>steady_clock\<close> is a signed 64-bit count of nanoseconds (the
  representation of libstdc++, against which the project builds).
\<close>

record MarketEvent =
  symbol :: string
  price :: double
  event_time :: i64
  provider_sequence :: "u64 option"
  ingest_time :: i64
  source :: string

definition MarketEvent_default :: MarketEvent where
  "MarketEvent_default = \<lparr>symbol = [], price = 0, event_time = 0, provider_sequence = None,
     ingest_time = 0, source = []\<rparr>"

text \<open>
  \<^verbatim>\<open>time_point{milliseconds{n}}\<close> multiplies by a million in 64 bits. The standard leaves the overflow
  of that multiplication undefined; the model takes the two's complement result, and the results
  about times assume a time stamp in range (\<^verbatim>\<open>time_in_range\<close>, until the year 2262).
\<close>

definition ms_to_time :: "i64 \<Rightarrow> i64" where
  "ms_to_time n = n * 1000000"

text \<open>\<^verbatim>\<open>duration_cast<milliseconds>\<close>: division that truncates towards zero.\<close>

definition time_to_ms :: "i64 \<Rightarrow> i64" where
  "time_to_ms t = word_of_int (sint t sdiv 1000000)"

definition time_in_range :: "i64 \<Rightarrow> bool" where
  "time_in_range n \<longleftrightarrow> \<bar>sint n\<bar> \<le> 9223372036854"

section \<open>The capture format\<close>

definition marketEventToJson :: "MarketEvent \<Rightarrow> json" where
  "marketEventToJson e =
     (let j = JNull;
          j = put ''symbol'' (JString (symbol e)) j;
          j = put ''price'' (JFloat (price e)) j;
          j = put ''event_time_ms'' (JInt (time_to_ms (event_time e))) j;
          j = (case provider_sequence e of
                 Some n \<Rightarrow> put ''provider_sequence'' (JUInt n) j
               | None \<Rightarrow> j)
      in put ''source'' (JString (source e)) j)"

text \<open>
  \<^verbatim>\<open>error_out\<close> is a pointer that may be null (\<^const>\<open>None\<close>); \<^verbatim>\<open>fail\<close> overwrites the string behind it. The
  functions that use it return the event, if any, and the string behind the pointer afterwards.
\<close>

definition fail :: "string option \<Rightarrow> string \<Rightarrow> MarketEvent option \<times> string option" where
  "fail error_out msg = (None, (case error_out of None \<Rightarrow> None | Some old \<Rightarrow> Some msg))"

definition marketEventFromJson :: "json \<Rightarrow> string option \<Rightarrow> MarketEvent option \<times> string option" where
  "marketEventFromJson j error_out =
     (if \<not> is_object j then fail error_out ''not a JSON object''
      else case Option.bind (member ''symbol'' j) get_string of
        None \<Rightarrow> fail error_out ''missing or empty \"symbol\"''
      | Some sm \<Rightarrow>
      if sm = [] then fail error_out ''missing or empty \"symbol\"''
      else case Option.bind (member ''price'' j) get_double of
        None \<Rightarrow> fail error_out ''missing or non-numeric \"price\"''
      | Some p \<Rightarrow>
      case Option.bind (member ''event_time_ms'' j) get_integer of
        None \<Rightarrow> fail error_out ''missing or non-integer \"event_time_ms\"''
      | Some t \<Rightarrow>
      let e = MarketEvent_default\<lparr>symbol := sm, price := p, event_time := ms_to_time t\<rparr>;
          e = (case Option.bind (member ''provider_sequence'' j) get_integer of
                 Some n \<Rightarrow> e\<lparr>provider_sequence := Some n\<rparr>
               | None \<Rightarrow> e);
          e = (case Option.bind (member ''source'' j) get_string of
                 Some s \<Rightarrow> e\<lparr>source := s\<rparr>
               | None \<Rightarrow> e)
      in (Some e, error_out))"

section \<open>Time stamps\<close>

lemma sint_small: "- (2 ^ 63) \<le> k \<Longrightarrow> k < 2 ^ 63 \<Longrightarrow> sint (word_of_int k :: 64 word) = k"
  by (simp add: sint_sbintrunc' signed_take_bit_int_eq_self)

lemma sint_bounds: "- (2 ^ 63) \<le> sint (w :: 64 word)" "sint (w :: 64 word) < 2 ^ 63"
  using sint_range_size [of w] by (simp_all add: word_size)

lemma sdiv_million:
  fixes k :: int
  shows "\<bar>k sdiv 1000000 * 1000000\<bar> \<le> \<bar>k\<bar>" and "\<bar>k - k sdiv 1000000 * 1000000\<bar> < 1000000"
    and "\<bar>k sdiv 1000000\<bar> \<le> \<bar>k\<bar>"
  by (auto simp: signed_divide_int_def sgn_if)

lemma sint_ms_to_time: "time_in_range n \<Longrightarrow> sint (ms_to_time n) = sint n * 1000000"
  unfolding time_in_range_def ms_to_time_def
  using sint_small [of "sint n * 1000000"] by (simp add: abs_le_iff)

lemma sint_time_to_ms: "sint (time_to_ms t) = sint t sdiv 1000000"
  unfolding time_to_ms_def using sdiv_million(3) [of "sint t"] sdiv_million(1) [of "sint t"] sint_bounds [of t]
  by (intro sint_small) auto

lemma time_to_ms_in_range: "time_in_range (time_to_ms t)"
  using sdiv_million(1) [of "sint t"] sint_bounds [of t]
  by (auto simp: time_in_range_def sint_time_to_ms)

lemma time_to_ms_to_time: "time_in_range n \<Longrightarrow> time_to_ms (ms_to_time n) = n"
proof -
  assume "time_in_range n"
  then have "sint (time_to_ms (ms_to_time n)) = sint n"
    by (simp add: sint_time_to_ms sint_ms_to_time signed_divide_int_def sgn_if abs_mult)
  then show ?thesis by (rule signed_word_eqI)
qed

section \<open>Writing and reading an event\<close>

lemma marketEventToJson_members:
  "marketEventToJson e = JObject
     ([(''event_time_ms'', JInt (time_to_ms (event_time e))), (''price'', JFloat (price e))] @
      (case provider_sequence e of None \<Rightarrow> [] | Some n \<Rightarrow> [(''provider_sequence'', JUInt n)]) @
      [(''source'', JString (source e)), (''symbol'', JString (symbol e))])"
  by (simp add: marketEventToJson_def Let_def split: option.split)

lemma json_ok_event: "json_ok (marketEventToJson e) \<longleftrightarrow> utf8 (symbol e) \<and> utf8 (source e)"
  by (auto simp: marketEventToJson_members byte_def split: option.split)

text \<open>
  What survives a round trip through the capture format: everything but the process-local
  receive time and the part of the time stamp below a millisecond.
\<close>

definition captured :: "MarketEvent \<Rightarrow> MarketEvent" where
  "captured e = e\<lparr>event_time := ms_to_time (time_to_ms (event_time e)), ingest_time := 0\<rparr>"

lemma get_integer_reread [simp]: "get_integer (reread j) = get_integer j"
  by (cases j) (auto simp: get_integer_def)

lemma fromJson_toJson:
  "marketEventFromJson (reread (marketEventToJson e)) error_out =
     (if symbol e = [] then fail error_out ''missing or empty \"symbol\"''
      else if \<not> d_finite (price e) then fail error_out ''missing or non-numeric \"price\"''
      else (Some (captured e), error_out))"
  by (cases "provider_sequence e")
    (auto simp: marketEventFromJson_def marketEventToJson_members is_object_def member_def get_string_def
      get_double_def get_integer_def captured_def MarketEvent_default_def Let_def)

lemma captured_simps [simp]:
  "symbol (captured e) = symbol e" "price (captured e) = price e" "source (captured e) = source e"
  "provider_sequence (captured e) = provider_sequence e" "ingest_time (captured e) = 0"
  "event_time (captured e) = ms_to_time (time_to_ms (event_time e))"
  by (simp_all add: captured_def)

lemma captured_idem [simp]: "captured (captured e) = captured e"
  by (simp add: captured_def time_to_ms_to_time time_to_ms_in_range)

lemma captured_time: "\<bar>sint (event_time e) - sint (event_time (captured e))\<bar> < 1000000"
  using sdiv_million(2) [of "sint (event_time e)"]
  by (simp add: sint_ms_to_time time_to_ms_in_range sint_time_to_ms)

lemma captured_exact: "event_time e = ms_to_time n \<Longrightarrow> time_in_range n \<Longrightarrow> captured e = e\<lparr>ingest_time := 0\<rparr>"
  by (simp add: captured_def time_to_ms_to_time)

lemma fromJson_cases:
  "marketEventFromJson j error_out = (Some e, err) \<longleftrightarrow>
     is_object j \<and> err = error_out \<and>
     (\<exists>t. Option.bind (member ''symbol'' j) get_string = Some (symbol e) \<and> symbol e \<noteq> [] \<and>
        Option.bind (member ''price'' j) get_double = Some (price e) \<and>
        Option.bind (member ''event_time_ms'' j) get_integer = Some t \<and> event_time e = ms_to_time t) \<and>
     provider_sequence e = Option.bind (member ''provider_sequence'' j) get_integer \<and>
     ingest_time e = 0 \<and>
     source e = (case Option.bind (member ''source'' j) get_string of None \<Rightarrow> [] | Some s \<Rightarrow> s)"
  by (auto simp: marketEventFromJson_def fail_def MarketEvent_default_def Let_def
      split: option.splits if_splits)

section \<open>Properties\<close>

text \<open>
  C15: an event written to the capture format and read back is the same event, for every event with
  a symbol and a finite price: symbol, price, sequence number and source are unchanged, the time
  stamp loses less than a millisecond and nothing at all when it is a whole number of milliseconds
  in range, and the process-local receive time is not carried over.
\<close>

theorem capture_roundtrip:
  assumes "symbol e \<noteq> []" "d_finite (price e)"
  shows "\<exists>e'. marketEventFromJson (reread (marketEventToJson e)) error_out = (Some e', error_out) \<and>
    symbol e' = symbol e \<and> price e' = price e \<and> provider_sequence e' = provider_sequence e \<and>
    source e' = source e \<and> ingest_time e' = 0 \<and>
    \<bar>sint (event_time e) - sint (event_time e')\<bar> < 1000000 \<and>
    (\<forall>n. event_time e = ms_to_time n \<and> time_in_range n \<longrightarrow> event_time e' = event_time e)"
  using assms captured_time [of e] captured_exact [of e]
  by (intro exI [of _ "captured e"]) (auto simp: fromJson_toJson time_to_ms_to_time)

definition sample_event :: MarketEvent where
  "sample_event = \<lparr>symbol = ''BTCUSDT'', price = 4679225732930679603,
     event_time = ms_to_time 1735500000119, provider_sequence = Some 98765432, ingest_time = 17,
     source = ''live:binance''\<rparr>"

theorem capture_roundtrip_witness:
  "\<exists>e'. marketEventFromJson (reread (marketEventToJson sample_event)) None = (Some e', None) \<and>
    symbol e' = ''BTCUSDT'' \<and> provider_sequence e' = Some 98765432 \<and> event_time e' = ms_to_time 1735500000119"
proof -
  have "symbol sample_event \<noteq> []" "d_finite (price sample_event)" by code_simp+
  moreover have "time_in_range 1735500000119" by code_simp
  ultimately show ?thesis
    using capture_roundtrip [of sample_event None] by (auto simp: sample_event_def)
qed

text \<open>
  Which JSON values are accepted as events, and what becomes of each field. A value is accepted
  exactly if it is an object with a non-empty string symbol, a numeric price and an integer time
  stamp; an absent or mistyped sequence number or source is not an error; on success the error
  string is left alone.
\<close>

lemma capture_validation:
  "(\<exists>e err. marketEventFromJson j error_out = (Some e, err)) \<longleftrightarrow>
     is_object j \<and> (\<exists>s. member ''symbol'' j = Some (JString s) \<and> s \<noteq> []) \<and>
     (\<exists>p. member ''price'' j = Some p \<and> is_number p) \<and>
     (\<exists>t. member ''event_time_ms'' j = Some t \<and> get_integer t \<noteq> None)"
proof -
  have num: "get_double p = None \<longleftrightarrow> \<not> is_number p" for p
    by (cases p) (auto simp: get_double_def is_number_def)
  have "(\<exists>e err. marketEventFromJson j error_out = (Some e, err)) \<longleftrightarrow>
     is_object j \<and> (\<exists>s. Option.bind (member ''symbol'' j) get_string = Some s \<and> s \<noteq> []) \<and>
     Option.bind (member ''price'' j) get_double \<noteq> None \<and>
     Option.bind (member ''event_time_ms'' j) get_integer \<noteq> None"
    by (auto simp: marketEventFromJson_def fail_def Let_def split: option.splits)
  then show ?thesis by (auto simp: bind_eq_None_conv bind_eq_Some_conv num)
qed

text \<open>
  An event whose price is a NaN or an infinity cannot be read back: it is written as null, and
  the reader rejects the line because the price is not a number.
\<close>

lemma capture_loses_non_finite_price:
  assumes "symbol e \<noteq> []" "\<not> d_finite (price e)"
  shows "marketEventFromJson (reread (marketEventToJson e)) (Some old) =
    (None, Some ''missing or non-numeric \"price\"'')"
  using assms by (simp add: fromJson_toJson fail_def)

lemma capture_loses_non_finite_price_witness:
  "marketEventFromJson (reread (marketEventToJson (sample_event\<lparr>price := mk_double False inf_mag\<rparr>))) (Some []) =
    (None, Some ''missing or non-numeric \"price\"'')"
  by (rule capture_loses_non_finite_price) (simp add: sample_event_def, code_simp)

text \<open>
  The reader of the capture format does not hold the price to the rule of the live path: a
  captured line with a negative or a zero price is accepted.
\<close>

lemma capture_accepts_non_positive_price:
  assumes "symbol e \<noteq> []" "d_finite (price e)" "d_le_zero (price e)"
  shows "\<exists>e'. marketEventFromJson (reread (marketEventToJson e)) error_out = (Some e', error_out) \<and>
    d_le_zero (price e')"
  using assms by (auto simp: fromJson_toJson)

lemma capture_accepts_non_positive_price_witness:
  "\<exists>e'. marketEventFromJson (reread (marketEventToJson (sample_event\<lparr>price := 0\<rparr>))) None = (Some e', None) \<and>
    d_le_zero (price e')"
  by (rule capture_accepts_non_positive_price) (simp add: sample_event_def, code_simp+)

end
