(* ===== verification/Interfaces.thy ===== *)
theory Interfaces
  imports Market_Event
begin

text \<open>
  The two interfaces of the pipeline, \<^verbatim>\<open>MarketDataSource\<close> (\<^verbatim>\<open>include/tickforge/market_data_source.hpp\<close>)
  and \<^verbatim>\<open>EventPublisher\<close> (\<^verbatim>\<open>include/tickforge/event_publisher.hpp\<close>), as records of operations and as
  contracts. Every implementation of \<^verbatim>\<open>next()\<close> is a loop in which another thread may call \<^verbatim>\<open>stop()\<close> at
  any moment, so an implementation provides one pass through its loop, and \<^verbatim>\<open>next_loop\<close> puts the
  passes and the calls of \<^verbatim>\<open>stop()\<close> together. What the outside world contributes to a pass (a clock
  reading, a received message) is its input.
\<close>

section \<open>Exceptions and outcomes\<close>

datatype cpp_exn =
    Runtime_error string
  | Json_exn json_exn
  | Std_exn string \<comment> \<open>an exception of the standard library, by name\<close>

text \<open>One pass through the loop of \<^verbatim>\<open>next()\<close>: it returns true, returns false, goes round again or throws.\<close>

datatype next_result = Event MarketEvent | Finished | Again | Raised cpp_exn

record ('i, 's) source_iface =
  src_start :: "'s \<Rightarrow> 's \<times> cpp_exn option"
  src_stop :: "'s \<Rightarrow> 's"
  src_step :: "'i \<Rightarrow> 's \<Rightarrow> 's \<times> next_result"

record ('j, 'p) publisher_iface =
  pub_publish :: "'j \<Rightarrow> MarketEvent \<Rightarrow> 'p \<Rightarrow> 'p \<times> (cpp_exn + bool)"
  pub_flush :: "'j \<Rightarrow> 'p \<Rightarrow> 'p"

datatype 'i tick = Input 'i | Stop_call

text \<open>A call of \<^verbatim>\<open>next()\<close>: \<^const>\<open>None\<close> when it has not returned after the given passes.\<close>

fun next_loop :: "('i, 's) source_iface \<Rightarrow> 'i tick list \<Rightarrow> 's \<Rightarrow> ('s \<times> next_result \<times> 'i tick list) option" where
  "next_loop S [] s = None"
| "next_loop S (Stop_call # ts) s = next_loop S ts (src_stop S s)"
| "next_loop S (Input i # ts) s =
     (case src_step S i s of
        (s', Again) \<Rightarrow> next_loop S ts s'
      | (s', r) \<Rightarrow> Some (s', r, ts))"

text \<open>
  The loop \<^verbatim>\<open>while (source->next(event))\<close>: the events it received, the source it leaves, and the
  outcome that ended it (\<^const>\<open>None\<close> while it is still running).
\<close>

fun read_loop :: "('i, 's) source_iface \<Rightarrow> 'i tick list \<Rightarrow> 's \<Rightarrow> MarketEvent list \<times> 's \<times> next_result option" where
  "read_loop S [] s = ([], s, None)"
| "read_loop S (Stop_call # ts) s = read_loop S ts (src_stop S s)"
| "read_loop S (Input i # ts) s =
     (case src_step S i s of
        (s', Again) \<Rightarrow> read_loop S ts s'
      | (s', Event e) \<Rightarrow> apfst ((#) e) (read_loop S ts s')
      | (s', r) \<Rightarrow> ([], s', Some r))"

section \<open>The contract of a source\<close>

text \<open>
  The laws: \<^verbatim>\<open>stop()\<close> is remembered; once it has been called, at most \<^verbatim>\<open>rank\<close> further passes are made
  before \<^verbatim>\<open>next()\<close> returns false (or throws); and false means that no more events will ever come.
\<close>

locale market_data_source =
  fixes S :: "('i, 's) source_iface"
    and inv :: "'s \<Rightarrow> bool"
    and stop_req :: "'s \<Rightarrow> bool"
    and rank :: "'s \<Rightarrow> nat"
  assumes start_inv: "inv s \<Longrightarrow> inv (fst (src_start S s))"
    and stop_inv: "inv s \<Longrightarrow> inv (src_stop S s)"
    and stop_sets: "stop_req (src_stop S s)"
    and stop_rank: "inv s \<Longrightarrow> stop_req s \<Longrightarrow> rank (src_stop S s) \<le> rank s"
    and step_inv: "inv s \<Longrightarrow> src_step S i s = (s', r) \<Longrightarrow> inv s'"
    and step_stop: "inv s \<Longrightarrow> src_step S i s = (s', r) \<Longrightarrow> stop_req s \<Longrightarrow> stop_req s'"
    and stop_ends: "inv s \<Longrightarrow> stop_req s \<Longrightarrow> src_step S i s = (s', r) \<Longrightarrow>
      r = Finished \<or> (\<exists>e. r = Raised e) \<or> rank s' < rank s"
    and finished_final: "inv s \<Longrightarrow> src_step S i s = (s', Finished) \<Longrightarrow> snd (src_step S j s') = Finished"
begin

text \<open>After \<^verbatim>\<open>stop()\<close>, a call of \<^verbatim>\<open>next()\<close> returns.\<close>

lemma next_returns_after_stop:
  "\<lbrakk>inv s; stop_req s; rank s < length ts; Stop_call \<notin> set ts\<rbrakk> \<Longrightarrow> next_loop S ts s \<noteq> None"
proof (induction ts arbitrary: s)
  case Nil
  then show ?case by simp
next
  case (Cons t ts)
  then obtain i where t: "t = Input i" by (cases t) auto
  obtain s' r where step: "src_step S i s = (s', r)" by fastforce
  show ?case
  proof (cases "r = Again")
    case True
    with stop_ends [OF Cons.prems(1,2) step] have "rank s' < rank s" by simp
    with Cons.prems step_inv [OF Cons.prems(1) step] step_stop [OF Cons.prems(1) step]
    have "next_loop S ts s' \<noteq> None" by (intro Cons.IH) auto
    with t step True show ?thesis by simp
  next
    case False
    with t step show ?thesis by (simp split: next_result.split)
  qed
qed

text \<open>After \<^verbatim>\<open>stop()\<close>, the whole reading loop ends, after at most \<^verbatim>\<open>rank\<close> more events.\<close>

lemma read_loop_ends_after_stop:
  "\<lbrakk>inv s; stop_req s; rank s < length ts; Stop_call \<notin> set ts; read_loop S ts s = (es, s', end)\<rbrakk> \<Longrightarrow>
     length es \<le> rank s \<and> (end = Some Finished \<or> (\<exists>x. end = Some (Raised x)))"
proof (induction ts arbitrary: s es s' "end")
  case Nil
  then show ?case by simp
next
  case (Cons t ts)
  then obtain i where t: "t = Input i" by (cases t) auto
  obtain s1 r where step: "src_step S i s = (s1, r)" by fastforce
  note inv1 = step_inv [OF Cons.prems(1) step] and stop1 = step_stop [OF Cons.prems(1) step Cons.prems(2)]
  obtain es1 s2 end1 where rec: "read_loop S ts s1 = (es1, s2, end1)" by (metis prod_cases3)
  have IH: "rank s1 < rank s \<Longrightarrow> length es1 \<le> rank s1 \<and> (end1 = Some Finished \<or> (\<exists>x. end1 = Some (Raised x)))"
    using Cons.IH [OF inv1 stop1 _ _ rec] Cons.prems by auto
  show ?case
    using stop_ends [OF Cons.prems(1,2) step] Cons.prems(5) t step rec IH
    by (cases r) auto
qed

end

text \<open>
  A source that runs out by itself: \<^verbatim>\<open>left\<close> bounds the passes it still makes, whether it is stopped or
  not. Such a source keeps the contract with the end in sight from the beginning.
\<close>

locale finite_source =
  fixes S :: "('i, 's) source_iface"
    and inv :: "'s \<Rightarrow> bool"
    and left :: "'s \<Rightarrow> nat"
  assumes fin_start_inv: "inv s \<Longrightarrow> inv (fst (src_start S s))"
    and fin_stop_inv: "inv s \<Longrightarrow> inv (src_stop S s)"
    and fin_stop_left: "inv s \<Longrightarrow> left (src_stop S s) \<le> left s"
    and fin_step_inv: "inv s \<Longrightarrow> src_step S i s = (s', r) \<Longrightarrow> inv s'"
    and fin_step_left: "inv s \<Longrightarrow> src_step S i s = (s', r) \<Longrightarrow>
      r = Finished \<or> (\<exists>e. r = Raised e) \<or> left s' < left s"
    and fin_final: "inv s \<Longrightarrow> src_step S i s = (s', Finished) \<Longrightarrow> snd (src_step S j s') = Finished"

sublocale finite_source \<subseteq> natural: market_data_source S inv "\<lambda>_. True" left
  using fin_start_inv fin_stop_inv fin_stop_left fin_step_inv fin_step_left fin_final
  by unfold_locales auto

section \<open>The contract of a publisher\<close>

text \<open>
  A publisher accepts the event (true) or refuses it at once (false); \<^verbatim>\<open>sent\<close> is what it has accepted
  so far, in order, as the messages \<^verbatim>\<open>enc\<close> it makes of the events. Flushing changes nothing of it.
\<close>

locale event_publisher =
  fixes P :: "('j, 'p) publisher_iface"
    and pinv :: "'p \<Rightarrow> bool"
    and sent :: "'p \<Rightarrow> 'm list"
    and enc :: "MarketEvent \<Rightarrow> 'm"
  assumes publish_inv: "pinv p \<Longrightarrow> pub_publish P j e p = (p', r) \<Longrightarrow> pinv p'"
    and publish_log: "pinv p \<Longrightarrow> pub_publish P j e p = (p', r) \<Longrightarrow>
      sent p' = sent p @ (if r = Inr True then [enc e] else [])"
    and flush_inv: "pinv p \<Longrightarrow> pinv (pub_flush P j p)"
    and flush_log: "pinv p \<Longrightarrow> sent (pub_flush P j p) = sent p"

end
