(* ===== verification/Json_Text.thy ===== *)
theory Json_Text
  imports Json_Model Complex_Main
begin

text \<open>
  A reference implementation of the JSON text format (RFC 8259) that satisfies the contract
  \<^const>\<open>json_codec\<close>: a printer and a recursive descent parser on byte strings. It stands in for the
  JSON library wherever a concrete codec is needed, so that results that assume the contract can be
  applied to concrete messages. It is not a model of the library: only the contract is.
\<close>

section \<open>Exact decimal notation\<close>

lemma bits_pos [simp]: "0 < n \<Longrightarrow> 0 < bits n"
  by (subst bits.simps) simp

lemma bits_bound: "n < 2 ^ bits n" "0 < n \<Longrightarrow> 2 ^ (bits n - 1) \<le> n"
proof (induction n rule: bits.induct)
  case (1 n)
  { case 1
    show ?case
    proof (cases "n = 0")
      case False
      with "1.IH"(1) have "n div 2 < 2 ^ bits (n div 2)" by blast
      then show ?thesis using False by (subst bits.simps) (simp; arith)
    qed simp
  next
    case 2
    show ?case
    proof (cases "n = 1")
      case True
      then show ?thesis by (subst bits.simps) (simp add: bits.simps)
    next
      case False
      with 2 have "2 ^ (bits (n div 2) - 1) \<le> n div 2" using "1.IH"(2) by simp
      moreover have "0 < bits (n div 2)" using 2 False by simp
      then have "(2::nat) ^ bits (n div 2) = 2 * 2 ^ (bits (n div 2) - 1)"
        by (metis Suc_diff_1 power_Suc)
      ultimately show ?thesis using 2 by (subst bits.simps) (simp; arith)
    qed
  }
qed

definition quotient_is :: "nat \<Rightarrow> nat \<Rightarrow> nat \<Rightarrow> int \<Rightarrow> bool" where
  "quotient_is n m s e \<longleftrightarrow> 0 < m \<and> real n / real m = real s * 2 powi e"

lemma scale_quotient:
  assumes "0 < m" "scale n m e = (a, b)"
  shows "0 < b" "real a / real b = real n / real m * 2 powi (- e)"
  using assms
  by (auto simp: scale_def power_int_def field_simps split: if_splits)

lemma div_half_even_exact: "0 < b \<Longrightarrow> real a / real b = real s \<Longrightarrow> div_half_even a b = s"
proof -
  assume "0 < b" "real a / real b = real s"
  then have "real a = real (s * b)" by (simp add: field_simps)
  then have "a = s * b" by (simp only: of_nat_eq_iff)
  with \<open>0 < b\<close> show ?thesis by (simp add: div_half_even_def)
qed

lemma quotient_bits:
  assumes "0 < n" "0 < m"
  shows "real n / real m < 2 powi (int (bits n) - int (bits m) + 1)"
    and "2 powi (int (bits n) - int (bits m) - 1) < real n / real m"
proof -
  have n: "real n < 2 powi int (bits n)" "2 powi (int (bits n) - 1) \<le> real n"
    using bits_bound(1) [of n] bits_bound(2) [OF assms(1)] bits_pos [OF assms(1)]
    by (auto simp: power_int_def nat_diff_distrib simp flip: of_nat_power)
  have m: "real m < 2 powi int (bits m)" "2 powi (int (bits m) - 1) \<le> real m"
    using bits_bound(1) [of m] bits_bound(2) [OF assms(2)] bits_pos [OF assms(2)]
    by (auto simp: power_int_def nat_diff_distrib simp flip: of_nat_power)
  have "real n / real m < 2 powi int (bits n) / 2 powi (int (bits m) - 1)"
    using n m assms by (intro frac_less) auto
  also have "\<dots> = 2 powi (int (bits n) - int (bits m) + 1)"
    using power_int_diff [of "2::real" "int (bits n)" "int (bits m) - 1"] by (simp add: algebra_simps)
  finally show "real n / real m < 2 powi (int (bits n) - int (bits m) + 1)" .
  have "2 powi (int (bits n) - int (bits m) - 1) = 2 powi (int (bits n) - 1) / (2 powi int (bits m) :: real)"
    using power_int_diff [of "2::real" "int (bits n) - 1" "int (bits m)"] by (simp add: algebra_simps)
  also have "\<dots> < real n / real m"
    using n m assms by (intro frac_less2) auto
  finally show "2 powi (int (bits n) - int (bits m) - 1) < real n / real m" .
qed

lemma two_powi_less: "(2::real) powi x < 2 powi y \<longleftrightarrow> x < y"
  using power_int_strict_increasing [of x y "2::real"] power_int_increasing [of y x "2::real"] by force

lemma less_two_powi: "(x::real) < 2 powi k \<Longrightarrow> x * 2 powi e < 2 powi (k + e)"
  by (simp add: power_int_add)

lemma two_powi_le: "2 powi k \<le> (x::real) \<Longrightarrow> 2 powi (k + e) \<le> x * 2 powi e"
  by (simp add: power_int_add)

text \<open>The rounding is exact on every number a double can hold.\<close>

lemma last_place_exact:
  assumes q: "quotient_is n m s e" and s: "s < 2 ^ 53" "2 ^ 52 \<le> s \<or> e = - 1074" "- 1074 \<le> e" "0 < n"
  shows "last_place n m = e"
proof -
  define f where "f = int (bits n) - int (bits m) - 53"
  obtain a b where ab: "scale n m f = (a, b)" by fastforce
  from q have m: "0 < m" and v: "real n / real m = real s * 2 powi e" by (auto simp: quotient_is_def)
  note b = scale_quotient(1) [OF m ab] and r = scale_quotient(2) [OF m ab]
  have r': "real a / real b = real s * 2 powi (e - f)"
    using r v by (simp add: power_int_add [symmetric])
  have s0: "0 < s" using v s(4) m by (cases s) (auto simp: field_simps)
  have big: "2 ^ 53 \<le> a div b \<longleftrightarrow> 2 powi 53 \<le> real s * 2 powi (e - f)"
  proof -
    have "2 ^ 53 \<le> a div b \<longleftrightarrow> 2 ^ 53 * b \<le> a" using b by (simp add: less_eq_div_iff_mult_less_eq)
    also have "\<dots> \<longleftrightarrow> real (2 ^ 53 * b) \<le> real a" by (simp only: of_nat_le_iff)
    also have "\<dots> \<longleftrightarrow> 2 powi 53 \<le> real a / real b" using b by (simp add: field_simps)
    finally show ?thesis using r' by simp
  qed
  have lp: "last_place n m = max (if 2 powi 53 \<le> real s * 2 powi (e - f) then f + 1 else f) (- 1074)"
    using ab big by (simp add: last_place_def f_def Let_def)
  have up: "real s * 2 powi e < 2 powi (f + 54)" and lo: "2 powi (f + 52) < real s * 2 powi e"
    using quotient_bits [OF s(4) m] v by (simp_all add: f_def algebra_simps)
  show ?thesis
  proof (cases "2 ^ 52 \<le> s")
    case True
    then have "2 powi (52 + e) \<le> real s * 2 powi e" by (intro two_powi_le) simp
    from le_less_trans [OF this up] have 1: "e < f + 2" by (simp add: two_powi_less)
    have "real s * 2 powi e < 2 powi (53 + e)" using s(1) by (intro less_two_powi) simp
    from less_trans [OF lo this] have 2: "f \<le> e" by (simp add: two_powi_less)
    from 1 2 consider "e = f" | "e = f + 1" by linarith
    then show ?thesis using True s by cases (simp_all add: lp)
  next
    case False
    then have e: "e = - 1074" using s(2) by simp
    have "real s * 2 powi e < 2 powi (52 + e)" using False by (intro less_two_powi) simp
    from less_trans [OF lo this] have "f + 1 \<le> e" by (simp add: two_powi_less)
    then show ?thesis using e by (simp add: lp)
  qed
qed

lemma round_mag_exact:
  assumes q: "quotient_is n m s e" and s: "s < 2 ^ 53" "2 ^ 52 \<le> s \<or> e = - 1074" "- 1074 \<le> e"
  shows "round_mag n m = nat (e + 1074) * 2 ^ 52 + s"
proof (cases "n = 0")
  case True
  with q have "s = 0" by (auto simp: quotient_is_def)
  with s True show ?thesis by (simp add: round_mag_def)
next
  case False
  obtain a b where ab: "scale n m e = (a, b)" by fastforce
  from q have m: "0 < m" and v: "real n / real m = real s * 2 powi e" by (auto simp: quotient_is_def)
  have "real a / real b = real s" 
    using scale_quotient(2) [OF m ab] v by (simp add: power_int_add [symmetric] mult.assoc)
  with div_half_even_exact [OF scale_quotient(1) [OF m ab]] have "div_half_even a b = s" by blast
  moreover have "last_place n m = e" using False assms by (intro last_place_exact) auto
  ultimately show ?thesis using False ab by (simp add: round_mag_def Let_def)
qed

text \<open>The significand and the exponent of a magnitude, and its decimal notation.\<close>

definition mag_sig :: "nat \<Rightarrow> nat" where
  "mag_sig m = (if m div 2 ^ 52 = 0 then m else 2 ^ 52 + m mod 2 ^ 52)"

definition mag_exp :: "nat \<Rightarrow> int" where
  "mag_exp m = (if m div 2 ^ 52 = 0 then - 1074 else int (m div 2 ^ 52) - 1075)"

lemma round_mag_of_mag:
  assumes "quotient_is k d (mag_sig m) (mag_exp m)"
  shows "round_mag k d = m"
proof -
  have "mag_sig m < 2 ^ 53" "2 ^ 52 \<le> mag_sig m \<or> mag_exp m = - 1074" "- 1074 \<le> mag_exp m"
    by (auto simp: mag_sig_def mag_exp_def div_eq_0_iff Suc_le_eq div_greater_zero_iff
       intro: less_trans [OF mod_less_divisor])
  from round_mag_exact [OF assms this] have "round_mag k d = nat (mag_exp m + 1074) * 2 ^ 52 + mag_sig m" .
  also have "\<dots> = m"
    by (simp add: mag_sig_def mag_exp_def nat_diff_distrib algebra_simps; arith)
  finally show ?thesis .
qed

lemma decimal_mag_of_mag:
  shows "0 \<le> mag_exp m \<Longrightarrow> decimal_mag (10 * (mag_sig m * 2 ^ nat (mag_exp m))) (- 1) = m"
    and "mag_exp m < 0 \<Longrightarrow> decimal_mag (mag_sig m * 5 ^ nat (- mag_exp m)) (mag_exp m) = m"
  by (auto simp: decimal_mag_def quotient_is_def power_int_def power_mult_distrib [symmetric]
      field_simps intro!: round_mag_of_mag)

section \<open>The printer\<close>

definition digit_char :: "nat \<Rightarrow> char" where
  "digit_char n = char_of (48 + n)"

fun show_nat :: "nat \<Rightarrow> string" where
  "show_nat n = (if n < 10 then [digit_char n] else show_nat (n div 10) @ [digit_char (n mod 10)])"

declare show_nat.simps [simp del]

definition show_mag :: "nat \<Rightarrow> string" where
  "show_mag m =
     (if 0 \<le> mag_exp m then show_nat (mag_sig m * 2 ^ nat (mag_exp m)) @ ''.0''
      else show_nat (mag_sig m * 5 ^ nat (- mag_exp m)) @ ''e-'' @ show_nat (nat (- mag_exp m)))"

definition show_double :: "double \<Rightarrow> string" where
  "show_double d =
     (if \<not> d_finite d then ''null'' else (if d_neg d then ''-'' else []) @ show_mag (d_mag d))"

definition show_int :: "int \<Rightarrow> string" where
  "show_int i = (if i < 0 then ''-'' else []) @ show_nat (nat \<bar>i\<bar>)"

definition hex_char :: "nat \<Rightarrow> char" where
  "hex_char n = (if n < 10 then char_of (48 + n) else char_of (87 + n))"

definition escape :: "char \<Rightarrow> string" where
  "escape c =
     (if c = CHR 0x22 then [CHR 0x5C, CHR 0x22]
      else if c = CHR 0x5C then [CHR 0x5C, CHR 0x5C]
      else if byte c < 32 then [CHR 0x5C] @ ''u00'' @ [hex_char (byte c div 16), hex_char (byte c mod 16)]
      else [c])"

definition quote :: "string \<Rightarrow> string" where
  "quote s = CHR 0x22 # concat (map escape s) @ [CHR 0x22]"

fun commas :: "string list \<Rightarrow> string" where
  "commas [] = []"
| "commas [s] = s"
| "commas (s # t # ts) = s @ '','' @ commas (t # ts)"

fun show_json :: "json \<Rightarrow> string" where
  "show_json JNull = ''null''"
| "show_json (JBool b) = (if b then ''true'' else ''false'')"
| "show_json (JInt w) = show_int (sint w)"
| "show_json (JUInt w) = show_nat (unat w)"
| "show_json (JFloat d) = show_double d"
| "show_json (JString s) = quote s"
| "show_json (JArray js) = ''['' @ commas (map show_json js) @ '']''"
| "show_json (JObject kvs) = ''{'' @ commas (map (\<lambda>kv. quote (fst kv) @ '':'' @ show_json (snd kv)) kvs) @ ''}''"

definition ref_dump :: json_dumper where
  "ref_dump j = (if json_ok j then Inr (show_json j) else Inl (Type_error ''invalid UTF-8''))"

section \<open>The parser\<close>

definition is_ws :: "char \<Rightarrow> bool" where
  "is_ws c \<longleftrightarrow> c = CHR 0x20 \<or> c = CHR 0x09 \<or> c = CHR 0x0A \<or> c = CHR 0x0D"

abbreviation skip_ws :: "string \<Rightarrow> string" where
  "skip_ws \<equiv> dropWhile is_ws"

definition hex_val :: "char \<Rightarrow> nat option" where
  "hex_val c =
     (if is_digit c then Some (digit_val c)
      else if 97 \<le> byte (to_lower c) \<and> byte (to_lower c) \<le> 102 then Some (byte (to_lower c) - 87)
      else None)"

definition hex4 :: "char \<Rightarrow> char \<Rightarrow> char \<Rightarrow> char \<Rightarrow> nat option" where
  "hex4 a b c d =
     (case (hex_val a, hex_val b, hex_val c, hex_val d) of
        (Some x, Some y, Some z, Some w) \<Rightarrow> Some (((x * 16 + y) * 16 + z) * 16 + w)
      | _ \<Rightarrow> None)"

definition encode_utf8 :: "nat \<Rightarrow> string" where
  "encode_utf8 n = map char_of
     (if n < 128 then [n]
      else if n < 2048 then [192 + n div 64, 128 + n mod 64]
      else if n < 65536 then [224 + n div 4096, 128 + n div 64 mod 64, 128 + n mod 64]
      else [240 + n div 262144, 128 + n div 4096 mod 64, 128 + n div 64 mod 64, 128 + n mod 64])"

definition simple_escape :: "char \<Rightarrow> char option" where
  "simple_escape c =
     map_of [(CHR 0x22, CHR 0x22), (CHR 0x5C, CHR 0x5C), (CHR ''/'', CHR ''/''), (CHR ''b'', CHR 0x08),
       (CHR ''f'', CHR 0x0C), (CHR ''n'', CHR 0x0A), (CHR ''r'', CHR 0x0D), (CHR ''t'', CHR 0x09)] c"

text \<open>
  The rest of a string literal after its opening quote: its bytes and what follows it. Code points
  outside the basic plane are written as a pair of escapes.
\<close>

definition surrogate_pair :: "nat \<Rightarrow> nat \<Rightarrow> string option" where
  "surrogate_pair n m =
     (if n < 55296 \<or> 56319 < n \<or> m < 56320 \<or> 57343 < m then None
      else Some (encode_utf8 (65536 + (n - 55296) * 1024 + (m - 56320))))"

fun read_string :: "string \<Rightarrow> (string \<times> string) option" where
  "read_string [] = None"
| "read_string (c # s) =
     (if c = CHR 0x22 then Some ([], s)
      else if byte c < 32 then None
      else if c \<noteq> CHR 0x5C then map_option (apfst ((#) c)) (read_string s)
      else case s of
        [] \<Rightarrow> None
      | e # s1 \<Rightarrow>
          if e \<noteq> CHR ''u''
          then (case simple_escape e of
                  None \<Rightarrow> None
                | Some x \<Rightarrow> map_option (apfst ((#) x)) (read_string s1))
          else (case s1 of
            h1 # h2 # h3 # h4 # s2 \<Rightarrow>
              (case hex4 h1 h2 h3 h4 of
                 None \<Rightarrow> None
               | Some n \<Rightarrow>
                   if n < 55296 \<or> 57343 < n then map_option (apfst ((@) (encode_utf8 n))) (read_string s2)
                   else (case s2 of
                     b # u # l1 # l2 # l3 # l4 # s3 \<Rightarrow>
                       if b \<noteq> CHR 0x5C \<or> u \<noteq> CHR ''u'' then None
                       else (case Option.bind (hex4 l1 l2 l3 l4) (surrogate_pair n) of
                          None \<Rightarrow> None
                        | Some x \<Rightarrow> map_option (apfst ((@) x)) (read_string s3))
                   | _ \<Rightarrow> None))
          | _ \<Rightarrow> None))"

text \<open>A number: unsigned or negative if it is an integer that fits, otherwise a double.\<close>

definition read_fraction :: "string \<Rightarrow> string \<times> string" where
  "read_fraction s =
     (case strip CHR ''.'' s of
        Some t \<Rightarrow> if takeWhile is_digit t = [] then ([], s) else (takeWhile is_digit t, dropWhile is_digit t)
      | None \<Rightarrow> ([], s))"

definition number_value :: "bool \<Rightarrow> string \<Rightarrow> string \<Rightarrow> int \<Rightarrow> bool \<Rightarrow> json_exn + json" where
  "number_value neg ip fp ex integral =
     (let n = digits_val ip; m = decimal_mag (digits_val (ip @ fp)) (ex - int (length fp))
      in if integral \<and> neg \<and> n \<le> 2 ^ 63 then Inr (JInt (word_of_int (- int n)))
         else if integral \<and> \<not> neg \<and> n < 2 ^ 64 then Inr (JUInt (word_of_nat n))
         else if inf_mag \<le> m then Inl (Out_of_range ''number overflow'')
         else Inr (JFloat (mk_double neg m)))"

definition read_number :: "string \<Rightarrow> json_exn + (json \<times> string)" where
  "read_number s =
     (let (neg, t) = (case strip CHR ''-'' s of Some u \<Rightarrow> (True, u) | None \<Rightarrow> (False, s));
          ip = takeWhile is_digit t;
          (fp, s2) = read_fraction (dropWhile is_digit t);
          (ex, rest) = read_exponent s2
      in if ip = [] \<or> (1 < length ip \<and> hd ip = CHR ''0'') then Inl (Parse_error ''invalid number'')
         else case number_value neg ip fp ex (fp = [] \<and> rest = s2) of
           Inl e \<Rightarrow> Inl e
         | Inr j \<Rightarrow> Inr (j, rest))"

text \<open>
  Values, the elements of an array and the members of an object, after their opening bracket. The
  fuel bounds the nesting and the number of elements; a text never needs more than its length.
\<close>

definition syntax_error :: "json_exn + 'a" where
  "syntax_error = Inl (Parse_error ''syntax error'')"

definition expect :: "char \<Rightarrow> string \<Rightarrow> json_exn + string" where
  "expect c s = (case strip c (skip_ws s) of Some t \<Rightarrow> Inr t | None \<Rightarrow> syntax_error)"

definition read_literal :: "string \<Rightarrow> json \<Rightarrow> string \<Rightarrow> json_exn + (json \<times> string)" where
  "read_literal l j s = (if take (length l) s = l then Inr (j, drop (length l) s) else syntax_error)"

definition read_scalar :: "string \<Rightarrow> json_exn + (json \<times> string)" where
  "read_scalar s =
     (case s of
        [] \<Rightarrow> syntax_error
      | c # t \<Rightarrow>
          if c = CHR 0x22
          then (case read_string t of Some (x, u) \<Rightarrow> Inr (JString x, u) | None \<Rightarrow> syntax_error)
          else if c = CHR ''n'' then read_literal ''null'' JNull s
          else if c = CHR ''t'' then read_literal ''true'' (JBool True) s
          else if c = CHR ''f'' then read_literal ''false'' (JBool False) s
          else read_number s)"

fun read_value :: "nat \<Rightarrow> string \<Rightarrow> json_exn + (json \<times> string)"
  and read_elements :: "nat \<Rightarrow> json list \<Rightarrow> string \<Rightarrow> json_exn + (json \<times> string)"
  and read_members :: "nat \<Rightarrow> (string \<times> json) list \<Rightarrow> string \<Rightarrow> json_exn + (json \<times> string)" where
  "read_value 0 s = syntax_error"
| "read_value (Suc n) s =
     (case skip_ws s of
        [] \<Rightarrow> syntax_error
      | c # t \<Rightarrow>
          if c = CHR ''['' then
            (case expect CHR '']'' t of Inr u \<Rightarrow> Inr (JArray [], u) | Inl _ \<Rightarrow> read_elements n [] t)
          else if c = CHR ''{'' then
            (case expect CHR ''}'' t of Inr u \<Rightarrow> Inr (JObject [], u) | Inl _ \<Rightarrow> read_members n [] t)
          else read_scalar (c # t))"
| "read_elements 0 js s = syntax_error"
| "read_elements (Suc n) js s =
     (case read_value n s of
        Inl e \<Rightarrow> Inl e
      | Inr (j, t) \<Rightarrow>
          (case expect CHR '','' t of
             Inr u \<Rightarrow> read_elements n (js @ [j]) u
           | Inl _ \<Rightarrow> (case expect CHR '']'' t of Inr u \<Rightarrow> Inr (JArray (js @ [j]), u) | Inl e \<Rightarrow> Inl e)))"
| "read_members 0 kvs s = syntax_error"
| "read_members (Suc n) kvs s =
     (case expect CHR 0x22 s of
        Inl e \<Rightarrow> Inl e
      | Inr t \<Rightarrow>
      (case read_string t of
        None \<Rightarrow> syntax_error
      | Some (k, t1) \<Rightarrow>
      (case expect CHR '':'' t1 of
        Inl e \<Rightarrow> Inl e
      | Inr t2 \<Rightarrow>
      (case read_value n t2 of
        Inl e \<Rightarrow> Inl e
      | Inr (v, t3) \<Rightarrow>
          (case expect CHR '','' t3 of
             Inr u \<Rightarrow> read_members n (put_member k v kvs) u
           | Inl _ \<Rightarrow>
               (case expect CHR ''}'' t3 of
                  Inr u \<Rightarrow> Inr (JObject (put_member k v kvs), u)
                | Inl e \<Rightarrow> Inl e))))))"

definition ref_parse :: json_parser where
  "ref_parse s =
     (case read_value (Suc (length s)) s of
        Inl e \<Rightarrow> Inl e
      | Inr (j, rest) \<Rightarrow>
          if skip_ws rest \<noteq> [] then syntax_error
          else if \<not> json_ok j then Inl (Parse_error ''invalid string: ill-formed UTF-8 byte'')
          else Inr j)"

section \<open>Numbers are read back\<close>

lemma digit_char: "n < 10 \<Longrightarrow> is_digit (digit_char n) \<and> digit_val (digit_char n) = n"
  by (simp add: is_digit_def digit_val_def digit_char_def)

lemma digits_val_append: "digits_val (s @ [c]) = 10 * digits_val s + digit_val c"
  by (simp add: digits_val_def)

lemma show_nat_digits: "list_all is_digit (show_nat n) \<and> show_nat n \<noteq> [] \<and> digits_val (show_nat n) = n"
proof (induction n rule: show_nat.induct)
  case (1 n)
  show ?case
  proof (cases "n < 10")
    case True
    then show ?thesis
      by (subst (1 2 3) show_nat.simps) (simp add: digit_char digits_val_def)
  next
    case False
    with 1 show ?thesis
      by (subst (1 2 3) show_nat.simps) (simp add: digit_char digits_val_append)
  qed
qed

lemma show_nat_no_leading_zero: "1 < length (show_nat n) \<Longrightarrow> hd (show_nat n) \<noteq> CHR ''0''"
proof (induction n rule: show_nat.induct)
  case (1 n)
  show ?case
  proof (cases "n < 100")
    case True
    with 1(2) have n: "10 \<le> n" by (cases "n < 10") (simp_all add: show_nat.simps)
    moreover have "n div 10 < 10" using True by simp
    ultimately have "show_nat n = digit_char (n div 10) # [digit_char (n mod 10)]"
      by (simp add: show_nat.simps [of n] show_nat.simps [of "n div 10"])
    moreover have "digit_char (n div 10) \<noteq> CHR ''0''"
      using digit_char [of "n div 10"] \<open>n div 10 < 10\<close> n by (auto simp: digit_val_def)
    ultimately show ?thesis by simp
  next
    case False
    then have "1 < length (show_nat (n div 10))"
      by (subst show_nat.simps) (use show_nat_digits [of "n div 10 div 10"] in auto)
    with 1(1) False show ?thesis by (subst show_nat.simps) (use show_nat_digits [of "n div 10"] in auto)
  qed
qed

text \<open>A text that ends a value: nothing more, or a comma or a closing bracket.\<close>

definition ends :: "string \<Rightarrow> bool" where
  "ends s \<longleftrightarrow> (case s of [] \<Rightarrow> True | c # t \<Rightarrow> c \<in> {CHR '','', CHR '']'', CHR ''}''})"

definition no_digit :: "string \<Rightarrow> bool" where
  "no_digit s \<longleftrightarrow> (case s of [] \<Rightarrow> True | c # t \<Rightarrow> \<not> is_digit c)"

lemma ends_simps:
  assumes "ends s"
  shows "no_digit s" "read_fraction s = ([], s)" "read_exponent s = (0, s)"
  using assms
  by (auto simp: ends_def no_digit_def is_digit_def read_fraction_def read_exponent_def strip_def to_lower_def
      split: list.splits)

lemma digits_split:
  assumes "list_all is_digit ds" "no_digit s"
  shows "takeWhile is_digit (ds @ s) = ds" "dropWhile is_digit (ds @ s) = s"
  using assms takeWhile_digits [OF assms(1)] by (cases s; simp add: no_digit_def)+

lemma read_number_shape:
  assumes "list_all is_digit ds" "ds \<noteq> []" "1 < length ds \<Longrightarrow> hd ds \<noteq> CHR ''0''" "no_digit t"
    and "read_fraction t = (fp, s2)" "read_exponent s2 = (ex, rest)"
  shows "read_number ((if neg then ''-'' else []) @ ds @ t) =
    (case number_value neg ds fp ex (fp = [] \<and> rest = s2) of Inl e \<Rightarrow> Inl e | Inr j \<Rightarrow> Inr (j, rest))"
proof -
  have "hd ds \<noteq> CHR ''-''" using assms(1,2) by (cases ds) (auto simp: is_digit_def)
  then have "strip CHR ''-'' (ds @ t) = None" using assms(2) by (cases ds) (auto simp: strip_def)
  with assms digits_split [OF assms(1,4)] show ?thesis
    by (auto simp: read_number_def Let_def strip_def)
qed

lemma digits_val_show_nat [simp]: "digits_val (show_nat n) = n"
  by (simp add: show_nat_digits)

lemma read_show_nat:
  assumes "no_digit t" "read_fraction t = (fp, s2)" "read_exponent s2 = (ex, rest)"
  shows "read_number ((if neg then ''-'' else []) @ show_nat n @ t) =
    (case number_value neg (show_nat n) fp ex (fp = [] \<and> rest = s2) of Inl e \<Rightarrow> Inl e | Inr j \<Rightarrow> Inr (j, rest))"
  using show_nat_digits show_nat_no_leading_zero assms by (intro read_number_shape) auto

lemma read_unsigned: "ends s \<Longrightarrow> read_number (show_nat (unat w) @ s) = Inr (JUInt (w :: u64), s)"
  using read_show_nat [of s "[]" s 0 s False "unat w"] unsigned_less [where 'a = nat, of w]
  by (simp add: ends_simps number_value_def Let_def)

lemma read_signed: "ends s \<Longrightarrow> read_number (show_int (sint w) @ s) = Inr (reread (JInt w), s)"
proof -
  assume s: "ends s"
  have neg: "nat \<bar>sint w\<bar> \<le> 2 ^ 63" using sint_ge [of w] sint_lt [of w] by simp
  show ?thesis
  proof (cases "sint w < 0")
    case True
    then have "word_of_int (- int (nat \<bar>sint w\<bar>)) = w" by simp
    with True neg s read_show_nat [of s "[]" s 0 s True "nat \<bar>sint w\<bar>"] show ?thesis
      by (simp add: ends_simps number_value_def Let_def show_int_def)
  next
    case False
    then have "word_of_nat (nat \<bar>sint w\<bar>) = w" by (simp flip: of_int_of_nat)
    moreover have "nat \<bar>sint w\<bar> < 2 ^ 64" using neg by simp
    ultimately show ?thesis using False s read_show_nat [of s "[]" s 0 s False "nat \<bar>sint w\<bar>"]
      by (simp add: ends_simps number_value_def Let_def show_int_def)
  qed
qed

lemma mk_double_self: "mk_double (d_neg d) (d_mag d) = d"
proof -
  have "unat d < 2 ^ 64" using unsigned_less [where 'a = nat, of d] by simp
  then have "unat d = d_mag d + (if d_neg d then 2 ^ 63 else 0)"
    by (auto simp: d_mag_def d_neg_def mod_if)
  moreover have "word_of_nat (unat d) = d" by simp
  ultimately show ?thesis unfolding mk_double_def by (simp only: add.commute)
qed

lemma read_exponent_neg: "ends s \<Longrightarrow> read_exponent (''e-'' @ show_nat k @ s) = (- int k, s)"
  using digits_split [of "show_nat k" s] show_nat_digits [of k]
  by (simp add: read_exponent_def to_lower_def strip_def Let_def ends_simps)

lemma read_float:
  assumes "ends s" "d_finite d"
  shows "read_number (show_double d @ s) = Inr (JFloat d, s)"
proof -
  let ?m = "d_mag d"
  have m: "\<not> inf_mag \<le> ?m" using assms(2) by (simp add: d_finite_def)
  show ?thesis
  proof (cases "0 \<le> mag_exp ?m")
    case True
    let ?n = "mag_sig ?m * 2 ^ nat (mag_exp ?m)"
    have "read_fraction (''.0'' @ s) = (''0'', s)"
      using digits_split [of "''0''" s] assms(1) by (simp add: read_fraction_def strip_def ends_simps is_digit_def)
    from read_show_nat [OF _ this ends_simps(3) [OF assms(1)], of "d_neg d" ?n] True assms m
    show ?thesis
      by (simp add: no_digit_def is_digit_def show_double_def show_mag_def number_value_def Let_def
          digits_val_append digit_val_def decimal_mag_of_mag mk_double_self)
  next
    case False
    let ?n = "mag_sig ?m * 5 ^ nat (- mag_exp ?m)" and ?k = "nat (- mag_exp ?m)"
    have "read_fraction (''e-'' @ show_nat ?k @ s) = ([], ''e-'' @ show_nat ?k @ s)"
      by (simp add: read_fraction_def strip_def)
    from read_show_nat [OF _ this read_exponent_neg [OF assms(1)], of "d_neg d" ?n] False assms m
    show ?thesis
      by (simp add: no_digit_def is_digit_def show_double_def show_mag_def number_value_def Let_def
          decimal_mag_of_mag mk_double_self)
  qed
qed

section \<open>Strings are read back\<close>

lemma hex_val_hex_char: "n < 16 \<Longrightarrow> hex_val (hex_char n) = Some n"
  by (auto simp: hex_val_def hex_char_def is_digit_def digit_val_def byte_def to_lower_def)

lemma read_escaped: "read_string (escape c @ s) = map_option (apfst ((#) c)) (read_string s)"
proof -
  have "byte c < 256" by (simp add: byte_def)
  moreover have "hex_val CHR ''0'' = Some 0" by code_simp
  moreover have "encode_utf8 (byte c) = [c]" if "byte c < 32" using that by (simp add: encode_utf8_def byte_def)
  moreover have "(@) [c] = (#) c" by (simp add: fun_eq_iff)
  ultimately show ?thesis
    by (auto simp: escape_def byte_def hex4_def hex_val_hex_char simple_escape_def)
qed

lemma read_quoted: "read_string (concat (map escape x) @ CHR 0x22 # s) = Some (x, s)"
  by (induction x) (simp_all add: read_escaped)

section \<open>Values are read back\<close>

definition compound :: "json \<Rightarrow> bool" where
  "compound j \<longleftrightarrow> (case j of JArray js \<Rightarrow> True | JObject kvs \<Rightarrow> True | _ \<Rightarrow> False)"

definition starts_number :: "string \<Rightarrow> bool" where
  "starts_number s \<longleftrightarrow> (case s of [] \<Rightarrow> False | c # t \<Rightarrow> c = CHR ''-'' \<or> is_digit c)"

lemma show_nat_start [simp]: "starts_number (show_nat n @ s)"
  using show_nat_digits [of n] by (cases "show_nat n") (auto simp: starts_number_def)

lemma show_number_start:
  "starts_number (show_int i @ s)" "starts_number (show_nat n @ s)"
  "d_finite d \<Longrightarrow> starts_number (show_double d @ s)"
  by (auto simp: show_int_def show_double_def show_mag_def)
    (auto simp: starts_number_def)

lemma read_scalar_number: "starts_number s \<Longrightarrow> read_scalar s = read_number s"
  by (cases s) (auto simp: starts_number_def read_scalar_def is_digit_def)

lemma read_scalar_show:
  assumes "ends s" "\<not> compound j"
  shows "read_scalar (show_json j @ s) = Inr (reread j, s)"
proof (cases j)
  case (JFloat d)
  with assms show ?thesis
    by (cases "d_finite d")
      (simp add: read_scalar_number show_number_start read_float,
       simp add: show_double_def read_scalar_def read_literal_def)
next
  case (JInt w)
  with assms show ?thesis by (simp add: read_scalar_number show_number_start read_signed del: reread.simps(1))
next
  case (JUInt w)
  with assms show ?thesis by (simp add: read_scalar_number read_unsigned)
qed (use assms in \<open>auto simp: compound_def read_scalar_def read_literal_def quote_def read_quoted\<close>)

text \<open>How the text of a value begins.\<close>

definition starts_value :: "json \<Rightarrow> string \<Rightarrow> bool" where
  "starts_value j s \<longleftrightarrow>
     (case s of [] \<Rightarrow> False
      | c # t \<Rightarrow> \<not> is_ws c \<and> c \<noteq> CHR '']'' \<and> c \<noteq> CHR ''}'' \<and> (compound j \<or> c \<noteq> CHR ''['' \<and> c \<noteq> CHR ''{''))"

lemma starts_number_value: "starts_number s \<Longrightarrow> starts_value j s"
  by (cases s) (auto simp: starts_number_def starts_value_def is_ws_def is_digit_def)

lemma show_starts_value: "starts_value j (show_json j @ s)"
proof (cases j)
  case (JFloat d)
  then show ?thesis
    by (cases "d_finite d")
      (simp add: show_number_start starts_number_value,
       simp add: show_double_def starts_value_def is_ws_def)
next
  case (JInt w)
  then show ?thesis by (simp add: show_number_start starts_number_value)
next
  case (JUInt w)
  then show ?thesis by (simp add: starts_number_value)
qed (auto simp: starts_value_def is_ws_def compound_def quote_def)

lemma skip_ws_show [simp]: "skip_ws (show_json j @ s) = show_json j @ s"
  using show_starts_value [of j s] by (cases "show_json j @ s") (auto simp: starts_value_def)

lemma read_value_scalar:
  assumes "ends s" "\<not> compound j"
  shows "read_value (Suc n) (show_json j @ s) = Inr (reread j, s)"
  using show_starts_value [of j s] read_scalar_show [OF assms] assms(2)
  by (cases "show_json j @ s") (auto simp: starts_value_def)

lemma expect_simps [simp]:
  "\<not> is_ws c \<Longrightarrow> expect c (c # s) = Inr s"
  "\<not> is_ws d \<Longrightarrow> c \<noteq> d \<Longrightarrow> expect c (d # s) = syntax_error"
  by (simp_all add: expect_def strip_def)

lemma not_ws [simp]:
  "\<not> is_ws CHR '',''" "\<not> is_ws CHR '']''" "\<not> is_ws CHR ''}''" "\<not> is_ws CHR '':''" "\<not> is_ws CHR 0x22"
  by (simp_all add: is_ws_def)

lemma expect_show: "c \<in> {CHR '']'', CHR ''}''} \<Longrightarrow> expect c (show_json j @ s) = syntax_error"
  using show_starts_value [of j s] by (cases "show_json j @ s") (auto simp: starts_value_def)

lemma show_length: "0 < length (show_json j)"
  using show_starts_value [of j "[]"] by (auto simp: starts_value_def)

lemma commas_Cons: "commas (x # xs) = x @ (if xs = [] then [] else '','' @ commas xs)"
  by (cases xs) auto

lemma put_member_last:
  "\<forall>kv \<in> set acc. fst kv < k \<Longrightarrow> put_member k v acc = acc @ [(k, v)]"
proof (induction acc)
  case (Cons kv acc)
  then show ?case by (cases kv) auto
qed simp

abbreviation show_member :: "string \<times> json \<Rightarrow> string" where
  "show_member kv \<equiv> quote (fst kv) @ '':'' @ show_json (snd kv)"

definition reads_values :: "nat \<Rightarrow> bool" where
  "reads_values n \<longleftrightarrow> (\<forall>j s. json_ok j \<and> length (show_json j) < n \<and> ends s \<longrightarrow>
     read_value n (show_json j @ s) = Inr (reread j, s))"

definition reads_elements :: "nat \<Rightarrow> bool" where
  "reads_elements n \<longleftrightarrow> (\<forall>js acc s. js \<noteq> [] \<and> (\<forall>j \<in> set js. json_ok j) \<and>
     length (commas (map show_json js)) + 1 < n \<longrightarrow>
     read_elements n acc (commas (map show_json js) @ CHR '']'' # s) = Inr (JArray (acc @ map reread js), s))"

definition reads_members :: "nat \<Rightarrow> bool" where
  "reads_members n \<longleftrightarrow> (\<forall>kvs acc s. kvs \<noteq> [] \<and> (\<forall>kv \<in> set kvs. json_ok (snd kv)) \<and>
     sorted_wrt (<) (map fst (acc @ kvs)) \<and> length (commas (map show_member kvs)) + 1 < n \<longrightarrow>
     read_members n acc (commas (map show_member kvs) @ CHR ''}'' # s) =
       Inr (JObject (acc @ map (map_prod id reread) kvs), s))"

lemma reads_elements_Suc:
  assumes "reads_values n" "reads_elements n"
  shows "reads_elements (Suc n)"
  unfolding reads_elements_def
proof (intro allI impI, elim conjE)
  fix js acc s
  assume ok: "js \<noteq> []" "\<forall>j \<in> set js. json_ok j" and len: "length (commas (map show_json js)) + 1 < Suc n"
  then obtain j js' where js: "js = j # js'" by (cases js) auto
  note len' = len [unfolded js commas_Cons list.map]
  let ?t = "(if js' = [] then [] else '','' @ commas (map show_json js')) @ CHR '']'' # s"
  have "ends ?t" by (auto simp: ends_def)
  then have v: "read_value n (show_json j @ ?t) = Inr (reread j, ?t)"
    using assms(1) ok len' unfolding js reads_values_def by auto
  have r: "read_elements n (acc @ [reread j]) (commas (map show_json js') @ CHR '']'' # s) =
      Inr (JArray (acc @ [reread j] @ map reread js'), s)" if "js' \<noteq> []"
    using assms(2) ok len' that show_length [of j] unfolding js reads_elements_def by auto
  show "read_elements (Suc n) acc (commas (map show_json js) @ CHR '']'' # s) =
      Inr (JArray (acc @ map reread js), s)"
    using v r by (cases "js' = []") (simp_all add: js commas_Cons syntax_error_def)
qed

lemma reads_members_Suc:
  assumes "reads_values n" "reads_members n"
  shows "reads_members (Suc n)"
  unfolding reads_members_def
proof (intro allI impI, elim conjE)
  fix kvs acc s
  assume ok: "kvs \<noteq> []" "\<forall>kv \<in> set kvs. json_ok (snd kv)" and sorted: "sorted_wrt (<) (map fst (acc @ kvs))"
    and len: "length (commas (map show_member kvs)) + 1 < Suc n"
  then obtain k v kvs' where kvs: "kvs = (k, v) # kvs'" by (cases kvs) auto
  note len' = len [unfolded kvs commas_Cons list.map]
  let ?t = "(if kvs' = [] then [] else '','' @ commas (map show_member kvs')) @ CHR ''}'' # s"
  have "ends ?t" by (auto simp: ends_def)
  then have v: "read_value n (show_json v @ ?t) = Inr (reread v, ?t)"
    using assms(1) ok len' unfolding kvs reads_values_def by auto
  have put: "put_member k x acc = acc @ [(k, x)]" for x
    using sorted by (intro put_member_last) (auto simp: kvs sorted_wrt_append)
  have r: "read_members n (acc @ [(k, reread v)]) (commas (map show_member kvs') @ CHR ''}'' # s) =
      Inr (JObject ((acc @ [(k, reread v)]) @ map (map_prod id reread) kvs'), s)" if "kvs' \<noteq> []"
    using assms(2) ok sorted len' that unfolding kvs reads_members_def by (auto simp: quote_def)
  show "read_members (Suc n) acc (commas (map show_member kvs) @ CHR ''}'' # s) =
      Inr (JObject (acc @ map (map_prod id reread) kvs), s)"
    using v r by (cases "kvs' = []") (simp_all add: kvs commas_Cons quote_def read_quoted put syntax_error_def)
qed

lemma reads_values_Suc:
  assumes "reads_elements n" "reads_members n"
  shows "reads_values (Suc n)"
  unfolding reads_values_def
proof (intro allI impI, elim conjE)
  fix j s
  assume ok: "json_ok j" and len: "length (show_json j) < Suc n" and s: "ends s"
  consider (scalar) "\<not> compound j" | (array) js where "j = JArray js" | (object) kvs where "j = JObject kvs"
    by (cases j) (auto simp: compound_def)
  then show "read_value (Suc n) (show_json j @ s) = Inr (reread j, s)"
  proof cases
    case scalar
    then show ?thesis using s by (rule read_value_scalar [rotated])
  next
    case array
    show ?thesis
    proof (cases js)
      case Nil
      then show ?thesis using array by (simp add: is_ws_def)
    next
      case (Cons j' js')
      then have "read_elements n [] (commas (map show_json js) @ CHR '']'' # s) = Inr (JArray (map reread js), s)"
        using assms(1) [unfolded reads_elements_def, rule_format, of js "[]" s] ok len array by simp
      then show ?thesis using array Cons by (simp add: is_ws_def commas_Cons expect_show syntax_error_def)
    qed
  next
    case object
    show ?thesis
    proof (cases kvs)
      case Nil
      then show ?thesis using object by (simp add: is_ws_def)
    next
      case (Cons kv kvs')
      then have "read_members n [] (commas (map show_member kvs) @ CHR ''}'' # s) =
          Inr (JObject (map (map_prod id reread) kvs), s)"
        using assms(2) [unfolded reads_members_def, rule_format, of kvs "[]" s] ok len object by simp
      then show ?thesis using object Cons by (simp add: is_ws_def commas_Cons quote_def syntax_error_def)
    qed
  qed
qed

lemma reads_all: "reads_values n \<and> reads_elements n \<and> reads_members n"
proof (induction n)
  case 0
  then show ?case by (simp add: reads_values_def reads_elements_def reads_members_def)
next
  case (Suc n)
  then show ?case by (simp add: reads_values_Suc reads_elements_Suc reads_members_Suc)
qed

lemma json_ok_reread: "json_ok j \<Longrightarrow> json_ok (reread j)"
  by (induction j rule: json_ok.induct) (auto simp: sorted_wrt_map)

lemma ref_parse_show: "json_ok j \<Longrightarrow> ref_parse (show_json j) = Inr (reread j)"
proof -
  assume "json_ok j"
  then have "read_value (Suc (length (show_json j))) (show_json j @ []) = Inr (reread j, [])"
    using reads_all [of "Suc (length (show_json j))"] unfolding reads_values_def
    by (auto simp: ends_def simp del: append_Nil2)
  then show ?thesis using json_ok_reread [OF \<open>json_ok j\<close>] by (simp add: ref_parse_def)
qed

section \<open>No line breaks\<close>

lemma digits_no_newline: "list_all is_digit s \<Longrightarrow> CHR 0x0A \<notin> set s"
  by (induction s) (auto simp: is_digit_def)

lemma show_nat_no_newline [simp]: "CHR 0x0A \<notin> set (show_nat n)"
  using show_nat_digits by (simp add: digits_no_newline)

lemma hex_char_no_newline: "n < 16 \<Longrightarrow> hex_char n \<noteq> CHR 0x0A"
  using hex_val_hex_char [of n] by (auto simp: hex_val_def is_digit_def byte_def to_lower_def split: if_splits)

lemma escape_no_newline [simp]: "CHR 0x0A \<notin> set (escape c)"
proof -
  have "byte c div 16 < 16" by (simp add: byte_def div_less_iff_less_mult)
  with hex_char_no_newline [of "byte c div 16"] hex_char_no_newline [of "byte c mod 16"]
  show ?thesis by (auto simp: escape_def byte_def)
qed

lemma quote_no_newline [simp]: "CHR 0x0A \<notin> set (quote s)"
  by (simp add: quote_def)

lemma commas_no_newline: "(\<And>s. s \<in> set ss \<Longrightarrow> CHR 0x0A \<notin> set s) \<Longrightarrow> CHR 0x0A \<notin> set (commas ss)"
  by (induction ss rule: commas.induct) auto

lemma show_no_newline: "CHR 0x0A \<notin> set (show_json j)"
proof (induction j rule: show_json.induct)
  case (7 js)
  have "CHR 0x0A \<notin> set (commas (map show_json js))"
    by (rule commas_no_newline) (use 7 in auto)
  then show ?case by simp
next
  case (8 kvs)
  have "CHR 0x0A \<notin> set (commas (map show_member kvs))"
    by (rule commas_no_newline) (use 8 in auto)
  then show ?case by simp
qed (simp_all add: show_int_def show_double_def show_mag_def)

section \<open>The contract\<close>

interpretation ref_json: json_codec ref_parse ref_dump
proof
  fix j s
  show "json_ok j \<Longrightarrow> \<exists>s. ref_dump j = Inr s" by (simp add: ref_dump_def)
  show "json_ok j \<Longrightarrow> ref_dump j = Inr s \<Longrightarrow> s \<noteq> [] \<and> CHR 0x0A \<notin> set s"
    using show_length [of j] show_no_newline [of j] by (auto simp: ref_dump_def)
  show "json_ok j \<Longrightarrow> ref_dump j = Inr s \<Longrightarrow> ref_parse s = Inr (reread j)"
    by (auto simp: ref_dump_def ref_parse_show)
  show "ref_parse s = Inr j \<Longrightarrow> json_ok j"
    by (auto simp: ref_parse_def syntax_error_def split: sum.splits prod.splits if_splits)
qed

end
