(* ===== verification/Recorder_Replay.thy ===== *)
theory Recorder_Replay
  imports Interfaces Json_Text
begin

text \<open>
  \<^verbatim>\<open>EventRecorder\<close> (\<^verbatim>\<open>src/event_recorder.cpp\<close>) and \<^verbatim>\<open>ReplaySource\<close> (\<^verbatim>\<open>src/replay_source.cpp\<close>): writing
  events to a capture file and reading them back through the interface of a source. Files are a map
  from paths to their text. A capture file is not written while it is replayed.
\<close>

section \<open>Files and streams\<close>

type_synonym files = "string \<rightharpoonup> string"

text \<open>
  An input stream: closed, good with the text that is left, or open with the failure bit set, which
  is where it stays after an attempt to read past the end.
\<close>

datatype instream = Closed | Good string | Failed

abbreviation newline :: char where
  "newline \<equiv> CHR 0x0A"

text \<open>
  \<^verbatim>\<open>std::getline\<close>: the text up to the next line break, which is removed. It fails when there is nothing
  at all left to read; a last line without a line break is still a line.
\<close>

fun getline :: "instream \<Rightarrow> string option \<times> instream" where
  "getline Closed = (None, Closed)"
| "getline Failed = (None, Failed)"
| "getline (Good rest) =
     (if rest = [] then (None, Failed)
      else (Some (takeWhile (\<lambda>c. c \<noteq> newline) rest), Good (drop 1 (dropWhile (\<lambda>c. c \<noteq> newline) rest))))"

section \<open>EventRecorder\<close>

record EventRecorder =
  out :: string \<comment> \<open>the path of the file that \<^verbatim>\<open>out_\<close> appends to\<close>

text \<open>Opening for appending creates the file if there is none; whether that is permitted is up to the system.\<close>

definition EventRecorder_new :: "(string \<Rightarrow> bool) \<Rightarrow> string \<Rightarrow> files \<Rightarrow> cpp_exn + (EventRecorder \<times> files)" where
  "EventRecorder_new writable path fs =
     (if \<not> writable path then Inl (Runtime_error (''EventRecorder: failed to open capture file: '' @ path))
      else Inr (\<lparr>out = path\<rparr>, if fs path = None then fs(path \<mapsto> []) else fs))"

definition append_file :: "string \<Rightarrow> string \<Rightarrow> files \<Rightarrow> files" where
  "append_file path s fs = fs(path \<mapsto> (case fs path of None \<Rightarrow> [] | Some c \<Rightarrow> c) @ s)"

definition record_event :: "json_dumper \<Rightarrow> EventRecorder \<Rightarrow> MarketEvent \<Rightarrow> files \<Rightarrow> cpp_exn + files" where
  "record_event dump r event fs =
     (case dump (marketEventToJson event) of
        Inl e \<Rightarrow> Inl (Json_exn e)
      | Inr line \<Rightarrow> Inr (append_file (out r) (line @ [newline]) fs))"

fun record_all :: "json_dumper \<Rightarrow> EventRecorder \<Rightarrow> MarketEvent list \<Rightarrow> files \<Rightarrow> cpp_exn + files" where
  "record_all dump r [] fs = Inr fs"
| "record_all dump r (e # es) fs =
     (case record_event dump r e fs of Inl x \<Rightarrow> Inl x | Inr fs' \<Rightarrow> record_all dump r es fs')"

section \<open>ReplaySource\<close>

record ReplaySource =
  path :: string
  ins :: instream \<comment> \<open>\<^verbatim>\<open>in_\<close>\<close>
  stop_requested :: bool
  lines_malformed :: u64

definition ReplaySource_new :: "string \<Rightarrow> ReplaySource" where
  "ReplaySource_new p = \<lparr>path = p, ins = Closed, stop_requested = False, lines_malformed = 0\<rparr>"

text \<open>Opening a stream that is already open sets its failure bit.\<close>

definition ReplaySource_start :: "files \<Rightarrow> ReplaySource \<Rightarrow> ReplaySource \<times> cpp_exn option" where
  "ReplaySource_start fs s =
     (let failure = Some (Runtime_error (''ReplaySource: failed to open replay file: '' @ path s))
      in case ins s of
        Closed \<Rightarrow> (case fs (path s) of None \<Rightarrow> (s, failure) | Some c \<Rightarrow> (s\<lparr>ins := Good c\<rparr>, None))
      | _ \<Rightarrow> (s\<lparr>ins := Failed\<rparr>, failure))"

definition ReplaySource_stop :: "ReplaySource \<Rightarrow> ReplaySource" where
  "ReplaySource_stop s = s\<lparr>stop_requested := True\<rparr>"

text \<open>One pass through the loop of \<^verbatim>\<open>next()\<close>; \<^verbatim>\<open>now\<close> is what \<^verbatim>\<open>steady_clock::now()\<close> returns if it is called.\<close>

definition ReplaySource_step :: "json_parser \<Rightarrow> i64 \<Rightarrow> ReplaySource \<Rightarrow> ReplaySource \<times> next_result" where
  "ReplaySource_step parse now s =
     (if stop_requested s then (s, Finished)
      else case getline (ins s) of
        (None, i) \<Rightarrow> (s\<lparr>ins := i\<rparr>, Finished)
      | (Some line, i) \<Rightarrow>
          let s = s\<lparr>ins := i\<rparr>;
              malformed = s\<lparr>lines_malformed := lines_malformed s + 1\<rparr>
          in if line = [] then (s, Again)
             else case parse line of
               Inl (Parse_error what) \<Rightarrow> (malformed, Again)
             | Inl e \<Rightarrow> (s, Raised (Json_exn e))
             | Inr parsed \<Rightarrow>
                 (case fst (marketEventFromJson parsed None) of
                    None \<Rightarrow> (malformed, Again)
                  | Some event \<Rightarrow> (s, Event (event\<lparr>ingest_time := now\<rparr>))))"

definition replay_iface :: "files \<Rightarrow> json_parser \<Rightarrow> (i64, ReplaySource) source_iface" where
  "replay_iface fs parse =
     \<lparr>src_start = ReplaySource_start fs, src_stop = ReplaySource_stop, src_step = ReplaySource_step parse\<rparr>"

text \<open>\<^verbatim>\<open>ReplaySource::next()\<close> as a whole, with the calls of \<^verbatim>\<open>stop()\<close> that other threads make meanwhile.\<close>

definition ReplaySource_next ::
    "json_parser \<Rightarrow> i64 tick list \<Rightarrow> ReplaySource \<Rightarrow> (ReplaySource \<times> next_result \<times> i64 tick list) option" where
  "ReplaySource_next parse = next_loop (replay_iface Map.empty parse)"

section \<open>The contract of a source\<close>

definition replay_inv :: "ReplaySource \<Rightarrow> bool" where
  "replay_inv s \<longleftrightarrow> True"

lemma replay_step_cases:
  assumes "ReplaySource_step parse now s = (s', r)"
  obtains (stopped) "stop_requested s" "s' = s" "r = Finished"
  | (at_end) i where "\<not> stop_requested s" "getline (ins s) = (None, i)" "s' = s\<lparr>ins := i\<rparr>" "r = Finished"
  | (line) l i where "\<not> stop_requested s" "getline (ins s) = (Some l, i)" "ins s' = i" "\<not> stop_requested s'"
      "path s' = path s" "r \<noteq> Finished"
  using assms
  by (auto simp: ReplaySource_step_def Let_def split: if_splits prod.splits option.splits sum.splits json_exn.splits)

lemma getline_None: "getline i = (None, i') \<Longrightarrow> getline i' = (None, i')"
  by (cases i) (auto split: if_splits)

interpretation replay: market_data_source "replay_iface fs parse" replay_inv stop_requested "\<lambda>s. 0"
proof
  fix s s' i j r
  assume "src_step (replay_iface fs parse) i s = (s', Finished)"
  then have "ReplaySource_step parse i s = (s', Finished)" by (simp add: replay_iface_def)
  then show "snd (src_step (replay_iface fs parse) j s') = Finished"
    by (cases rule: replay_step_cases)
      (auto simp: replay_iface_def ReplaySource_step_def dest: getline_None)
qed (auto simp: replay_iface_def replay_inv_def ReplaySource_stop_def elim: replay_step_cases)

section \<open>What a capture file contains\<close>

text \<open>
  The reference for the reader: the lines of a text, what each line is, and the events of a list of
  lines, each with the clock reading of its pass.
\<close>

function lines_of :: "string \<Rightarrow> string list" where
  "lines_of rest =
     (if rest = [] then []
      else takeWhile (\<lambda>c. c \<noteq> newline) rest # lines_of (drop 1 (dropWhile (\<lambda>c. c \<noteq> newline) rest)))"

  by pat_completeness auto

termination
proof (relation "measure length", goal_cases)
  case (2 rest)
  then show ?case using length_dropWhile_le [of "\<lambda>c. c \<noteq> newline" rest] by (cases rest) auto
qed simp

declare lines_of.simps [simp del]

datatype line_kind = Blank | Malformed | Captured MarketEvent | Overflow json_exn

definition classify :: "json_parser \<Rightarrow> string \<Rightarrow> line_kind" where
  "classify parse line =
     (if line = [] then Blank
      else case parse line of
        Inl (Parse_error what) \<Rightarrow> Malformed
      | Inl e \<Rightarrow> Overflow e
      | Inr j \<Rightarrow> (case fst (marketEventFromJson j None) of None \<Rightarrow> Malformed | Some e \<Rightarrow> Captured e))"

definition line_events :: "json_parser \<Rightarrow> string \<times> i64 \<Rightarrow> MarketEvent list" where
  "line_events parse lt =
     (case classify parse (fst lt) of Captured e \<Rightarrow> [e\<lparr>ingest_time := snd lt\<rparr>] | _ \<Rightarrow> [])"

abbreviation no_overflow :: "json_parser \<Rightarrow> string \<Rightarrow> bool" where
  "no_overflow parse line \<equiv> \<forall>e. classify parse line \<noteq> Overflow e"

abbreviation malformed_count :: "json_parser \<Rightarrow> string list \<Rightarrow> nat" where
  "malformed_count parse ls \<equiv> count_if (\<lambda>l. classify parse l = Malformed) ls"

text \<open>One pass, in terms of the first line of what is left.\<close>

lemma step_on_line:
  assumes "\<not> stop_requested s" "ins s = Good c" "lines_of c = l # ls"
  obtains c' where "lines_of c' = ls"
    "ReplaySource_step parse now s =
       (let s1 = s\<lparr>ins := Good c'\<rparr> in
        case classify parse l of
          Blank \<Rightarrow> (s1, Again)
        | Malformed \<Rightarrow> (s1\<lparr>lines_malformed := lines_malformed s + 1\<rparr>, Again)
        | Overflow e \<Rightarrow> (s1, Raised (Json_exn e))
        | Captured e \<Rightarrow> (s1, Event (e\<lparr>ingest_time := now\<rparr>)))"
proof -
  have c: "c \<noteq> []" using assms(3) by (auto simp: lines_of.simps)
  define c' where "c' = drop 1 (dropWhile (\<lambda>c. c \<noteq> newline) c)"
  have l: "l = takeWhile (\<lambda>c. c \<noteq> newline) c" and ls: "ls = lines_of c'"
    using assms(3) c by (subst (asm) lines_of.simps; simp add: c'_def)+
  have "getline (ins s) = (Some l, Good c')" using assms(2) c by (simp add: l c'_def)
  then have "ReplaySource_step parse now s =
       (let s1 = s\<lparr>ins := Good c'\<rparr> in
        case classify parse l of
          Blank \<Rightarrow> (s1, Again)
        | Malformed \<Rightarrow> (s1\<lparr>lines_malformed := lines_malformed s + 1\<rparr>, Again)
        | Overflow e \<Rightarrow> (s1, Raised (Json_exn e))
        | Captured e \<Rightarrow> (s1, Event (e\<lparr>ingest_time := now\<rparr>)))"
    using assms(1)
    by (auto simp: ReplaySource_step_def classify_def Let_def split: sum.splits json_exn.splits option.splits)
  with ls that show ?thesis by blast
qed

definition lines_left :: "ReplaySource \<Rightarrow> nat" where
  "lines_left s = (case ins s of Good c \<Rightarrow> length (lines_of c) | _ \<Rightarrow> 0)"

lemma step_uses_line:
  assumes "ReplaySource_step parse now s = (s', r)" "r \<noteq> Finished"
  shows "lines_left s' < lines_left s"
proof -
  from assms obtain l i where line: "getline (ins s) = (Some l, i)" "ins s' = i"
    by (cases rule: replay_step_cases) auto
  then obtain c where c: "ins s = Good c" "c \<noteq> []" "i = Good (drop 1 (dropWhile (\<lambda>c. c \<noteq> newline) c))"
    by (cases "ins s") (auto split: if_splits)
  then show ?thesis using line by (subst (2) lines_left_def) (simp add: lines_left_def lines_of.simps [of c])
qed

lemma lines_left_stop [simp]: "lines_left (ReplaySource_stop s) = lines_left s"
  by (simp add: lines_left_def ReplaySource_stop_def)

interpretation replay_finite: finite_source "replay_iface fs parse" replay_inv lines_left
proof
  fix s s' i r
  assume "src_step (replay_iface fs parse) i s = (s', r)"
  then have "ReplaySource_step parse i s = (s', r)" by (simp add: replay_iface_def)
  then show "r = Finished \<or> (\<exists>e. r = Raised e) \<or> lines_left s' < lines_left s"
    using step_uses_line by blast
next
  fix s s' i j
  assume "replay_inv s" "src_step (replay_iface fs parse) i s = (s', Finished)"
  then show "snd (src_step (replay_iface fs parse) j s') = Finished" by (rule replay.finished_final)
qed (simp_all add: replay_inv_def replay_iface_def)

lemma step_at_end:
  "\<not> stop_requested s \<Longrightarrow> ins s = Good [] \<Longrightarrow> ReplaySource_step parse now s = (s\<lparr>ins := Failed\<rparr>, Finished)"
  by (simp add: ReplaySource_step_def)

lemma read_loop_replay:
  "\<lbrakk>\<not> stop_requested s; ins s = Good c; \<forall>l \<in> set (lines_of c). no_overflow parse l;
     length (lines_of c) < length nows\<rbrakk> \<Longrightarrow>
   read_loop (replay_iface fs parse) (map Input nows) s =
     (concat (map (line_events parse) (zip (lines_of c) nows)),
      s\<lparr>ins := Failed, lines_malformed := lines_malformed s + of_nat (malformed_count parse (lines_of c))\<rparr>,
      Some Finished)"
proof (induction "lines_of c" arbitrary: s c nows)
  case Nil
  then have "c = []" by (subst (asm) lines_of.simps) (simp split: if_splits)
  with Nil show ?case
    by (cases nows) (auto simp: replay_iface_def step_at_end lines_of.simps)
next
  case (Cons l ls)
  obtain now nows' where nows: "nows = now # nows'" using Cons.prems by (cases nows) auto
  obtain c' where c': "lines_of c' = ls" and step: "ReplaySource_step parse now s =
       (let s1 = s\<lparr>ins := Good c'\<rparr> in
        case classify parse l of
          Blank \<Rightarrow> (s1, Again)
        | Malformed \<Rightarrow> (s1\<lparr>lines_malformed := lines_malformed s + 1\<rparr>, Again)
        | Overflow e \<Rightarrow> (s1, Raised (Json_exn e))
        | Captured e \<Rightarrow> (s1, Event (e\<lparr>ingest_time := now\<rparr>)))"
    using step_on_line [OF Cons.prems(1,2), of l ls] Cons.hyps(2) by metis
  have len: "length (lines_of c') < length nows'"
    using Cons.prems(4) Cons.hyps(2) c' nows by (metis Suc_less_eq length_Cons)
  have IH: "read_loop (replay_iface fs parse) (map Input nows') t =
     (concat (map (line_events parse) (zip ls nows')),
      t\<lparr>ins := Failed, lines_malformed := lines_malformed t + of_nat (malformed_count parse ls)\<rparr>,
      Some Finished)" if "\<not> stop_requested t" "ins t = Good c'" for t
    using Cons.hyps(1) [OF c' [symmetric] that] Cons.prems(3) Cons.hyps(2) len c'
    by (metis list.set_intros(2))
  show ?case
  proof (cases "classify parse l")
    case (Overflow e)
    then show ?thesis using Cons.prems(3) Cons.hyps(2) by (metis list.set_intros(1))
  qed (use Cons.prems IH step in \<open>simp_all add: Cons.hyps(2) [symmetric] nows replay_iface_def line_events_def
      Let_def\<close>)
qed

section \<open>What the recorder writes\<close>

lemma takeWhile_line:
  "newline \<notin> set l \<Longrightarrow> takeWhile (\<lambda>c. c \<noteq> newline) (l @ newline # s) = l"
  "newline \<notin> set l \<Longrightarrow> dropWhile (\<lambda>c. c \<noteq> newline) (l @ newline # s) = newline # s"
  by (induction l) auto

lemma lines_of_line: "newline \<notin> set l \<Longrightarrow> lines_of (l @ newline # s) = l # lines_of s"
  by (subst lines_of.simps) (simp add: takeWhile_line)

lemma lines_of_Nil [simp]: "lines_of [] = []"
  by (simp add: lines_of.simps)

definition writable_event :: "MarketEvent \<Rightarrow> bool" where
  "writable_event e \<longleftrightarrow> symbol e \<noteq> [] \<and> utf8 (symbol e) \<and> utf8 (source e) \<and> d_finite (price e)"

lemma sample_writable: "writable_event sample_event"
  by code_simp

lemma append_file_append: "append_file p t (append_file p s fs) = append_file p (s @ t) fs"
  by (simp add: append_file_def)

lemma captured_line:
  assumes "json_codec parse dump" "writable_event e"
  obtains l where "dump (marketEventToJson e) = Inr l" "newline \<notin> set l" "classify parse l = Captured (captured e)"
proof -
  have "json_ok (marketEventToJson e)" using assms(2) by (simp add: json_ok_event writable_event_def)
  from json_codec.dumpE [OF assms(1) this] obtain l where l: "dump (marketEventToJson e) = Inr l" "l \<noteq> []"
    "newline \<notin> set l" "parse l = Inr (reread (marketEventToJson e))" by blast
  then have "classify parse l = Captured (captured e)"
    using assms(2) by (simp add: classify_def fromJson_toJson writable_event_def)
  with l that show ?thesis by blast
qed

lemma record_all_lines:
  assumes "json_codec parse dump" "\<forall>e \<in> set es. writable_event e"
  shows "\<exists>ls. record_all dump r es fs = Inr (if es = [] then fs else append_file (out r) (concat (map (\<lambda>l. l @ [newline]) ls)) fs) \<and>
    lines_of (concat (map (\<lambda>l. l @ [newline]) ls)) = ls \<and>
    list_all2 (\<lambda>l e. classify parse l = Captured (captured e)) ls es"
  using assms(2)
proof (induction es arbitrary: fs)
  case Nil
  show ?case by (intro exI [of _ "[]"]) simp
next
  case (Cons e es)
  then obtain l where l: "dump (marketEventToJson e) = Inr l" "newline \<notin> set l"
    "classify parse l = Captured (captured e)"
    using captured_line [OF assms(1)] by (metis list.set_intros(1))
  from Cons obtain ls where "record_all dump r es (append_file (out r) (l @ [newline]) fs) =
      Inr (if es = [] then append_file (out r) (l @ [newline]) fs
           else append_file (out r) (concat (map (\<lambda>l. l @ [newline]) ls)) (append_file (out r) (l @ [newline]) fs))"
    "lines_of (concat (map (\<lambda>l. l @ [newline]) ls)) = ls"
    "list_all2 (\<lambda>l e. classify parse l = Captured (captured e)) ls es" by (metis list.set_intros(2))
  with l show ?case
    by (intro exI [of _ "l # ls"]) (auto simp: record_event_def lines_of_line append_file_append)
qed

lemma line_events_captured:
  "list_all2 (\<lambda>l e. classify parse l = Captured (captured e)) ls es \<Longrightarrow>
     concat (map (line_events parse) (zip ls nows)) =
       map2 (\<lambda>e now. (captured e)\<lparr>ingest_time := now\<rparr>) es nows \<and>
     malformed_count parse ls = 0 \<and> (\<forall>l \<in> set ls. no_overflow parse l)"
proof (induction ls es arbitrary: nows rule: list_all2_induct)
  case Nil
  then show ?case by simp
next
  case (Cons l ls e es)
  then show ?case by (cases nows) (auto simp: line_events_def)
qed

lemma recorded_replays:
  assumes "json_codec parse dump" "\<forall>e \<in> set es. writable_event e" "length es < length nows"
    and "fs p = None \<or> fs p = Some []" "EventRecorder_new writable p fs = Inr (r, fs0)"
  shows "\<exists>fs' s s'. record_all dump r es fs0 = Inr fs' \<and> ReplaySource_start fs' (ReplaySource_new p) = (s, None) \<and>
    read_loop (replay_iface fs' parse) (map Input nows) s =
      (map2 (\<lambda>e now. (captured e)\<lparr>ingest_time := now\<rparr>) es nows, s', Some Finished) \<and> lines_malformed s' = 0"
proof -
  have r: "out r = p" "fs0 p = Some []"
    using assms(4,5) by (auto simp: EventRecorder_new_def split: if_splits)
  obtain ls where rec: "record_all dump r es fs0 =
      Inr (if es = [] then fs0 else append_file p (concat (map (\<lambda>l. l @ [newline]) ls)) fs0)"
    and ls: "lines_of (concat (map (\<lambda>l. l @ [newline]) ls)) = ls"
      "list_all2 (\<lambda>l e. classify parse l = Captured (captured e)) ls es"
    using record_all_lines [OF assms(1,2), of r fs0] r(1) by auto
  define fs' where "fs' = (if es = [] then fs0 else append_file p (concat (map (\<lambda>l. l @ [newline]) ls)) fs0)"
  have "ls = [] \<longleftrightarrow> es = []" using ls(2) by (auto dest: list_all2_lengthD)
  then have cap: "fs' p = Some (concat (map (\<lambda>l. l @ [newline]) ls))"
    using r(2) by (auto simp: fs'_def append_file_def)
  let ?s = "(ReplaySource_new p)\<lparr>ins := Good (concat (map (\<lambda>l. l @ [newline]) ls))\<rparr>"
  have "read_loop (replay_iface fs' parse) (map Input nows) ?s =
      (map2 (\<lambda>e now. (captured e)\<lparr>ingest_time := now\<rparr>) es nows, ?s\<lparr>ins := Failed, lines_malformed := 0\<rparr>, Some Finished)"
    using line_events_captured [OF ls(2), of nows] list_all2_lengthD [OF ls(2)] ls(1) assms(3)
    by (subst read_loop_replay) (auto simp: ReplaySource_new_def)
  moreover have "ReplaySource_start fs' (ReplaySource_new p) = (?s, None)"
    using cap by (simp add: ReplaySource_start_def ReplaySource_new_def)
  ultimately show ?thesis using rec unfolding fs'_def [symmetric] by auto
qed

section \<open>Properties\<close>

text \<open>
  C14: what the recorder has written, the replay source reads back. Recording a list of events, each with a non-empty
  symbol, UTF-8 text and a finite price (\<^verbatim>\<open>writable_event\<close>), to a new or empty capture file succeeds;
  replaying that file yields exactly these events, in order, none missing and none malformed, with their
  event times truncated to milliseconds and the receive time stamped anew; then the source reports the end.
\<close>

theorem record_replay_roundtrip:
  assumes "json_codec parse dump" "\<forall>e \<in> set es. writable_event e" "length es < length nows"
    and "fs p = None \<or> fs p = Some []" "EventRecorder_new writable p fs = Inr (r, fs0)"
  shows "\<exists>fs' s s'. record_all dump r es fs0 = Inr fs' \<and> ReplaySource_start fs' (ReplaySource_new p) = (s, None) \<and>
    read_loop (replay_iface fs' parse) (map Input nows) s =
      (map2 (\<lambda>e now. (captured e)\<lparr>ingest_time := now\<rparr>) es nows, s', Some Finished) \<and> lines_malformed s' = 0"
  by (rule recorded_replays [OF assms])

theorem record_replay_roundtrip_witness:
  "\<exists>fs' s s'. record_all ref_dump \<lparr>out = ''cap''\<rparr> [sample_event] [''cap'' \<mapsto> []] = Inr fs' \<and>
    ReplaySource_start fs' (ReplaySource_new ''cap'') = (s, None) \<and>
    read_loop (replay_iface fs' ref_parse) (map Input [5, 6]) s =
      ([(captured sample_event)\<lparr>ingest_time := 5\<rparr>], s', Some Finished) \<and> lines_malformed s' = 0"
proof -
  have "\<forall>e \<in> set [sample_event]. writable_event e" using sample_writable by simp
  moreover have "EventRecorder_new (\<lambda>_. True) ''cap'' Map.empty = Inr (\<lparr>out = ''cap''\<rparr>, [''cap'' \<mapsto> []])"
    by (simp add: EventRecorder_new_def)
  ultimately show ?thesis
    using record_replay_roundtrip [OF ref_json.json_codec_axioms, of "[sample_event]" "[5, 6]" Map.empty "''cap''"]
    by simp
qed

text \<open>
  C17: the replay source reads a capture file line by line, in file order: it yields the event of
  every line that holds a valid event and nothing else, counts every non-empty line that is
  malformed, and passes over empty lines; a malformed line never ends the replay.
\<close>

theorem replay_reads_file:
  assumes "fs p = Some c" "\<forall>l \<in> set (lines_of c). no_overflow parse l" "length (lines_of c) < length nows"
  shows "\<exists>s s'. ReplaySource_start fs (ReplaySource_new p) = (s, None) \<and>
    read_loop (replay_iface fs parse) (map Input nows) s =
      (concat (map (line_events parse) (zip (lines_of c) nows)), s', Some Finished) \<and>
    lines_malformed s' = of_nat (malformed_count parse (lines_of c))"
proof -
  let ?s = "(ReplaySource_new p)\<lparr>ins := Good c\<rparr>"
  have "ReplaySource_start fs (ReplaySource_new p) = (?s, None)"
    using assms(1) by (simp add: ReplaySource_start_def ReplaySource_new_def)
  with assms read_loop_replay [of ?s c parse nows fs] show ?thesis
    by (auto simp: ReplaySource_new_def)
qed

text \<open>A capture file with an empty line, a line that is not JSON, an event, and a last line without a line break.\<close>

definition sample_capture :: string where
  "sample_capture = newline # ''bad{'' @ newline # show_json (marketEventToJson sample_event) @ newline # ''{}''"

lemma sample_capture_lines:
  "lines_of sample_capture = [[], ''bad{'', show_json (marketEventToJson sample_event), ''{}'']"
proof -
  have "lines_of ''{}'' = [''{}'']" by code_simp
  then show ?thesis
    using lines_of_line [of "[]"] lines_of_line [of "''bad{''"]
      lines_of_line [OF show_no_newline, of "marketEventToJson sample_event" "''{}''"]
    by (simp add: sample_capture_def)
qed

lemma ref_dump_Inr: "ref_dump j = Inr l \<Longrightarrow> l = show_json j"
  by (simp add: ref_dump_def split: if_splits)

lemma sample_capture_kinds:
  "classify ref_parse [] = Blank" "classify ref_parse ''bad{'' = Malformed" "classify ref_parse ''{}'' = Malformed"
  by code_simp+

lemma sample_capture_event:
  "classify ref_parse (show_json (marketEventToJson sample_event)) = Captured (captured sample_event)"
  using captured_line [OF ref_json.json_codec_axioms sample_writable] by (metis ref_dump_Inr)

theorem replay_reads_file_witness:
  "\<exists>s s'. ReplaySource_start [''f'' \<mapsto> sample_capture] (ReplaySource_new ''f'') = (s, None) \<and>
    read_loop (replay_iface [''f'' \<mapsto> sample_capture] ref_parse) (map Input [1, 2, 3, 4, 5]) s =
      ([(captured sample_event)\<lparr>ingest_time := 3\<rparr>], s', Some Finished) \<and>
    lines_malformed s' = 2"
  using replay_reads_file [of "[''f'' \<mapsto> sample_capture]" "''f''" sample_capture ref_parse "[1, 2, 3, 4, 5]"]
  by (simp add: sample_capture_lines sample_capture_kinds sample_capture_event line_events_def)

text \<open>
  \<^verbatim>\<open>ReplaySource::next()\<close> always returns: whatever calls of \<^verbatim>\<open>stop()\<close> other threads make meanwhile, it
  makes at most one pass more than there are lines left in the file.
\<close>

lemma replay_next_returns:
  assumes "lines_left s < count_if (\<lambda>t. t \<noteq> Stop_call) ts"
  shows "ReplaySource_next parse ts s \<noteq> None"
  using assms
proof (induction ts arbitrary: s)
  case Nil
  then show ?case by simp
next
  case (Cons t ts)
  show ?case
  proof (cases t)
    case (Input now)
    obtain s' r where step: "ReplaySource_step parse now s = (s', r)" by fastforce
    show ?thesis
    proof (cases "r = Again")
      case True
      with step step_uses_line have "lines_left s' < lines_left s" by blast
      with Cons Input have "ReplaySource_next parse ts s' \<noteq> None" by (intro Cons.IH) simp
      with step Input True show ?thesis by (simp add: ReplaySource_next_def replay_iface_def)
    next
      case False
      with step Input show ?thesis
        by (simp add: ReplaySource_next_def replay_iface_def split: next_result.split)
    qed
  next
    case Stop_call
    with Cons show ?thesis by (simp add: ReplaySource_next_def replay_iface_def)
  qed
qed

lemma replay_next_returns_witness:
  "ReplaySource_next ref_parse [Input 1, Stop_call, Input 2, Input 3]
     ((ReplaySource_new ''f'')\<lparr>ins := Good ([newline] @ ''bad{'')\<rparr>) \<noteq> None"
proof -
  have "lines_left ((ReplaySource_new ''f'')\<lparr>ins := Good ([newline] @ ''bad{'')\<rparr>) = 2" by code_simp
  then show ?thesis by (intro replay_next_returns) simp
qed

text \<open>
  Once \<^verbatim>\<open>stop()\<close> has been called, the source reads no further line and reports the end at once, to
  every later call; the file position and the count of malformed lines stay as they are.
\<close>

lemma replay_stop_prompt:
  "ReplaySource_next parse (Stop_call # Input now # ts) s = Some (ReplaySource_stop s, Finished, ts) \<and>
   ReplaySource_next parse (Input now' # ts') (ReplaySource_stop s) = Some (ReplaySource_stop s, Finished, ts') \<and>
   ins (ReplaySource_stop s) = ins s \<and> lines_malformed (ReplaySource_stop s) = lines_malformed s"
  by (simp add: ReplaySource_next_def replay_iface_def ReplaySource_step_def ReplaySource_stop_def)

text \<open>
  C39: a line whose JSON is well-formed but holds a number too large for a double is not counted and
  skipped as malformed: the exception of the JSON parser leaves \<^verbatim>\<open>next()\<close>, for any such line and
  whatever follows it.
\<close>

theorem replay_number_overflow_escapes:
  assumes "\<not> stop_requested s" "ins s = Good (line @ newline # rest)" "newline \<notin> set line" "line \<noteq> []"
    and "parse line = Inl (Out_of_range what)"
  shows "\<exists>s'. ReplaySource_next parse (Input now # ts) s = Some (s', Raised (Json_exn (Out_of_range what)), ts) \<and>
    lines_malformed s' = lines_malformed s"
proof -
  have "classify parse line = Overflow (Out_of_range what)" using assms(4,5) by (simp add: classify_def)
  then obtain c' where "ReplaySource_step parse now s = (s\<lparr>ins := Good c'\<rparr>, Raised (Json_exn (Out_of_range what)))"
    by - (rule step_on_line [OF assms(1,2) lines_of_line [OF assms(3)], of parse now], simp)
  then show ?thesis by (simp add: ReplaySource_next_def replay_iface_def)
qed

theorem replay_number_overflow_escapes_witness:
  "\<exists>s'. ReplaySource_next (\<lambda>_. Inl (Out_of_range ''406'')) [Input 1]
        ((ReplaySource_new ''f'')\<lparr>ins := Good (''1e999'' @ newline # [])\<rparr>) =
      Some (s', Raised (Json_exn (Out_of_range ''406'')), []) \<and>
    lines_malformed s' = lines_malformed ((ReplaySource_new ''f'')\<lparr>ins := Good (''1e999'' @ newline # [])\<rparr>)"
  by (rule replay_number_overflow_escapes [of _ "''1e999''" "[]"]) (simp_all add: ReplaySource_new_def)

end
