(* ===== verification/Test_Doubles.thy ===== *)
theory Test_Doubles
  imports Interfaces
begin

text \<open>
  The in-memory implementations of the two interfaces that the test suite uses
  (\<^verbatim>\<open>tests/fake_event_publisher.hpp\<close>, \<^verbatim>\<open>tests/fake_infinite_source.hpp\<close>). They keep the contracts of the
  interfaces, and the results on the pipeline are exercised on them as the tests exercise the code.
\<close>

section \<open>FakeEventPublisher\<close>

record FakeEventPublisher =
  fake_published :: "MarketEvent list"
  fail_next_n :: int
  flush_called :: bool

definition FakeEventPublisher_new :: FakeEventPublisher where
  "FakeEventPublisher_new = \<lparr>fake_published = [], fail_next_n = 0, flush_called = False\<rparr>"

definition failNextN :: "int \<Rightarrow> FakeEventPublisher \<Rightarrow> FakeEventPublisher" where
  "failNextN n p = p\<lparr>fail_next_n := n\<rparr>"

definition fake_publish :: "MarketEvent \<Rightarrow> FakeEventPublisher \<Rightarrow> FakeEventPublisher \<times> (cpp_exn + bool)" where
  "fake_publish event p =
     (if 0 < fail_next_n p then (p\<lparr>fail_next_n := fail_next_n p - 1\<rparr>, Inr False)
      else (p\<lparr>fake_published := fake_published p @ [event]\<rparr>, Inr True))"

definition fake_flush :: "FakeEventPublisher \<Rightarrow> FakeEventPublisher" where
  "fake_flush p = p\<lparr>flush_called := True\<rparr>"

definition fake_publisher_iface :: "(unit, FakeEventPublisher) publisher_iface" where
  "fake_publisher_iface = \<lparr>pub_publish = (\<lambda>_. fake_publish), pub_flush = (\<lambda>_. fake_flush)\<rparr>"

interpretation fake_publisher: event_publisher fake_publisher_iface "\<lambda>_. True" fake_published id
  by unfold_locales (auto simp: fake_publisher_iface_def fake_publish_def fake_flush_def split: if_splits)

section \<open>FakeInfiniteSource\<close>

record FakeInfiniteSource =
  inf_stop_requested :: bool
  produced :: "32 word"

definition FakeInfiniteSource_new :: FakeInfiniteSource where
  "FakeInfiniteSource_new = \<lparr>inf_stop_requested = False, produced = 0\<rparr>"

definition infinite_start :: "FakeInfiniteSource \<Rightarrow> FakeInfiniteSource \<times> cpp_exn option" where
  "infinite_start s = (s\<lparr>inf_stop_requested := False\<rparr>, None)"

definition infinite_stop :: "FakeInfiniteSource \<Rightarrow> FakeInfiniteSource" where
  "infinite_stop s = s\<lparr>inf_stop_requested := True\<rparr>"

definition infinite_next :: "FakeInfiniteSource \<Rightarrow> FakeInfiniteSource \<times> next_result" where
  "infinite_next s =
     (if inf_stop_requested s then (s, Finished)
      else (s\<lparr>produced := produced s + 1\<rparr>,
            Event (MarketEvent_default\<lparr>symbol := ''TESTUSDT'', price := 0x3FF0000000000000\<rparr>)))"

definition infinite_iface :: "(unit, FakeInfiniteSource) source_iface" where
  "infinite_iface = \<lparr>src_start = infinite_start, src_stop = infinite_stop, src_step = (\<lambda>_. infinite_next)\<rparr>"

interpretation infinite: market_data_source infinite_iface "\<lambda>_. True" inf_stop_requested "\<lambda>_. 0"
  by unfold_locales (auto simp: infinite_iface_def infinite_start_def infinite_stop_def infinite_next_def split: if_splits)

lemma infinite_never_ends:
  "\<not> inf_stop_requested s \<Longrightarrow> \<exists>s' e. src_step infinite_iface i s = (s', Event e) \<and> \<not> inf_stop_requested s'"
  by (simp add: infinite_iface_def infinite_next_def)

end
