(* ===== verification/Ingestion_Pipeline.thy ===== *)
theory Ingestion_Pipeline
  imports Bounded_Queue Recorder_Replay Test_Doubles
begin

text \<open>
  \<^verbatim>\<open>IngestionPipeline\<close> (\<^verbatim>\<open>include/tickforge/ingestion_pipeline.hpp\<close>, \<^verbatim>\<open>src/ingestion_pipeline.cpp\<close>): the
  ingest thread, the publish thread and the thread that owns the pipeline, as one transition system.
  Each thread is at one of the points of its function between which other threads can be observed;
  the queue operations are the ones of \<^verbatim>\<open>Bounded_Queue\<close>, a thread whose attempt is \<^const>\<open>Blocked\<close> has no
  step. An exception that leaves a thread function terminates the process: no thread has a step then.
\<close>

section \<open>State\<close>

datatype ingest_point =
    I_unborn
  | I_next                  \<comment> \<open>about to make a pass of \<^verbatim>\<open>source_->next\<close>\<close>
  | I_count MarketEvent     \<comment> \<open>before \<^verbatim>\<open>++events_received_\<close>\<close>
  | I_record MarketEvent
  | I_push MarketEvent
  | I_finish                \<comment> \<open>before \<^verbatim>\<open>ingest_finished_ = true\<close>\<close>
  | I_exited

datatype publish_point =
    P_unborn
  | P_pop
  | P_publish MarketEvent
  | P_count bool            \<comment> \<open>the result of \<^verbatim>\<open>publish\<close>, before its counter is incremented\<close>
  | P_flush
  | P_exited

datatype owner_point =
    O_idle
  | O_spawn_ingest | O_spawn_publish                \<comment> \<open>inside \<^verbatim>\<open>start()\<close>\<close>
  | O_join_ingest | O_shutdown | O_join_publish     \<comment> \<open>inside \<^verbatim>\<open>stop()\<close>\<close>

record ('s, 'p) IngestionPipeline =
  src :: 's
  publisher :: 'p
  optional_recorder :: "EventRecorder option"
  evq :: "MarketEvent BoundedQueue"
  events_received :: u64
  events_published :: u64
  publish_failures :: u64
  ingest_finished :: bool
  started :: bool
  stopped :: bool
  ingest_thread :: ingest_point
  publish_thread :: publish_point
  owner_thread :: owner_point
  disk :: files                            \<comment> \<open>the files the recorder writes to\<close>
  terminated :: "cpp_exn option"           \<comment> \<open>the exception that ended the process\<close>
  fetched :: "MarketEvent list"            \<comment> \<open>history: what \<^verbatim>\<open>next\<close> has returned\<close>
  handled :: "(MarketEvent \<times> bool) list"   \<comment> \<open>history: the calls of \<^verbatim>\<open>publish\<close> with their results\<close>
  flushes :: "nat list"                    \<comment> \<open>history: the calls of \<^verbatim>\<open>flush\<close>, each with the number of events handled before it\<close>

definition IngestionPipeline_new ::
    "'s \<Rightarrow> 'p \<Rightarrow> nat \<Rightarrow> EventRecorder option \<Rightarrow> files \<Rightarrow> ('s, 'p) IngestionPipeline" where
  "IngestionPipeline_new s p queue_capacity rec fs =
     \<lparr>src = s, publisher = p, optional_recorder = rec, evq = BoundedQueue_new queue_capacity,
      events_received = 0, events_published = 0, publish_failures = 0, ingest_finished = False,
      started = False, stopped = False, ingest_thread = I_unborn, publish_thread = P_unborn,
      owner_thread = O_idle, disk = fs, terminated = None, fetched = [], handled = [], flushes = []\<rparr>"

section \<open>The operations of the owner\<close>

definition pipeline_start ::
    "('i, 's) source_iface \<Rightarrow> ('s, 'p) IngestionPipeline \<Rightarrow> ('s, 'p) IngestionPipeline \<times> cpp_exn option" where
  "pipeline_start S p =
     (case src_start S (src p) of
        (s, Some e) \<Rightarrow> (p\<lparr>src := s\<rparr>, Some e)
      | (s, None) \<Rightarrow> (p\<lparr>src := s, started := True, owner_thread := O_spawn_ingest\<rparr>, None))"

definition requestStop :: "('i, 's) source_iface \<Rightarrow> ('s, 'p) IngestionPipeline \<Rightarrow> ('s, 'p) IngestionPipeline" where
  "requestStop S p = (if started p then p\<lparr>src := src_stop S (src p)\<rparr> else p)"

definition pipeline_stop :: "('s, 'p) IngestionPipeline \<Rightarrow> ('s, 'p) IngestionPipeline" where
  "pipeline_stop p = (if stopped p \<or> \<not> started p then p else p\<lparr>owner_thread := O_join_ingest\<rparr>)"

text \<open>The destructor: \<^verbatim>\<open>requestStop(); stop();\<close>\<close>

definition pipeline_destroy :: "('i, 's) source_iface \<Rightarrow> ('s, 'p) IngestionPipeline \<Rightarrow> ('s, 'p) IngestionPipeline" where
  "pipeline_destroy S p = pipeline_stop (requestStop S p)"

text \<open>What is left of \<^verbatim>\<open>start()\<close> after the source has started, and of \<^verbatim>\<open>stop()\<close> after its guard.\<close>

definition owner_step :: "('s, 'p) IngestionPipeline \<Rightarrow> ('s, 'p) IngestionPipeline option" where
  "owner_step p =
     (case owner_thread p of
        O_idle \<Rightarrow> None
      | O_spawn_ingest \<Rightarrow> Some (p\<lparr>ingest_thread := I_next, owner_thread := O_spawn_publish\<rparr>)
      | O_spawn_publish \<Rightarrow> Some (p\<lparr>publish_thread := P_pop, owner_thread := O_idle\<rparr>)
      | O_join_ingest \<Rightarrow> if ingest_thread p = I_exited then Some (p\<lparr>owner_thread := O_shutdown\<rparr>) else None
      | O_shutdown \<Rightarrow> Some (p\<lparr>evq := shutdown (evq p), owner_thread := O_join_publish\<rparr>)
      | O_join_publish \<Rightarrow>
          if publish_thread p = P_exited then Some (p\<lparr>stopped := True, owner_thread := O_idle\<rparr>) else None)"

record Stats =
  st_received :: u64
  st_published :: u64
  st_failures :: u64
  st_high_water_mark :: nat
  st_capacity :: nat

definition stats :: "('s, 'p) IngestionPipeline \<Rightarrow> Stats" where
  "stats p = \<lparr>st_received = events_received p, st_published = events_published p,
     st_failures = publish_failures p, st_high_water_mark = highWaterMark (evq p),
     st_capacity = capacity (evq p)\<rparr>"

definition queueDepth :: "('s, 'p) IngestionPipeline \<Rightarrow> nat" where
  "queueDepth p = bq_size (evq p)"

section \<open>The two threads\<close>

definition runIngest_step ::
    "('i, 's) source_iface \<Rightarrow> json_dumper \<Rightarrow> 'i \<Rightarrow> ('s, 'p) IngestionPipeline \<Rightarrow> ('s, 'p) IngestionPipeline option" where
  "runIngest_step S dump i p =
     (case ingest_thread p of
        I_unborn \<Rightarrow> None
      | I_next \<Rightarrow>
          (case src_step S i (src p) of
             (s, Event e) \<Rightarrow> Some (p\<lparr>src := s, ingest_thread := I_count e, fetched := fetched p @ [e]\<rparr>)
           | (s, Finished) \<Rightarrow> Some (p\<lparr>src := s, ingest_thread := I_finish\<rparr>)
           | (s, Again) \<Rightarrow> Some (p\<lparr>src := s\<rparr>)
           | (s, Raised x) \<Rightarrow> Some (p\<lparr>src := s, terminated := Some x\<rparr>))
      | I_count e \<Rightarrow> Some (p\<lparr>events_received := events_received p + 1, ingest_thread := I_record e\<rparr>)
      | I_record e \<Rightarrow>
          (case optional_recorder p of
             None \<Rightarrow> Some (p\<lparr>ingest_thread := I_push e\<rparr>)
           | Some r \<Rightarrow>
               (case record_event dump r e (disk p) of
                  Inl x \<Rightarrow> Some (p\<lparr>terminated := Some x\<rparr>)
                | Inr fs \<Rightarrow> Some (p\<lparr>disk := fs, ingest_thread := I_push e\<rparr>)))
      | I_push e \<Rightarrow>
          (case push e (evq p) of
             Blocked \<Rightarrow> None
           | Done (ok, q) \<Rightarrow> Some (p\<lparr>evq := q, ingest_thread := if ok then I_next else I_finish\<rparr>))
      | I_finish \<Rightarrow> Some (p\<lparr>ingest_finished := True, ingest_thread := I_exited\<rparr>)
      | I_exited \<Rightarrow> None)"

definition runPublish_step ::
    "('j, 'p) publisher_iface \<Rightarrow> 'j \<Rightarrow> ('s, 'p) IngestionPipeline \<Rightarrow> ('s, 'p) IngestionPipeline option" where
  "runPublish_step P j p =
     (case publish_thread p of
        P_unborn \<Rightarrow> None
      | P_pop \<Rightarrow>
          (case pop (evq p) of
             Blocked \<Rightarrow> None
           | Done (Some e, q) \<Rightarrow> Some (p\<lparr>evq := q, publish_thread := P_publish e\<rparr>)
           | Done (None, q) \<Rightarrow> Some (p\<lparr>evq := q, publish_thread := P_flush\<rparr>))
      | P_publish e \<Rightarrow>
          (case pub_publish P j e (publisher p) of
             (pb, Inl x) \<Rightarrow> Some (p\<lparr>publisher := pb, terminated := Some x\<rparr>)
           | (pb, Inr ok) \<Rightarrow>
               Some (p\<lparr>publisher := pb, publish_thread := P_count ok, handled := handled p @ [(e, ok)]\<rparr>))
      | P_count ok \<Rightarrow>
          Some ((if ok then p\<lparr>events_published := events_published p + 1\<rparr>
                 else p\<lparr>publish_failures := publish_failures p + 1\<rparr>)\<lparr>publish_thread := P_pop\<rparr>)
      | P_flush \<Rightarrow>
          Some (p\<lparr>publisher := pub_flush P j (publisher p), publish_thread := P_exited, flushes := flushes p @ [length (handled p)]\<rparr>)
      | P_exited \<Rightarrow> None)"

lemmas [pipeline_defs] = runIngest_step_def runPublish_step_def owner_step_def pipeline_start_def requestStop_def
  pipeline_stop_def

section \<open>Runs\<close>

text \<open>
  The owner calls \<^verbatim>\<open>start()\<close> until it succeeds, and \<^verbatim>\<open>stop()\<close> when it likes, one call at a time;
  \<^verbatim>\<open>requestStop()\<close> may also come from another thread while the owner waits inside \<^verbatim>\<open>stop()\<close>.
\<close>

datatype ('i, 'j) action = Start | Request_stop | Stop | Owner | Ingest 'i | Publish 'j

inductive pstep ::
    "('i, 's) source_iface \<Rightarrow> ('j, 'p) publisher_iface \<Rightarrow> json_dumper \<Rightarrow> ('i, 'j) action \<Rightarrow>
     ('s, 'p) IngestionPipeline \<Rightarrow> ('s, 'p) IngestionPipeline \<Rightarrow> bool"
  for S P dump where
  start: "\<lbrakk>terminated p = None; owner_thread p = O_idle; \<not> started p\<rbrakk> \<Longrightarrow>
    pstep S P dump Start p (fst (pipeline_start S p))"
| request_stop: "\<lbrakk>terminated p = None; owner_thread p \<notin> {O_spawn_ingest, O_spawn_publish}\<rbrakk> \<Longrightarrow>
    pstep S P dump Request_stop p (requestStop S p)"
| stop: "\<lbrakk>terminated p = None; owner_thread p = O_idle\<rbrakk> \<Longrightarrow> pstep S P dump Stop p (pipeline_stop p)"
| owner: "\<lbrakk>terminated p = None; owner_step p = Some p'\<rbrakk> \<Longrightarrow> pstep S P dump Owner p p'"
| ingest: "\<lbrakk>terminated p = None; runIngest_step S dump i p = Some p'\<rbrakk> \<Longrightarrow> pstep S P dump (Ingest i) p p'"
| publish: "\<lbrakk>terminated p = None; runPublish_step P j p = Some p'\<rbrakk> \<Longrightarrow> pstep S P dump (Publish j) p p'"

inductive pruns ::
    "('i, 's) source_iface \<Rightarrow> ('j, 'p) publisher_iface \<Rightarrow> json_dumper \<Rightarrow> ('i, 'j) action list \<Rightarrow>
     ('s, 'p) IngestionPipeline \<Rightarrow> ('s, 'p) IngestionPipeline \<Rightarrow> bool"
  for S P dump where
  pruns_Nil: "pruns S P dump [] p p"
| pruns_Snoc: "pruns S P dump as p p' \<Longrightarrow> pstep S P dump a p' p'' \<Longrightarrow> pruns S P dump (as @ [a]) p p''"

text \<open>A step for each kind of action, and a run from its end.\<close>

inductive_simps pstep_iff:
  "pstep S P dump Start p p'"
  "pstep S P dump Request_stop p p'"
  "pstep S P dump Stop p p'"
  "pstep S P dump Owner p p'"
  "pstep S P dump (Ingest i) p p'"
  "pstep S P dump (Publish j) p p'"

inductive_cases pruns_NilE: "pruns S P dump [] p p'"

inductive_cases pruns_snocE: "pruns S P dump (as @ [a]) p p'"

text \<open>The same, as a function that follows a schedule: \<^const>\<open>None\<close> when a step of it is not possible.\<close>

definition do_action ::
    "('i, 's) source_iface \<Rightarrow> ('j, 'p) publisher_iface \<Rightarrow> json_dumper \<Rightarrow> ('i, 'j) action \<Rightarrow>
     ('s, 'p) IngestionPipeline \<Rightarrow> ('s, 'p) IngestionPipeline option" where
  "do_action S P dump a p =
     (if terminated p \<noteq> None then None
      else case a of
        Start \<Rightarrow> if owner_thread p = O_idle \<and> \<not> started p then Some (fst (pipeline_start S p)) else None
      | Request_stop \<Rightarrow>
          if owner_thread p \<notin> {O_spawn_ingest, O_spawn_publish} then Some (requestStop S p) else None
      | Stop \<Rightarrow> if owner_thread p = O_idle then Some (pipeline_stop p) else None
      | Owner \<Rightarrow> owner_step p
      | Ingest i \<Rightarrow> runIngest_step S dump i p
      | Publish j \<Rightarrow> runPublish_step P j p)"

definition do_actions ::
    "('i, 's) source_iface \<Rightarrow> ('j, 'p) publisher_iface \<Rightarrow> json_dumper \<Rightarrow> ('i, 'j) action list \<Rightarrow>
     ('s, 'p) IngestionPipeline \<Rightarrow> ('s, 'p) IngestionPipeline option" where
  "do_actions S P dump as p = fold (\<lambda>a r. Option.bind r (do_action S P dump a)) as (Some p)"

lemma do_action_pstep: "do_action S P dump a p = Some p' \<longleftrightarrow> pstep S P dump a p p'"
  by (cases a) (auto simp: do_action_def pstep_iff)

lemma do_actions_snoc: "do_actions S P dump (as @ [a]) p = Option.bind (do_actions S P dump as p) (do_action S P dump a)"
  by (simp add: do_actions_def)

lemma do_actions_pruns: "do_actions S P dump as p = Some p' \<longleftrightarrow> pruns S P dump as p p'"
proof
  show "do_actions S P dump as p = Some p' \<Longrightarrow> pruns S P dump as p p'"
  proof (induction as arbitrary: p' rule: rev_induct)
    case Nil
    then show ?case by (simp add: do_actions_def pruns_Nil)
  next
    case (snoc a as)
    then show ?case by (auto simp: do_actions_snoc bind_eq_Some_conv do_action_pstep intro: pruns_Snoc)
  qed
next
  show "pruns S P dump as p p' \<Longrightarrow> do_actions S P dump as p = Some p'"
  proof (induction rule: pruns.induct)
    case (pruns_Snoc as p p' a p'')
    then show ?case by (simp add: do_actions_snoc do_action_pstep [symmetric])
  qed (simp add: do_actions_def)
qed

section \<open>The steps of each thread, case by case\<close>

lemma ingest_cases:
  assumes "runIngest_step S dump i p = Some p'"
  obtains
    (event) s e where "ingest_thread p = I_next" "src_step S i (src p) = (s, Event e)"
      "p' = p\<lparr>src := s, ingest_thread := I_count e, fetched := fetched p @ [e]\<rparr>"
  | (finished) s where "ingest_thread p = I_next" "src_step S i (src p) = (s, Finished)"
      "p' = p\<lparr>src := s, ingest_thread := I_finish\<rparr>"
  | (again) s where "ingest_thread p = I_next" "src_step S i (src p) = (s, Again)" "p' = p\<lparr>src := s\<rparr>"
  | (raised) s x where "ingest_thread p = I_next" "src_step S i (src p) = (s, Raised x)"
      "p' = p\<lparr>src := s, terminated := Some x\<rparr>"
  | (counted) e where "ingest_thread p = I_count e"
      "p' = p\<lparr>events_received := events_received p + 1, ingest_thread := I_record e\<rparr>"
  | (no_recorder) e where "ingest_thread p = I_record e" "optional_recorder p = None"
      "p' = p\<lparr>ingest_thread := I_push e\<rparr>"
  | (record_raised) e r x where "ingest_thread p = I_record e" "optional_recorder p = Some r"
      "record_event dump r e (disk p) = Inl x" "p' = p\<lparr>terminated := Some x\<rparr>"
  | (recorded) e r fs where "ingest_thread p = I_record e" "optional_recorder p = Some r"
      "record_event dump r e (disk p) = Inr fs" "p' = p\<lparr>disk := fs, ingest_thread := I_push e\<rparr>"
  | (pushed) e ok q where "ingest_thread p = I_push e" "push e (evq p) = Done (ok, q)"
      "p' = p\<lparr>evq := q, ingest_thread := if ok then I_next else I_finish\<rparr>"
  | (exited) "ingest_thread p = I_finish" "p' = p\<lparr>ingest_finished := True, ingest_thread := I_exited\<rparr>"
proof (cases "ingest_thread p")
  case I_next
  obtain s r where sr: "src_step S i (src p) = (s, r)" by fastforce
  show thesis
    using assms I_next sr event finished again raised by (cases r) (simp_all add: runIngest_step_def)
next
  case (I_record e)
  show thesis
  proof (cases "optional_recorder p")
    case None
    with I_record assms no_recorder show thesis by (simp add: runIngest_step_def)
  next
    case (Some r)
    with I_record assms record_raised recorded show thesis
      by (cases "record_event dump r e (disk p)") (simp_all add: runIngest_step_def)
  qed
next
  case (I_push e)
  with assms obtain ok q where "push e (evq p) = Done (ok, q)"
    by (cases "push e (evq p)") (auto simp: runIngest_step_def)
  with I_push assms pushed show thesis by (simp add: runIngest_step_def)
next
  case (I_count e)
  then show thesis by (rule counted) (use assms I_count in \<open>simp add: runIngest_step_def\<close>)
next
  case I_finish
  then show thesis by (rule exited) (use assms I_finish in \<open>simp add: runIngest_step_def\<close>)
next
  case I_unborn
  with assms have False by (simp add: runIngest_step_def)
  then show thesis ..
next
  case I_exited
  with assms have False by (simp add: runIngest_step_def)
  then show thesis ..
qed

lemma publish_cases:
  assumes "runPublish_step P j p = Some p'"
  obtains
    (popped) e q where "publish_thread p = P_pop" "pop (evq p) = Done (Some e, q)"
      "p' = p\<lparr>evq := q, publish_thread := P_publish e\<rparr>"
  | (drained) q where "publish_thread p = P_pop" "pop (evq p) = Done (None, q)"
      "p' = p\<lparr>evq := q, publish_thread := P_flush\<rparr>"
  | (raised) e pb x where "publish_thread p = P_publish e" "pub_publish P j e (publisher p) = (pb, Inl x)"
      "p' = p\<lparr>publisher := pb, terminated := Some x\<rparr>"
  | (published) e pb ok where "publish_thread p = P_publish e" "pub_publish P j e (publisher p) = (pb, Inr ok)"
      "p' = p\<lparr>publisher := pb, publish_thread := P_count ok, handled := handled p @ [(e, ok)]\<rparr>"
  | (counted_ok) "publish_thread p = P_count True"
      "p' = p\<lparr>events_published := events_published p + 1, publish_thread := P_pop\<rparr>"
  | (counted_failure) "publish_thread p = P_count False"
      "p' = p\<lparr>publish_failures := publish_failures p + 1, publish_thread := P_pop\<rparr>"
  | (flushed) "publish_thread p = P_flush"
      "p' = p\<lparr>publisher := pub_flush P j (publisher p), publish_thread := P_exited, flushes := flushes p @ [length (handled p)]\<rparr>"
proof (cases "publish_thread p")
  case P_pop
  with assms obtain r q where rq: "pop (evq p) = Done (r, q)"
    by (cases "pop (evq p)") (auto simp: runPublish_step_def)
  with P_pop assms popped drained show thesis by (cases r) (simp_all add: runPublish_step_def)
next
  case (P_publish e)
  obtain pb r where "pub_publish P j e (publisher p) = (pb, r)" by fastforce
  with P_publish assms raised published show thesis by (cases r) (simp_all add: runPublish_step_def)
next
  case (P_count ok)
  with assms counted_ok counted_failure show thesis by (cases ok) (simp_all add: runPublish_step_def)
next
  case P_flush
  then show thesis by (rule flushed) (use assms P_flush in \<open>simp add: runPublish_step_def\<close>)
qed (use assms in \<open>simp_all add: runPublish_step_def\<close>)

lemma owner_cases:
  assumes "owner_step p = Some p'"
  obtains
    (spawn_ingest) "owner_thread p = O_spawn_ingest"
      "p' = p\<lparr>ingest_thread := I_next, owner_thread := O_spawn_publish\<rparr>"
  | (spawn_publish) "owner_thread p = O_spawn_publish"
      "p' = p\<lparr>publish_thread := P_pop, owner_thread := O_idle\<rparr>"
  | (joined_ingest) "owner_thread p = O_join_ingest" "ingest_thread p = I_exited"
      "p' = p\<lparr>owner_thread := O_shutdown\<rparr>"
  | (shut) "owner_thread p = O_shutdown" "p' = p\<lparr>evq := shutdown (evq p), owner_thread := O_join_publish\<rparr>"
  | (joined_publish) "owner_thread p = O_join_publish" "publish_thread p = P_exited"
      "p' = p\<lparr>stopped := True, owner_thread := O_idle\<rparr>"
proof (cases "owner_thread p")
  case O_spawn_ingest
  then show thesis by (rule spawn_ingest) (use assms O_spawn_ingest in \<open>simp add: owner_step_def\<close>)
next
  case O_spawn_publish
  then show thesis by (rule spawn_publish) (use assms O_spawn_publish in \<open>simp add: owner_step_def\<close>)
next
  case O_join_ingest
  then show thesis by (rule joined_ingest) (use assms O_join_ingest in \<open>simp_all add: owner_step_def split: if_splits\<close>)
next
  case O_shutdown
  then show thesis by (rule shut) (use assms O_shutdown in \<open>simp add: owner_step_def\<close>)
next
  case O_join_publish
  then show thesis by (rule joined_publish) (use assms O_join_publish in \<open>simp_all add: owner_step_def split: if_splits\<close>)
qed (use assms in \<open>simp add: owner_step_def\<close>)

lemma call_cases:
  assumes "pstep S P dump a p p'" "a \<in> {Start, Request_stop, Stop}"
  obtains
    (start_raised) s e where "owner_thread p = O_idle" "\<not> started p" "src_start S (src p) = (s, Some e)"
      "p' = p\<lparr>src := s\<rparr>"
  | (started) s where "owner_thread p = O_idle" "\<not> started p" "src_start S (src p) = (s, None)"
      "p' = p\<lparr>src := s, started := True, owner_thread := O_spawn_ingest\<rparr>"
  | (stop_source) "started p" "p' = p\<lparr>src := src_stop S (src p)\<rparr>" "a = Request_stop"
  | (nothing) "p' = p"
  | (stop_begins) "started p" "\<not> stopped p" "owner_thread p = O_idle" "p' = p\<lparr>owner_thread := O_join_ingest\<rparr>"
  using assms(1)
proof cases
  case start
  obtain s x where sx: "src_start S (src p) = (s, x)" by fastforce
  with start start_raised started show thesis by (cases x) (simp_all add: pipeline_start_def)
next
  case request_stop
  show thesis
  proof (cases "started p")
    case True
    then show thesis by (rule stop_source) (use request_stop True in \<open>simp_all add: requestStop_def\<close>)
  next
    case False
    show thesis by (rule nothing) (use request_stop False in \<open>simp add: requestStop_def\<close>)
  qed
next
  case stop
  show thesis
  proof (cases "stopped p \<or> \<not> started p")
    case True
    show thesis by (rule nothing) (use stop True in \<open>simp add: pipeline_stop_def\<close>)
  next
    case False
    show thesis by (rule stop_begins) (use stop False in \<open>simp_all add: pipeline_stop_def\<close>)
  qed
qed (use assms(2) in simp_all)

lemma pstep_cases:
  assumes "pstep S P dump a p p'"
  obtains (call) "a \<in> {Start, Request_stop, Stop}" | (owner) "a = Owner" "owner_step p = Some p'"
  | (ingest) i where "a = Ingest i" "runIngest_step S dump i p = Some p'"
  | (publish) j where "a = Publish j" "runPublish_step P j p = Some p'"
  using assms by cases auto

section \<open>Control\<close>

definition ctl_inv :: "('s, 'p) IngestionPipeline \<Rightarrow> bool" where
  "ctl_inv p \<longleftrightarrow>
     (\<not> started p \<longrightarrow> owner_thread p = O_idle \<and> ingest_thread p = I_unborn \<and> \<not> stopped p) \<and>
     (owner_thread p = O_spawn_ingest \<longrightarrow> \<not> stopped p) \<and>
     (owner_thread p = O_spawn_publish \<longrightarrow> \<not> stopped p) \<and>
     (ingest_thread p = I_unborn \<longleftrightarrow> \<not> started p \<or> owner_thread p = O_spawn_ingest) \<and>
     (publish_thread p = P_unborn \<longleftrightarrow> \<not> started p \<or> owner_thread p \<in> {O_spawn_ingest, O_spawn_publish}) \<and>
     (owner_thread p \<in> {O_join_ingest, O_shutdown, O_join_publish} \<longrightarrow> \<not> stopped p) \<and>
     (owner_thread p = O_shutdown \<longrightarrow> ingest_thread p = I_exited) \<and>
     (is_shutdown (evq p) \<longleftrightarrow> owner_thread p = O_join_publish \<or> stopped p) \<and>
     (is_shutdown (evq p) \<longrightarrow> ingest_thread p = I_exited) \<and>
     (publish_thread p \<in> {P_flush, P_exited} \<longrightarrow> is_shutdown (evq p) \<and> queue (evq p) = []) \<and>
     (stopped p \<longrightarrow> publish_thread p = P_exited) \<and>
     (ingest_finished p \<longleftrightarrow> ingest_thread p = I_exited) \<and>
     flushes p = (if publish_thread p = P_exited then [length (handled p)] else [])"

lemma push_open:
  "push e q = Done (ok, q') \<Longrightarrow> \<not> is_shutdown q \<Longrightarrow>
     ok \<and> \<not> is_shutdown q' \<and> queue q' = queue q @ [e] \<and> capacity q' = capacity q"
  by (auto simp: push_Done_iff queue_ops)

lemma pop_some: "pop q = Done (Some e, q') \<Longrightarrow>
    queue q = e # queue q' \<and> is_shutdown q' = is_shutdown q \<and> capacity q' = capacity q"
  by (auto simp: pop_Done_iff queue_ops split: list.splits)

lemma pop_none: "pop q = Done (None, q') \<Longrightarrow> queue q = [] \<and> is_shutdown q \<and> q' = q"
  by (auto simp: pop_def pop_critical_def can_pop_def split: list.splits if_splits)

lemmas queue_outcomes = push_open pop_some pop_none

lemma ctl_inv_ingest:
  assumes "ctl_inv p" "runIngest_step S dump i p = Some p'"
  shows "ctl_inv p'"
  using assms(2)
proof (cases rule: ingest_cases)
  case (pushed e ok q)
  with assms(1) have "\<not> is_shutdown (evq p)" "publish_thread p \<notin> {P_flush, P_exited}" by (auto simp: ctl_inv_def)
  with pushed push_open [of e "evq p" ok q] assms(1) show ?thesis by (auto simp: ctl_inv_def)
qed (use assms(1) in \<open>simp add: ctl_inv_def\<close>)+

lemma ctl_inv_publish:
  assumes "ctl_inv p" "runPublish_step P j p = Some p'"
  shows "ctl_inv p'"
  using assms(2)
proof (cases rule: publish_cases)
  case (popped e q)
  with pop_some [of "evq p" e q] assms(1) show ?thesis by (simp add: ctl_inv_def)
next
  case (drained q)
  with pop_none [of "evq p" q] assms(1) show ?thesis by (auto simp: ctl_inv_def)
qed (use assms(1) in \<open>simp add: ctl_inv_def\<close>)+

lemma ctl_inv_owner:
  assumes "ctl_inv p" "owner_step p = Some p'"
  shows "ctl_inv p'"
  using assms(2)
proof (cases rule: owner_cases)
  case shut
  with assms(1) show ?thesis by (auto simp: ctl_inv_def queue_ops)
qed (use assms(1) in \<open>auto simp: ctl_inv_def\<close>)

lemma ctl_inv_step: "pstep S P dump a p p' \<Longrightarrow> ctl_inv p \<Longrightarrow> ctl_inv p'"
proof (cases rule: pstep_cases, assumption)
  assume step: "pstep S P dump a p p'" and inv: "ctl_inv p"
  assume "a \<in> {Start, Request_stop, Stop}"
  from step this inv show ?thesis by (cases rule: call_cases) (auto simp: ctl_inv_def)
qed (auto intro: ctl_inv_ingest ctl_inv_publish ctl_inv_owner)

lemma ctl_inv_runs:
  "pruns S P dump as p p' \<Longrightarrow> ctl_inv p \<Longrightarrow> ctl_inv p'"
  by (induction rule: pruns.induct) (auto intro: ctl_inv_step)

lemma ctl_inv_new [simp]: "ctl_inv (IngestionPipeline_new s pb c rec fs)"
  by (simp add: ctl_inv_def IngestionPipeline_new_def)

section \<open>The flow of events\<close>

text \<open>The event a thread holds between taking it and handing it on.\<close>

definition ingest_hand :: "('s, 'p) IngestionPipeline \<Rightarrow> MarketEvent list" where
  "ingest_hand p = (case ingest_thread p of I_count e \<Rightarrow> [e] | I_record e \<Rightarrow> [e] | I_push e \<Rightarrow> [e] | _ \<Rightarrow> [])"

definition publish_hand :: "('s, 'p) IngestionPipeline \<Rightarrow> MarketEvent list" where
  "publish_hand p = (case publish_thread p of P_publish e \<Rightarrow> [e] | _ \<Rightarrow> [])"

definition flow_inv :: "('s, 'p) IngestionPipeline \<Rightarrow> bool" where
  "flow_inv p \<longleftrightarrow> map fst (handled p) @ publish_hand p @ queue (evq p) @ ingest_hand p = fetched p"

definition bound_inv :: "nat \<Rightarrow> ('s, 'p) IngestionPipeline \<Rightarrow> bool" where
  "bound_inv c p \<longleftrightarrow> bq_inv (evq p) \<and> capacity (evq p) = c"

definition count_inv :: "('s, 'p) IngestionPipeline \<Rightarrow> bool" where
  "count_inv p \<longleftrightarrow>
     events_received p + (case ingest_thread p of I_count e \<Rightarrow> 1 | _ \<Rightarrow> 0) = of_nat (length (fetched p)) \<and>
     events_published p + (if publish_thread p = P_count True then 1 else 0) = of_nat (count_if snd (handled p)) \<and>
     publish_failures p + (if publish_thread p = P_count False then 1 else 0) =
       of_nat (count_if (\<lambda>h. \<not> snd h) (handled p))"

lemma count_if_append [simp]: "count_if Q (xs @ ys) = count_if Q xs + count_if Q ys"
  by (simp add: count_if_def)

lemmas hand_defs = ingest_hand_def publish_hand_def

lemma flow_inv_step:
  assumes "pstep S P dump a p p'" "ctl_inv p" "flow_inv p"
  shows "flow_inv p'"
  using assms(1)
proof (cases rule: pstep_cases)
  case call
  from assms(1) call assms(3) show ?thesis
    by (cases rule: call_cases) (simp_all add: flow_inv_def hand_defs)
next
  case owner
  from owner(2) show ?thesis
    by (cases rule: owner_cases)
      (use assms(2,3) in \<open>auto simp: flow_inv_def hand_defs queue_ops ctl_inv_def split: ingest_point.splits publish_point.splits\<close>)
next
  case (ingest i)
  from ingest(2) show ?thesis
  proof (cases rule: ingest_cases)
    case (pushed e ok q)
    with assms(2) have "\<not> is_shutdown (evq p)" by (auto simp: ctl_inv_def)
    with pushed push_open [of e "evq p" ok q] assms(3) show ?thesis by (simp add: flow_inv_def hand_defs)
  qed (use assms(3) in \<open>simp_all add: flow_inv_def hand_defs\<close>)
next
  case (publish j)
  from publish(2) show ?thesis
  proof (cases rule: publish_cases)
    case (popped e q)
    with pop_some [of "evq p" e q] assms(3) show ?thesis by (simp add: flow_inv_def hand_defs)
  next
    case (drained q)
    with pop_none [of "evq p" q] assms(3) show ?thesis by (simp add: flow_inv_def hand_defs)
  qed (use assms(3) in \<open>simp_all add: flow_inv_def hand_defs\<close>)
qed

lemma bound_inv_step:
  assumes "pstep S P dump a p p'" "bound_inv c p"
  shows "bound_inv c p'"
  using assms(1)
proof (cases rule: pstep_cases)
  case call
  from assms(1) call assms(2) show ?thesis by (cases rule: call_cases) (simp_all add: bound_inv_def)
next
  case owner
  from owner(2) assms(2) show ?thesis
    by (cases rule: owner_cases) (simp_all add: bound_inv_def bq_inv_shutdown)
next
  case (ingest i)
  from ingest(2) assms(2) show ?thesis
    by (cases rule: ingest_cases) (auto simp: bound_inv_def push_Done_iff bq_inv_push)
next
  case (publish j)
  from publish(2) assms(2) show ?thesis
    by (cases rule: publish_cases) (auto simp: bound_inv_def pop_Done_iff bq_inv_pop)
qed

lemma count_inv_step:
  assumes "pstep S P dump a p p'" "ctl_inv p" "count_inv p"
  shows "count_inv p'"
  using assms(1)
proof (cases rule: pstep_cases)
  case call
  from assms(1) call assms(3) show ?thesis by (cases rule: call_cases) (simp_all add: count_inv_def)
next
  case owner
  from owner(2) show ?thesis
    by (cases rule: owner_cases) (use assms(2,3) in \<open>auto simp: count_inv_def ctl_inv_def\<close>)
next
  case (ingest i)
  from ingest(2) assms(3) show ?thesis
    by (cases rule: ingest_cases) (simp_all add: count_inv_def)
next
  case (publish j)
  from publish(2) assms(3) show ?thesis
    by (cases rule: publish_cases) (simp_all add: count_inv_def)
qed

text \<open>What has been recorded: every event that has got past the recorder, in order.\<close>

definition recorded_events :: "('s, 'p) IngestionPipeline \<Rightarrow> MarketEvent list" where
  "recorded_events p = map fst (handled p) @ publish_hand p @ queue (evq p) @
     (case ingest_thread p of I_push e \<Rightarrow> [e] | _ \<Rightarrow> [])"

definition record_inv :: "json_dumper \<Rightarrow> EventRecorder option \<Rightarrow> files \<Rightarrow> ('s, 'p) IngestionPipeline \<Rightarrow> bool" where
  "record_inv dump rec fs0 p \<longleftrightarrow> optional_recorder p = rec \<and>
     (case rec of None \<Rightarrow> disk p = fs0 | Some r \<Rightarrow> record_all dump r (recorded_events p) fs0 = Inr (disk p))"

lemma record_all_snoc:
  "record_all dump r (es @ [e]) fs =
     (case record_all dump r es fs of Inl x \<Rightarrow> Inl x | Inr fs' \<Rightarrow> record_event dump r e fs')"
  by (induction es arbitrary: fs) (auto split: sum.split)

lemma record_inv_same:
  assumes "record_inv dump rec fs0 p" "recorded_events p' = recorded_events p"
    "optional_recorder p' = optional_recorder p" "disk p' = disk p"
  shows "record_inv dump rec fs0 p'"
  using assms by (simp add: record_inv_def split: option.splits)

lemma record_inv_ingest:
  assumes "runIngest_step S dump i p = Some p'" "ctl_inv p" "record_inv dump rec fs0 p"
  shows "record_inv dump rec fs0 p'"
  using assms(1)
proof (cases rule: ingest_cases)
  case (pushed e ok q)
  with assms(2) have "\<not> is_shutdown (evq p)" by (auto simp: ctl_inv_def)
  with pushed push_open [of e "evq p" ok q] show ?thesis
    by (intro record_inv_same [OF assms(3)]) (simp_all add: recorded_events_def hand_defs)
next
  case (no_recorder e)
  with assms(3) show ?thesis by (auto simp: record_inv_def)
next
  case (recorded e r fs)
  moreover from recorded have "recorded_events p' = recorded_events p @ [e]"
    by (simp add: recorded_events_def hand_defs)
  moreover have "rec = Some r" using assms(3) recorded by (simp add: record_inv_def)
  ultimately show ?thesis using assms(3) by (simp add: record_inv_def record_all_snoc)
qed (auto intro!: record_inv_same [OF assms(3)] simp: recorded_events_def hand_defs)

lemma record_inv_publish:
  assumes "runPublish_step P j p = Some p'" "record_inv dump rec fs0 p"
  shows "record_inv dump rec fs0 p'"
  using assms(1)
proof (cases rule: publish_cases)
  case (popped e q)
  with pop_some [of "evq p" e q] show ?thesis
    by (intro record_inv_same [OF assms(2)]) (simp_all add: recorded_events_def hand_defs)
next
  case (drained q)
  with pop_none [of "evq p" q] show ?thesis
    by (intro record_inv_same [OF assms(2)]) (simp_all add: recorded_events_def hand_defs)
qed (auto intro!: record_inv_same [OF assms(2)] simp: recorded_events_def hand_defs)

lemma record_inv_step:
  assumes "pstep S P dump a p p'" "ctl_inv p" "record_inv dump rec fs0 p"
  shows "record_inv dump rec fs0 p'"
  using assms(1)
proof (cases rule: pstep_cases)
  case call
  from assms(1) call show ?thesis
    by (cases rule: call_cases)
      (use assms(3) in \<open>auto intro!: record_inv_same [OF assms(3)] simp: recorded_events_def hand_defs\<close>)
next
  case owner
  from owner(2) show ?thesis
    by (cases rule: owner_cases)
      (use assms(2) in \<open>auto intro!: record_inv_same [OF assms(3)]
         simp: recorded_events_def hand_defs queue_ops ctl_inv_def split: ingest_point.splits\<close>)
next
  case (ingest i)
  from ingest(2) assms(2,3) show ?thesis by (rule record_inv_ingest)
next
  case (publish j)
  from publish(2) assms(3) show ?thesis by (rule record_inv_publish)
qed

section \<open>All runs\<close>

abbreviation runs_from ::
    "('i, 's) source_iface \<Rightarrow> ('j, 'p) publisher_iface \<Rightarrow> json_dumper \<Rightarrow> ('i, 'j) action list \<Rightarrow>
     's \<Rightarrow> 'p \<Rightarrow> nat \<Rightarrow> EventRecorder option \<Rightarrow> files \<Rightarrow> ('s, 'p) IngestionPipeline \<Rightarrow> bool" where
  "runs_from S P dump as s pb c rec fs \<equiv> pruns S P dump as (IngestionPipeline_new s pb c rec fs)"

lemma runs_inv:
  assumes "runs_from S P dump as s pb c rec fs p"
  shows "ctl_inv p" "flow_inv p" "bound_inv c p" "count_inv p" "record_inv dump rec fs p"
proof -
  define p0 where "p0 = IngestionPipeline_new s pb c rec fs"
  have "ctl_inv p0 \<and> flow_inv p0 \<and> bound_inv c p0 \<and> count_inv p0 \<and> record_inv dump rec fs p0"
    by (simp add: p0_def)
      (simp add: IngestionPipeline_new_def flow_inv_def bound_inv_def count_inv_def record_inv_def
        hand_defs recorded_events_def split: option.split)
  with assms [folded p0_def]
  have "ctl_inv p \<and> flow_inv p \<and> bound_inv c p \<and> count_inv p \<and> record_inv dump rec fs p"
  proof (induction rule: pruns.induct)
    case (pruns_Nil p)
    then show ?case .
  next
    case (pruns_Snoc as p p' a p'')
    then show ?case
      using ctl_inv_step flow_inv_step bound_inv_step count_inv_step record_inv_step by metis
  qed
  then show "ctl_inv p" "flow_inv p" "bound_inv c p" "count_inv p" "record_inv dump rec fs p" by blast+
qed

end
