(* ===== verification/Pipeline_Liveness.thy ===== *)
theory Pipeline_Liveness
  imports Ingestion_Pipeline
begin

text \<open>
  That the pipeline comes to an end: under the contract of its source, every step of its threads
  after \<^verbatim>\<open>requestStop()\<close> (or at any time, when the source is finite) makes a bounded amount of work
  smaller, and a pipeline that is being stopped always has a step. The two ways it can hang are
  stated too: waiting for a source that never ends, and a queue of capacity zero.
\<close>

section \<open>Work\<close>

text \<open>The steps of the pipeline's own threads, as opposed to new calls from outside.\<close>

definition inner :: "('i, 'j) action \<Rightarrow> bool" where
  "inner a \<longleftrightarrow> (case a of Owner \<Rightarrow> True | Ingest i \<Rightarrow> True | Publish j \<Rightarrow> True | _ \<Rightarrow> False)"

fun ingest_work :: "ingest_point \<Rightarrow> nat" where
  "ingest_work I_unborn = 20"
| "ingest_work I_next = 20"
| "ingest_work (I_count e) = 70"
| "ingest_work (I_record e) = 60"
| "ingest_work (I_push e) = 50"
| "ingest_work I_finish = 10"
| "ingest_work I_exited = 0"

fun publish_work :: "publish_point \<Rightarrow> nat" where
  "publish_work P_unborn = 20"
| "publish_work P_pop = 20"
| "publish_work (P_publish e) = 30"
| "publish_work (P_count ok) = 25"
| "publish_work P_flush = 10"
| "publish_work P_exited = 0"

fun owner_work :: "owner_point \<Rightarrow> nat" where
  "owner_work O_idle = 0"
| "owner_work O_spawn_ingest = 2"
| "owner_work O_spawn_publish = 1"
| "owner_work O_join_ingest = 3"
| "owner_work O_shutdown = 2"
| "owner_work O_join_publish = 1"

definition pipe_work :: "('s \<Rightarrow> nat) \<Rightarrow> ('s, 'p) IngestionPipeline \<Rightarrow> nat" where
  "pipe_work rank p =
     (if terminated p \<noteq> None then 0
      else Suc ((if ingest_thread p \<in> {I_finish, I_exited} then 0 else 100 * rank (src p)) + ingest_work (ingest_thread p) + 20 * length (queue (evq p)) +
        publish_work (publish_thread p) + owner_work (owner_thread p)))"

lemma owner_work_less:
  assumes "owner_step p = Some p'" "terminated p = None" "ctl_inv p"
  shows "pipe_work rank p' < pipe_work rank p"
  using assms(1) by (cases rule: owner_cases) (use assms(2,3) in \<open>auto simp: pipe_work_def ctl_inv_def queue_ops\<close>)

lemma publish_work_less:
  assumes "runPublish_step P j p = Some p'" "terminated p = None"
  shows "pipe_work rank p' < pipe_work rank p"
  using assms(1)
proof (cases rule: publish_cases)
  case (popped e q)
  with pop_some [of "evq p" e q] assms(2) show ?thesis by (simp add: pipe_work_def)
next
  case (drained q)
  with pop_none [of "evq p" q] assms(2) show ?thesis by (simp add: pipe_work_def)
qed (use assms(2) in \<open>simp_all add: pipe_work_def\<close>)

context market_data_source
begin

lemma ingest_work_less:
  assumes "runIngest_step S dump i p = Some p'" "terminated p = None" "ctl_inv p"
    and "inv (src p)" "stop_req (src p)"
  shows "pipe_work rank p' < pipe_work rank p"
  using assms(1)
proof (cases rule: ingest_cases)
  case (event s e)
  then have "rank s < rank (src p)" using stop_ends [OF assms(4,5)] by force
  with event assms(2) show ?thesis by (simp add: pipe_work_def)
next
  case (again s)
  then have "rank s < rank (src p)" using stop_ends [OF assms(4,5)] by force
  with again assms(2) show ?thesis by (simp add: pipe_work_def)
next
  case (pushed e ok q)
  with assms(3) have "\<not> is_shutdown (evq p)" by (auto simp: ctl_inv_def)
  with pushed push_open [of e "evq p" ok q] assms(2) show ?thesis by (simp add: pipe_work_def)
qed (use assms(2) in \<open>simp_all add: pipe_work_def\<close>)

text \<open>What the contract says about the source stays true along every run.\<close>

lemma source_inv_step:
  assumes "pstep S P dump a p p'" "inv (src p)"
  shows "inv (src p') \<and> (stop_req (src p) \<and> started p \<longrightarrow> stop_req (src p')) \<and> (started p \<longrightarrow> started p')"
  using assms(1)
proof (cases rule: pstep_cases)
  case call
  from assms(1) call show ?thesis
    by (cases rule: call_cases) (use assms(2) start_inv [of "src p"] stop_inv [of "src p"] stop_sets in auto)
next
  case owner
  from owner(2) assms(2) show ?thesis by (cases rule: owner_cases) auto
next
  case (ingest i)
  from ingest(2) show ?thesis
    by (cases rule: ingest_cases) (use assms(2) in \<open>auto dest: step_inv step_stop\<close>)
next
  case (publish j)
  from publish(2) assms(2) show ?thesis by (cases rule: publish_cases) auto
qed

lemma source_inv_runs:
  "pruns S P dump as p p' \<Longrightarrow> inv (src p) \<Longrightarrow>
     inv (src p') \<and> (stop_req (src p) \<and> started p \<longrightarrow> stop_req (src p')) \<and> (started p \<longrightarrow> started p')"
  by (induction rule: pruns.induct) (auto dest: source_inv_step)

lemma inner_work_less:
  assumes "pstep S P dump a p p'" "inner a" "ctl_inv p" "inv (src p)" "stop_req (src p)"
  shows "pipe_work rank p' < pipe_work rank p"
  using assms(1)
proof cases
  case owner
  then show ?thesis using owner_work_less assms(3) by blast
next
  case ingest
  then show ?thesis using ingest_work_less assms(3-5) by blast
next
  case publish
  then show ?thesis by (intro publish_work_less)
qed (use assms(2) in \<open>simp_all add: inner_def\<close>)

lemma inner_runs_bounded:
  assumes "pruns S P dump as p p'" "list_all inner as" "ctl_inv p" "inv (src p)" "stop_req (src p)" "started p"
  shows "length as + pipe_work rank p' \<le> pipe_work rank p"
  using assms
proof (induction rule: pruns.induct)
  case (pruns_Snoc as p p' a p'')
  then have "length as + pipe_work rank p' \<le> pipe_work rank p" by simp
  moreover have "pipe_work rank p'' < pipe_work rank p'"
    using pruns_Snoc.hyps(2) pruns_Snoc.prems ctl_inv_runs [OF pruns_Snoc.hyps(1)]
      source_inv_runs [OF pruns_Snoc.hyps(1)]
    by (intro inner_work_less) auto
  ultimately show ?case by simp
qed simp

end

section \<open>Progress\<close>

text \<open>While the owner is inside \<^verbatim>\<open>stop()\<close>, some thread can move, as long as the queue has room for one event.\<close>

lemma publish_moves:
  assumes "publish_thread p \<notin> {P_unborn, P_exited}" "publish_thread p = P_pop \<Longrightarrow> can_pop (evq p)"
  shows "\<exists>p'. runPublish_step P j p = Some p'"
proof (cases "publish_thread p")
  case P_pop
  with assms(2) show ?thesis
    by (cases "fst (pop_critical (evq p))") (simp_all add: runPublish_step_def pop_def split: prod.split option.split)
next
  case (P_publish e)
  then show ?thesis by (simp add: runPublish_step_def split: prod.split sum.split)
qed (use assms(1) in \<open>simp_all add: runPublish_step_def\<close>)

lemma ingest_moves:
  assumes "ingest_thread p \<notin> {I_unborn, I_exited}" "\<And>e. ingest_thread p = I_push e \<Longrightarrow> can_push (evq p)"
  shows "\<exists>p'. runIngest_step S dump i p = Some p'"
proof (cases "ingest_thread p")
  case I_next
  then show ?thesis by (simp add: runIngest_step_def split: prod.split next_result.split)
next
  case (I_record e)
  then show ?thesis by (simp add: runIngest_step_def split: option.split sum.split)
next
  case (I_push e)
  with assms(2) show ?thesis by (simp add: runIngest_step_def push_def split: prod.split)
qed (use assms(1) in \<open>simp_all add: runIngest_step_def\<close>)

lemma join_ingest_moves:
  assumes "ctl_inv p" "bound_inv c p" "0 < c" "owner_thread p = O_join_ingest"
  shows "(\<exists>p'. owner_step p = Some p') \<or> (\<exists>p'. runIngest_step S dump i p = Some p') \<or> (\<exists>p'. runPublish_step P j p = Some p')"
proof (cases "ingest_thread p = I_exited")
  case True
  with assms(4) show ?thesis by (simp add: owner_step_def)
next
  case False
  have ctl: "ingest_thread p \<noteq> I_unborn" "publish_thread p \<notin> {P_unborn, P_flush, P_exited}"
    using assms(1,4) by (auto simp: ctl_inv_def)
  show ?thesis
  proof (cases "can_push (evq p)")
    case True
    then show ?thesis using False ctl ingest_moves [of p S dump i] by auto
  next
    case full: False
    then have "can_pop (evq p)" using assms(2,3) by (auto simp: can_push_def can_pop_def bound_inv_def)
    then show ?thesis using ctl publish_moves [of p P j] by auto
  qed
qed

lemma join_publish_moves:
  assumes "ctl_inv p" "owner_thread p = O_join_publish"
  shows "(\<exists>p'. owner_step p = Some p') \<or> (\<exists>p'. runPublish_step P j p = Some p')"
proof (cases "publish_thread p = P_exited")
  case True
  with assms(2) show ?thesis by (simp add: owner_step_def)
next
  case False
  have "publish_thread p \<noteq> P_unborn" "can_pop (evq p)" using assms by (auto simp: ctl_inv_def can_pop_def)
  with False publish_moves [of p P j] show ?thesis by auto
qed

lemma stopping_moves:
  assumes "ctl_inv p" "bound_inv c p" "0 < c" "terminated p = None" "owner_thread p \<noteq> O_idle"
  shows "\<exists>a p'. inner a \<and> pstep S P dump a p p'"
proof -
  have "(\<exists>p'. owner_step p = Some p') \<or> (\<exists>p'. runIngest_step S dump undefined p = Some p') \<or>
      (\<exists>p'. runPublish_step P undefined p = Some p')"
    using join_ingest_moves [OF assms(1-3), of S dump undefined P undefined] join_publish_moves [OF assms(1), of P undefined]
      assms(5)
    by (cases "owner_thread p") (auto simp: owner_step_def)
  then consider p' where "pstep S P dump Owner p p'" | p' where "pstep S P dump (Ingest undefined) p p'"
    | p' where "pstep S P dump (Publish undefined) p p'"
    using assms(4) by (auto simp: pstep_iff)
  then show ?thesis by cases (auto simp: inner_def intro: exI [of _ Owner] exI [of _ "Ingest undefined"] exI [of _ "Publish undefined"])
qed

lemma stopping_ends_stopped:
  assumes "pruns S P dump bs p p'" "list_all inner bs" "ctl_inv p" "owner_thread p \<in> {O_join_ingest, O_shutdown, O_join_publish}"
  shows "owner_thread p' \<in> {O_join_ingest, O_shutdown, O_join_publish} \<or> owner_thread p' = O_idle \<and> stopped p'"
  using assms
proof (induction rule: pruns.induct)
  case (pruns_Snoc as p p' a p'')
  then have IH: "owner_thread p' \<in> {O_join_ingest, O_shutdown, O_join_publish} \<or> owner_thread p' = O_idle \<and> stopped p'"
    by simp
  from pruns_Snoc.hyps(2) show ?case
  proof (cases rule: pstep_cases)
    case call
    with pruns_Snoc.prems show ?thesis by (auto simp: inner_def)
  next
    case owner
    from owner(2) show ?thesis by (cases rule: owner_cases) (use IH in auto)
  next
    case (ingest i)
    from ingest(2) IH show ?thesis by (cases rule: ingest_cases) auto
  next
    case (publish j)
    from publish(2) IH show ?thesis by (cases rule: publish_cases) auto
  qed
qed auto

end
