(* ===== verification/Pipeline_Properties.thy ===== *)
theory Pipeline_Properties
  imports Pipeline_Liveness
begin

text \<open>
  What the pipeline does as a whole: conservation and order of the events, the counters, the capture
  file, delivery of a complete replay file, and termination of \<^verbatim>\<open>stop()\<close>. The results hold for every
  schedule of the threads and every source and publisher that keep their contracts.
\<close>

section \<open>The pipeline reads its source\<close>

lemma read_loop_append:
  "read_loop S (ts @ us) s =
     (case read_loop S ts s of
        (es, s', None) \<Rightarrow> apfst ((@) es) (read_loop S us s')
      | (es, s', Some r) \<Rightarrow> (es, s', Some r))"
proof (induction S ts s rule: read_loop.induct)
  case (1 S s)
  show ?case by (cases "read_loop S us s") simp
next
  case (3 S i ts s)
  obtain s1 r where step: "src_step S i s = (s1, r)" by fastforce
  obtain es s2 e where rest: "read_loop S ts s1 = (es, s2, e)" by (metis prod_cases3)
  obtain es' s3 e' where us: "read_loop S us s2 = (es', s3, e')" by (metis prod_cases3)
  show ?case using 3 step rest us by (cases r; cases e) auto
qed simp

lemma read_loop_Input:
  "read_loop S ts s = (es, s', None) \<Longrightarrow>
     read_loop S (ts @ [Input i]) s =
       (case src_step S i s' of
          (s'', Again) \<Rightarrow> (es, s'', None)
        | (s'', Event e) \<Rightarrow> (es @ [e], s'', None)
        | (s'', r) \<Rightarrow> (es, s'', Some r))"
  by (simp add: read_loop_append split: prod.split next_result.split)

lemma read_loop_Stop:
  "read_loop S ts s = (es, s', None) \<Longrightarrow> read_loop S (ts @ [Stop_call]) s = (es, src_stop S s', None)"
  by (simp add: read_loop_append)

text \<open>
  Along every run, what the ingest thread has fetched is what the loop \<^verbatim>\<open>while (source_->next(event))\<close>
  returns for some interleaving of its passes with the calls of \<^verbatim>\<open>stop()\<close>.
\<close>

definition ingest_over :: "('s, 'p) IngestionPipeline \<Rightarrow> bool" where
  "ingest_over p \<longleftrightarrow> ingest_thread p \<in> {I_finish, I_exited}"

definition reads_inv :: "('i, 's) source_iface \<Rightarrow> 's \<Rightarrow> 's \<Rightarrow> bool \<Rightarrow> ('s, 'p) IngestionPipeline \<Rightarrow> bool" where
  "reads_inv S s s1 undisturbed p \<longleftrightarrow>
     (\<not> started p \<longrightarrow> src p = s \<and> fetched p = []) \<and>
     (started p \<and> ingest_over p \<longrightarrow>
       (\<exists>ts s'. (undisturbed \<longrightarrow> Stop_call \<notin> set ts) \<and> read_loop S ts s1 = (fetched p, s', Some Finished))) \<and>
     (started p \<and> \<not> ingest_over p \<and> terminated p = None \<longrightarrow>
       (\<exists>ts. (undisturbed \<longrightarrow> Stop_call \<notin> set ts) \<and> read_loop S ts s1 = (fetched p, src p, None)))"

lemma reads_inv_same:
  assumes "reads_inv S s s1 u p" "started p' = started p" "src p' = src p" "fetched p' = fetched p"
    "ingest_over p' = ingest_over p" "terminated p' = terminated p"
  shows "reads_inv S s s1 u p'"
  using assms(1) by (simp only: reads_inv_def assms(2-6))

lemma reads_inv_dead: "reads_inv S s s1 u p" if "started p" "\<not> ingest_over p" "terminated p \<noteq> None"
  using that by (auto simp: reads_inv_def)

lemma reads_next_pass:
  assumes "ingest_thread p = I_next" "started p" "terminated p = None" "reads_inv S s s1 u p"
  shows "\<exists>ts. (u \<longrightarrow> Stop_call \<notin> set ts) \<and>
    read_loop S ts s1 = (case src_step S i (src p) of
        (s'', Again) \<Rightarrow> (fetched p, s'', None)
      | (s'', Event e) \<Rightarrow> (fetched p @ [e], s'', None)
      | (s'', r) \<Rightarrow> (fetched p, s'', Some r))"
proof -
  obtain ts where ts: "u \<longrightarrow> Stop_call \<notin> set ts" "read_loop S ts s1 = (fetched p, src p, None)"
    using assms by (auto simp: reads_inv_def ingest_over_def)
  with read_loop_Input [OF ts(2), of i] show ?thesis by (intro exI [of _ "ts @ [Input i]"]) simp
qed

lemma reads_inv_ingest:
  assumes "runIngest_step S dump i p = Some p'" "ctl_inv p" "terminated p = None" "reads_inv S s s1 u p"
  shows "reads_inv S s s1 u p'"
proof -
  have st: "started p" using assms(1,2) by (cases rule: ingest_cases) (auto simp: ctl_inv_def)
  note next_pass = reads_next_pass [OF _ st assms(3,4), of i]
  from assms(1) show ?thesis
  proof (cases rule: ingest_cases)
    case (event s e)
    with next_pass st show ?thesis by (simp add: reads_inv_def ingest_over_def)
  next
    case (finished s)
    with next_pass st show ?thesis by (auto simp: reads_inv_def ingest_over_def)
  next
    case (again s)
    with next_pass st show ?thesis by (simp add: reads_inv_def ingest_over_def)
  next
    case (raised s x)
    with st show ?thesis by (intro reads_inv_dead) (simp_all add: ingest_over_def)
  next
    case (pushed e ok q)
    with assms(2) have "\<not> is_shutdown (evq p)" by (auto simp: ctl_inv_def)
    with pushed push_open [of e "evq p" ok q] show ?thesis
      by (intro reads_inv_same [OF assms(4)]) (simp_all add: ingest_over_def)
  next
    case (record_raised e r x)
    with st show ?thesis by (intro reads_inv_dead) (simp_all add: ingest_over_def)
  qed (rule reads_inv_same [OF assms(4)]; simp add: ingest_over_def)+
qed

lemma reads_inv_publish:
  assumes "runPublish_step P j p = Some p'" "started p" "reads_inv S s s1 u p"
  shows "reads_inv S s s1 u p'"
  using assms(1)
proof (cases rule: publish_cases)
  case (raised e pb x)
  then show ?thesis using assms(2,3) by (simp add: reads_inv_def ingest_over_def)
qed (rule reads_inv_same [OF assms(3)]; simp add: ingest_over_def)+

lemma reads_inv_owner:
  assumes "owner_step p = Some p'" "ctl_inv p" "reads_inv S s s1 u p"
  shows "reads_inv S s s1 u p'"
  using assms(1)
proof (cases rule: owner_cases)
  case spawn_ingest
  with assms(2) have "ingest_thread p = I_unborn" by (simp add: ctl_inv_def)
  with spawn_ingest show ?thesis by (intro reads_inv_same [OF assms(3)]) (simp_all add: ingest_over_def)
qed (rule reads_inv_same [OF assms(3)]; simp add: ingest_over_def)+

lemma reads_inv_step:
  assumes "pstep S P dump a p p'" "ctl_inv p" "reads_inv S s s1 u p" "src_start S s = (s1, None)"
    "u \<Longrightarrow> a \<noteq> Request_stop"
  shows "reads_inv S s s1 u p'"
  using assms(1)
proof cases
  case ingest
  show ?thesis by (rule reads_inv_ingest [OF ingest(3) assms(2) ingest(2) assms(3)])
next
  case publish
  then have "started p" using assms(2) by (cases "publish_thread p") (auto simp: ctl_inv_def runPublish_step_def)
  then show ?thesis by (rule reads_inv_publish [OF publish(3) _ assms(3)])
next
  case owner
  show ?thesis by (rule reads_inv_owner [OF owner(3) assms(2,3)])
next
  case start
  with assms(2,3) have "src p = s" "fetched p = []" "ingest_thread p = I_unborn"
    by (auto simp: reads_inv_def ctl_inv_def)
  with start assms(4) show ?thesis
    by (auto simp: reads_inv_def ingest_over_def pipeline_start_def intro: exI [of _ "[]"])
next
  case stop
  then show ?thesis by (intro reads_inv_same [OF assms(3)]) (simp_all add: pipeline_stop_def ingest_over_def)
next
  case request_stop
  have "reads_inv S s s1 u (p\<lparr>src := src_stop S (src p)\<rparr>)" if "started p"
  proof -
    have "\<exists>ts. (u \<longrightarrow> Stop_call \<notin> set ts) \<and> read_loop S ts s1 = (fetched p, src_stop S (src p), None)"
      if "\<not> ingest_over p"
    proof -
      from that \<open>started p\<close> assms(3) request_stop(3) obtain ts where "read_loop S ts s1 = (fetched p, src p, None)"
        by (auto simp: reads_inv_def)
      from read_loop_Stop [OF this] assms(5) request_stop(1) show ?thesis by (intro exI [of _ "ts @ [Stop_call]"]) auto
    qed
    with that assms(3) show ?thesis by (simp add: reads_inv_def ingest_over_def)
  qed
  with request_stop assms(3) show ?thesis by (simp add: requestStop_def)
qed

lemma reads_inv_runs:
  assumes "runs_from S P dump as s pb c rec fs p" "src_start S s = (s1, None)"
  shows "reads_inv S s s1 (Request_stop \<notin> set as) p"
  using assms(1)
proof (induction as arbitrary: p rule: rev_induct)
  case Nil
  then have "p = IngestionPipeline_new s pb c rec fs" by (auto elim: pruns_NilE)
  then show ?case by (simp add: reads_inv_def IngestionPipeline_new_def)
next
  case (snoc a as)
  then obtain p' where p': "runs_from S P dump as s pb c rec fs p'" "pstep S P dump a p' p"
    by (auto elim: pruns_snocE)
  have "reads_inv S s s1 (Request_stop \<notin> set (as @ [a])) p'"
    using snoc.IH [OF p'(1)] by (auto simp: reads_inv_def)
  then show ?case by (rule reads_inv_step [OF p'(2) runs_inv(1) [OF p'(1)] _ assms(2)]) auto
qed

section \<open>The log of the publisher\<close>

context event_publisher
begin

lemma log_step:
  assumes "pstep S P dump a p p'" "pinv (publisher p)"
    "sent (publisher p) = l0 @ map (\<lambda>h. enc (fst h)) (filter snd (handled p))"
  shows "pinv (publisher p') \<and> sent (publisher p') = l0 @ map (\<lambda>h. enc (fst h)) (filter snd (handled p'))"
  using assms(1)
proof (cases rule: pstep_cases)
  case call
  from assms(1) call show ?thesis by (cases rule: call_cases) (use assms(2,3) in simp_all)
next
  case owner
  from owner(2) show ?thesis by (cases rule: owner_cases) (use assms(2,3) in simp_all)
next
  case (ingest i)
  from ingest(2) show ?thesis by (cases rule: ingest_cases) (use assms(2,3) in simp_all)
next
  case (publish j)
  from publish(2) show ?thesis
  proof (cases rule: publish_cases)
    case (raised e pb x)
    with assms(2,3) publish_inv publish_log show ?thesis by simp
  next
    case (published e pb ok)
    with assms(2,3) publish_inv [OF assms(2) published(2)] publish_log [OF assms(2) published(2)]
    show ?thesis by simp
  next
    case flushed
    with assms(2,3) flush_inv [of "publisher p"] flush_log [of "publisher p"] show ?thesis by simp
  qed (use assms(2,3) in simp_all)
qed

lemma log_runs:
  assumes "runs_from S P dump as s pb c rec fs p" "pinv pb"
  shows "sent (publisher p) = sent pb @ map (\<lambda>h. enc (fst h)) (filter snd (handled p)) \<and> pinv (publisher p)"
proof -
  define p0 where "p0 = IngestionPipeline_new s pb c rec fs"
  have "pinv (publisher p0) \<and> sent (publisher p0) = sent pb @ map (\<lambda>h. enc (fst h)) (filter snd (handled p0))"
    using assms(2) by (simp add: p0_def IngestionPipeline_new_def)
  with assms(1) [folded p0_def]
  have "pinv (publisher p) \<and> sent (publisher p) = sent pb @ map (\<lambda>h. enc (fst h)) (filter snd (handled p))"
  proof (induction rule: pruns.induct)
    case (pruns_Snoc as p p' a p'')
    then show ?case using log_step [OF pruns_Snoc.hyps(2)] by blast
  qed
  then show ?thesis by blast
qed

end

section \<open>When the pipeline has stopped\<close>

lemma stopped_facts:
  assumes "runs_from S P dump as s pb c rec fs p" "stopped p"
  shows "ingest_thread p = I_exited" "publish_thread p = P_exited" "queue (evq p) = []" "flushes p = [length (handled p)]"
    "ingest_finished p" "map fst (handled p) = fetched p" "recorded_events p = fetched p"
    "events_received p = of_nat (length (fetched p))"
    "events_published p + publish_failures p = events_received p"
proof -
  note invs = runs_inv [OF assms(1)]
  show pcs: "ingest_thread p = I_exited" "publish_thread p = P_exited" "queue (evq p) = []" "flushes p = [length (handled p)]"
    "ingest_finished p"
    using invs(1) assms(2) by (auto simp: ctl_inv_def)
  then show flow: "map fst (handled p) = fetched p" using invs(2) by (simp add: flow_inv_def hand_defs)
  with pcs show "recorded_events p = fetched p" by (simp add: recorded_events_def hand_defs)
  show "events_received p = of_nat (length (fetched p))" using invs(4) pcs by (simp add: count_inv_def)
  have "count_if snd hs + count_if (\<lambda>h. \<not> snd h) hs = length hs" for hs :: "(MarketEvent \<times> bool) list"
    by (induction hs) auto
  from this [of "handled p"] have "count_if snd (handled p) + count_if (\<lambda>h. \<not> snd h) (handled p) = length (fetched p)"
    using flow by (metis length_map)
  then show "events_published p + publish_failures p = events_received p"
    using invs(4) pcs by (simp add: count_inv_def flip: of_nat_add)
qed

section \<open>Properties\<close>

text \<open>
  C1: no event is lost, duplicated or reordered. At every moment of every run, the events handed to
  the publisher, the one the publish thread holds, those in the queue and the one the ingest thread
  holds are, in this order, exactly the events the source has returned; and the queue, and its
  high-water mark, never exceed the configured capacity.
\<close>

theorem pipeline_conserves_events:
  assumes "runs_from S P dump as s pb c rec fs p"
  shows "map fst (handled p) @ publish_hand p @ queue (evq p) @ ingest_hand p = fetched p \<and>
    queueDepth p \<le> st_high_water_mark (stats p) \<and> st_high_water_mark (stats p) \<le> c \<and> st_capacity (stats p) = c"
  using runs_inv(2,3) [OF assms]
  by (simp add: flow_inv_def bound_inv_def bq_inv_def queueDepth_def stats_def bq_size_def highWaterMark_def)

text \<open>
  A run of the pipeline with the sources and publishers of the tests: two events, the publisher
  refuses the first, then \<^verbatim>\<open>requestStop()\<close> and \<^verbatim>\<open>stop()\<close>.
\<close>

definition sample_schedule :: "(unit, unit) action list" where
  "sample_schedule = [Start, Owner, Owner] @ replicate 8 (Ingest ()) @ replicate 3 (Publish ()) @
     [Request_stop, Stop, Ingest (), Ingest (), Owner, Owner] @ replicate 5 (Publish ()) @ [Owner]"

abbreviation sample_run where
  "sample_run n \<equiv> do_actions infinite_iface fake_publisher_iface ref_dump (take n sample_schedule)
     (IngestionPipeline_new FakeInfiniteSource_new (failNextN 1 FakeEventPublisher_new) 4 None Map.empty)"

lemma sample_runs:
  assumes "\<not> Option.is_none (sample_run n)"
  shows "runs_from infinite_iface fake_publisher_iface ref_dump (take n sample_schedule)
    FakeInfiniteSource_new (failNextN 1 FakeEventPublisher_new) 4 None Map.empty (the (sample_run n))"
  using assms by (simp add: do_actions_pruns [symmetric] Option.is_none_def)

lemma sample_run_possible: "\<not> Option.is_none (sample_run 12)" "\<not> Option.is_none (sample_run 26)"
  by code_simp+

theorem pipeline_conserves_events_witness:
  "let p = the (sample_run 12) in
    map fst (handled p) @ publish_hand p @ queue (evq p) @ ingest_hand p = fetched p \<and>
    queueDepth p \<le> st_high_water_mark (stats p) \<and> st_high_water_mark (stats p) \<le> 4 \<and> st_capacity (stats p) = 4"
  unfolding Let_def by (rule pipeline_conserves_events [OF sample_runs [OF sample_run_possible(1)]])

text \<open>
  C3: graceful shutdown. When \<^verbatim>\<open>stop()\<close> has completed, every event the source returned has been handed
  to the publisher, in order, exactly once; the queue is empty; the publisher was flushed exactly
  once, after the last of them; the ingest thread is reported as finished; and the counters add up:
  received equals published plus failed, and is the number of events (modulo 2 to the 64).
\<close>

theorem pipeline_stop_drains:
  assumes "runs_from S P dump as s pb c rec fs p" "stopped p"
  shows "map fst (handled p) = fetched p \<and> queueDepth p = 0 \<and> flushes p = [length (handled p)] \<and> ingest_finished p \<and>
    st_received (stats p) = of_nat (length (fetched p)) \<and>
    st_published (stats p) + st_failures (stats p) = st_received (stats p)"
  using stopped_facts [OF assms] by (simp add: queueDepth_def bq_size_def stats_def)

lemma sample_run_stopped: "stopped (the (sample_run 26))"
  by code_simp

theorem pipeline_stop_drains_witness:
  "let p = the (sample_run 26) in
    map fst (handled p) = fetched p \<and> queueDepth p = 0 \<and> flushes p = [length (handled p)] \<and> ingest_finished p \<and>
    st_received (stats p) = of_nat (length (fetched p)) \<and>
    st_published (stats p) + st_failures (stats p) = st_received (stats p)"
  unfolding Let_def
  by (rule pipeline_stop_drains [OF sample_runs [OF sample_run_possible(2)] sample_run_stopped])

text \<open>
  What reaches the publisher. Under the contract of a publisher, what it has accepted is at every
  moment the events whose \<^verbatim>\<open>publish\<close> call returned true, in order; a refused event is counted as a
  failure and does not stop the events after it. The published and failed counters count exactly
  these calls, except for the one whose result the thread has not counted yet.
\<close>

lemma pipeline_publishes_in_order:
  assumes "event_publisher P pinv sent enc" "pinv pb" "runs_from S P dump as s pb c rec fs p"
  shows "sent (publisher p) = sent pb @ map (\<lambda>h. enc (fst h)) (filter snd (handled p)) \<and>
    events_published p + (if publish_thread p = P_count True then 1 else 0) = of_nat (length (filter snd (handled p))) \<and>
    publish_failures p + (if publish_thread p = P_count False then 1 else 0) =
      of_nat (length (filter (\<lambda>h. \<not> snd h) (handled p)))"
  using event_publisher.log_runs [OF assms(1,3,2)] runs_inv(4) [OF assms(3)]
  by (simp add: count_inv_def count_if_def)

lemma pipeline_publishes_in_order_witness:
  "let p = the (sample_run 26) in
    fake_published (publisher p) = map fst (filter snd (handled p)) \<and>
    events_published p + (if publish_thread p = P_count True then 1 else 0) = of_nat (length (filter snd (handled p)))"
  using pipeline_publishes_in_order [OF fake_publisher.event_publisher_axioms _ sample_runs [OF sample_run_possible(2)]]
  by (simp add: Let_def failNextN_def FakeEventPublisher_new_def)

text \<open>
  C20: the capture file. When the pipeline has stopped and a recorder was given, the capture file is
  what recording all the events the source returned, in order, makes of it: nothing was skipped,
  whether the event was published or not.
\<close>

theorem pipeline_records_everything:
  assumes "runs_from S P dump as s pb c (Some r) fs p" "stopped p"
  shows "record_all dump r (fetched p) fs = Inr (disk p)"
  using runs_inv(5) [OF assms(1)] stopped_facts(7) [OF assms] by (simp add: record_inv_def)

definition sample_dump :: json_dumper where
  "sample_dump j = (if is_object j then Inr ''{}'' else Inr ''null'')"

definition sample_capturing :: "(FakeInfiniteSource, FakeEventPublisher) IngestionPipeline option" where
  "sample_capturing = do_actions infinite_iface fake_publisher_iface sample_dump sample_schedule
     (IngestionPipeline_new FakeInfiniteSource_new FakeEventPublisher_new 4 (Some \<lparr>out = ''cap''\<rparr>) Map.empty)"

theorem pipeline_records_everything_witness:
  "record_all sample_dump \<lparr>out = ''cap''\<rparr> (fetched (the sample_capturing)) Map.empty = Inr (disk (the sample_capturing))"
proof -
  have "\<not> Option.is_none sample_capturing" "stopped (the sample_capturing)" by code_simp+
  then show ?thesis
    by (intro pipeline_records_everything)
      (auto simp: do_actions_pruns [symmetric] sample_capturing_def Option.is_none_def)
qed

lemma inputs_only: "Stop_call \<notin> set ts \<Longrightarrow> \<exists>nows. ts = map Input nows"
proof (induction ts)
  case (Cons t ts)
  then obtain nows i where "ts = map Input nows" "t = Input i" by (cases t) auto
  then show ?case by (intro exI [of _ "i # nows"]) simp
qed simp

text \<open>
  Replaying a capture file through the pipeline delivers the whole file. If no \<^verbatim>\<open>requestStop()\<close>
  interferes and \<^verbatim>\<open>stop()\<close> has completed, the publisher was handed exactly the events of the valid
  lines of the file, in file order, each with a fresh receive time.
\<close>

lemma pipeline_replays_file:
  assumes "fs f = Some c" "\<forall>l \<in> set (lines_of c). no_overflow parse l"
    and "runs_from (replay_iface fs parse) P dump as (ReplaySource_new f) pb cap rec d p"
    and "Request_stop \<notin> set as" "stopped p"
  shows "\<exists>nows. length (lines_of c) \<le> length nows \<and>
    map fst (handled p) = concat (map (line_events parse) (zip (lines_of c) nows))"
proof -
  let ?s1 = "(ReplaySource_new f)\<lparr>ins := Good c\<rparr>"
  have "src_start (replay_iface fs parse) (ReplaySource_new f) = (?s1, None)"
    using assms(1) by (simp add: replay_iface_def ReplaySource_start_def ReplaySource_new_def)
  from reads_inv_runs [OF assms(3) this] assms(4)
  have "reads_inv (replay_iface fs parse) (ReplaySource_new f) ?s1 True p" by simp
  moreover have "started p" "ingest_over p"
    using runs_inv(1) [OF assms(3)] assms(5) by (auto simp: ctl_inv_def ingest_over_def)
  ultimately obtain ts s' where ts: "Stop_call \<notin> set ts"
    "read_loop (replay_iface fs parse) ts ?s1 = (fetched p, s', Some Finished)"
    by (auto simp: reads_inv_def)
  from inputs_only [OF ts(1)] obtain nows where nows: "ts = map Input nows" ..
  let ?nows = "nows @ replicate (Suc (length (lines_of c))) 0"
  have "read_loop (replay_iface fs parse) (map Input ?nows) ?s1 = (fetched p, s', Some Finished)"
    using ts(2) by (simp add: nows read_loop_append del: replicate.simps)
  moreover have "\<not> stop_requested ?s1" by (simp add: ReplaySource_new_def)
  ultimately have "fetched p = concat (map (line_events parse) (zip (lines_of c) ?nows))"
    using read_loop_replay [of ?s1 c parse ?nows fs] assms(2) by (simp del: replicate.simps)
  with stopped_facts(6) [OF assms(3,5)] show ?thesis
    by (intro exI [of _ ?nows]) simp
qed

text \<open>A replay of the sample capture file, whose third line holds an event.\<close>

definition replay_schedule :: "(i64, unit) action list" where
  "replay_schedule = [Start, Owner, Owner] @ map Ingest [1, 2, 3, 4, 5, 6, 7, 8] @ [Stop, Owner, Owner] @
     replicate 5 (Publish ()) @ [Owner]"

definition tiny_parse :: json_parser where
  "tiny_parse l = (if l = ''ev'' then Inr (reread (marketEventToJson sample_event)) else Inl (Parse_error ''bad''))"

definition tiny_capture :: string where
  "tiny_capture = newline # ''bad'' @ newline # ''ev'' @ [newline]"

definition sample_replay :: "(ReplaySource, FakeEventPublisher) IngestionPipeline option" where
  "sample_replay = do_actions (replay_iface [''f'' \<mapsto> tiny_capture] tiny_parse) fake_publisher_iface ref_dump
     replay_schedule (IngestionPipeline_new (ReplaySource_new ''f'') FakeEventPublisher_new 1 None Map.empty)"

lemma sample_replay_run:
  "runs_from (replay_iface [''f'' \<mapsto> tiny_capture] tiny_parse) fake_publisher_iface ref_dump replay_schedule
     (ReplaySource_new ''f'') FakeEventPublisher_new 1 None Map.empty (the sample_replay)"
  "stopped (the sample_replay)"
proof -
  have "\<not> Option.is_none sample_replay" by code_simp
  then show "runs_from (replay_iface [''f'' \<mapsto> tiny_capture] tiny_parse) fake_publisher_iface ref_dump replay_schedule
     (ReplaySource_new ''f'') FakeEventPublisher_new 1 None Map.empty (the sample_replay)"
    by (simp add: do_actions_pruns [symmetric] sample_replay_def Option.is_none_def)
qed code_simp

lemma pipeline_replays_file_witness:
  "\<exists>nows. length (lines_of tiny_capture) \<le> length nows \<and> map fst (handled (the sample_replay)) =
     concat (map (line_events tiny_parse) (zip (lines_of tiny_capture) nows))"
proof (rule pipeline_replays_file [OF _ _ sample_replay_run(1) _ sample_replay_run(2)])
  show "\<forall>l \<in> set (lines_of tiny_capture). no_overflow tiny_parse l"
    by (auto simp: classify_def tiny_parse_def split: option.split)
  show "Request_stop \<notin> set replay_schedule" by (auto simp: replay_schedule_def)
qed simp

section \<open>Termination of \<^verbatim>\<open>stop()\<close>\<close>

lemma stopping_terminates:
  assumes "market_data_source S sinv stop_req rank" "sinv s" "runs_from S P dump as s pb c rec fs p" "0 < c"
    and "stop_req (src p)" "owner_thread p = O_join_ingest"
    and "pruns S P dump bs p p'" "list_all inner bs"
  shows "length bs \<le> pipe_work rank p \<and>
    ((\<exists>b p''. inner b \<and> pstep S P dump b p' p'') \<or> (\<exists>x. terminated p' = Some x) \<or> stopped p')"
proof -
  note ctl = runs_inv(1) [OF assms(3)]
  have inv: "sinv (src p)"
    using market_data_source.source_inv_runs [OF assms(1,3)] assms(2) by (simp add: IngestionPipeline_new_def)
  have st: "started p" using ctl assms(6) by (auto simp: ctl_inv_def)
  have bound: "length bs \<le> pipe_work rank p"
    using market_data_source.inner_runs_bounded [OF assms(1,7,8) ctl inv assms(5) st] by simp
  have all: "runs_from S P dump (as @ bs) s pb c rec fs p'"
    using assms(7,3)
  proof (induction rule: pruns.induct)
    case (pruns_Snoc bs p p' b p'')
    then have "runs_from S P dump (as @ bs) s pb c rec fs p'" by blast
    from pruns.pruns_Snoc [OF this pruns_Snoc.hyps(2)] show ?case by simp
  qed simp
  have "(\<exists>b p''. inner b \<and> pstep S P dump b p' p'') \<or> (\<exists>x. terminated p' = Some x) \<or> stopped p'"
  proof (rule ccontr)
    assume stuck: "\<not> ?thesis"
    then have "owner_thread p' \<noteq> O_idle"
      using stopping_ends_stopped [OF assms(7,8) ctl] assms(6) by auto
    then show False
      using stopping_moves [OF runs_inv(1) [OF all] runs_inv(3) [OF all] assms(4), of S P dump] stuck by auto
  qed
  with bound show ?thesis ..
qed

text \<open>
  \<^verbatim>\<open>requestStop()\<close> followed by \<^verbatim>\<open>stop()\<close> always completes, for every source that keeps its contract and
  every schedule, provided the queue has room for at least one event. From the moment the owner waits
  for the ingest thread, with the source told to stop, the threads make at most \<^verbatim>\<open>pipe_work\<close> further
  steps, and when no thread can move any more, \<^verbatim>\<open>stop()\<close> has completed with every event handed to the
  publisher (unless an exception has terminated the process).
\<close>

lemma pipeline_stop_terminates:
  assumes "market_data_source S sinv stop_req rank" "sinv s" "runs_from S P dump as s pb c rec fs p" "0 < c"
    and "stop_req (src p)" "owner_thread p = O_join_ingest"
    and "pruns S P dump bs p p'" "list_all inner bs"
  shows "length bs \<le> pipe_work rank p \<and>
    ((\<exists>b p''. inner b \<and> pstep S P dump b p' p'') \<or> (\<exists>x. terminated p' = Some x) \<or> stopped p')"
  by (rule stopping_terminates [OF assms])

lemma sample_run_stopping:
  "\<not> Option.is_none (sample_run 16)" "owner_thread (the (sample_run 16)) = O_join_ingest"
  "inf_stop_requested (src (the (sample_run 16)))" "pipe_work (\<lambda>_. 0) (the (sample_run 16)) = 64"
  by code_simp+

abbreviation sample_rest where
  "sample_rest \<equiv> do_actions infinite_iface fake_publisher_iface ref_dump (drop 16 sample_schedule) (the (sample_run 16))"

lemma sample_rest_run:
  "pruns infinite_iface fake_publisher_iface ref_dump (drop 16 sample_schedule) (the (sample_run 16)) (the sample_rest)"
proof -
  have "\<not> Option.is_none sample_rest" by code_simp
  then show ?thesis by (simp add: do_actions_pruns [symmetric] Option.is_none_def)
qed

lemma pipeline_stop_terminates_witness:
  "length (drop 16 sample_schedule) \<le> 64 \<and>
    ((\<exists>b p''. inner b \<and> pstep infinite_iface fake_publisher_iface ref_dump b (the sample_rest) p'') \<or>
     (\<exists>x. terminated (the sample_rest) = Some x) \<or> stopped (the sample_rest))"
proof (rule pipeline_stop_terminates [OF infinite.market_data_source_axioms TrueI sample_runs [OF sample_run_stopping(1)]
      _ sample_run_stopping(3,2) sample_rest_run, unfolded sample_run_stopping(4)])
  show "list_all inner (drop 16 sample_schedule)" by code_simp
qed simp

text \<open>
  For a replay, \<^verbatim>\<open>stop()\<close> alone completes too, without \<^verbatim>\<open>requestStop()\<close>: the file runs out, and the
  number of steps is bounded by the lines that are left.
\<close>

lemma pipeline_replay_stop_terminates:
  assumes "runs_from (replay_iface fs parse) P dump as s pb c rec d p" "0 < c" "owner_thread p = O_join_ingest"
    and "pruns (replay_iface fs parse) P dump bs p p'" "list_all inner bs"
  shows "length bs \<le> pipe_work lines_left p \<and>
    ((\<exists>b p''. inner b \<and> pstep (replay_iface fs parse) P dump b p' p'') \<or> (\<exists>x. terminated p' = Some x) \<or> stopped p')"
proof -
  have "replay_inv s" by (simp add: replay_inv_def)
  from stopping_terminates [OF replay_finite.natural.market_data_source_axioms this assms(1,2) TrueI assms(3-5)]
  show ?thesis .
qed

definition replay_stopping :: "(ReplaySource, FakeEventPublisher) IngestionPipeline option" where
  "replay_stopping = do_actions (replay_iface [''f'' \<mapsto> tiny_capture] tiny_parse) fake_publisher_iface ref_dump
     [Start, Owner, Owner, Ingest 1, Stop] (IngestionPipeline_new (ReplaySource_new ''f'') FakeEventPublisher_new 1 None Map.empty)"

lemma pipeline_replay_stop_terminates_witness:
  "length [Ingest 2 :: (i64, unit) action] \<le> pipe_work lines_left (the replay_stopping) \<and>
    ((\<exists>b p''. inner b \<and> pstep (replay_iface [''f'' \<mapsto> tiny_capture] tiny_parse) fake_publisher_iface ref_dump b
        (the (runIngest_step (replay_iface [''f'' \<mapsto> tiny_capture] tiny_parse) ref_dump 2 (the replay_stopping))) p'') \<or>
     (\<exists>x. terminated (the (runIngest_step (replay_iface [''f'' \<mapsto> tiny_capture] tiny_parse) ref_dump 2
        (the replay_stopping))) = Some x) \<or>
     stopped (the (runIngest_step (replay_iface [''f'' \<mapsto> tiny_capture] tiny_parse) ref_dump 2 (the replay_stopping))))"
proof -
  let ?S = "replay_iface [''f'' \<mapsto> tiny_capture] tiny_parse"
  have start: "\<not> Option.is_none replay_stopping" "\<not> Option.is_none (runIngest_step ?S ref_dump 2 (the replay_stopping))"
    and own: "owner_thread (the replay_stopping) = O_join_ingest" "terminated (the replay_stopping) = None" by code_simp+
  then have run: "runs_from ?S fake_publisher_iface ref_dump [Start, Owner, Owner, Ingest 1, Stop]
      (ReplaySource_new ''f'') FakeEventPublisher_new 1 None Map.empty (the replay_stopping)"
    by (simp add: do_actions_pruns [symmetric] replay_stopping_def Option.is_none_def)
  have "pstep ?S fake_publisher_iface ref_dump (Ingest 2) (the replay_stopping)
      (the (runIngest_step ?S ref_dump 2 (the replay_stopping)))"
    using start(2) own(2) by (intro pstep.ingest) (auto simp: Option.is_none_def)
  from pruns_Snoc [OF pruns_Nil this]
  have more: "pruns ?S fake_publisher_iface ref_dump [Ingest 2] (the replay_stopping)
      (the (runIngest_step ?S ref_dump 2 (the replay_stopping)))" by simp
  show ?thesis by (rule pipeline_replay_stop_terminates [OF run _ own(1) more]) (simp_all add: inner_def)
qed

section \<open>How the pipeline can hang\<close>

lemma endless_step:
  assumes "pstep S P dump a p p'" "ctl_inv p" "a \<noteq> Request_stop" "\<not> stop_req (src p)" "\<not> ingest_over p"
    and endless: "\<And>i s s' r. src_step S i s = (s', r) \<Longrightarrow> \<not> stop_req s \<Longrightarrow> r \<noteq> Finished \<and> \<not> stop_req s'"
    and start: "\<And>s. \<not> stop_req s \<Longrightarrow> \<not> stop_req (fst (src_start S s))"
  shows "\<not> stop_req (src p') \<and> \<not> ingest_over p'"
  using assms(1)
proof (cases rule: pstep_cases)
  case call
  from assms(1) call show ?thesis
    by (cases rule: call_cases) (use assms(3-5) start [of "src p"] in \<open>auto simp: ingest_over_def\<close>)
next
  case owner
  from owner(2) show ?thesis by (cases rule: owner_cases) (use assms(4,5) in \<open>auto simp: ingest_over_def\<close>)
next
  case (ingest i)
  from ingest(2) show ?thesis
  proof (cases rule: ingest_cases)
    case (pushed e ok q)
    with assms(2) have "\<not> is_shutdown (evq p)" by (auto simp: ctl_inv_def)
    with pushed push_open [of e "evq p" ok q] assms(4) show ?thesis by (simp add: ingest_over_def)
  qed (use assms(4,5) endless [of i "src p"] in \<open>auto simp: ingest_over_def\<close>)
next
  case (publish j)
  from publish(2) show ?thesis by (cases rule: publish_cases) (use assms(4,5) in \<open>auto simp: ingest_over_def\<close>)
qed

text \<open>
  C30: \<^verbatim>\<open>stop()\<close> without \<^verbatim>\<open>requestStop()\<close> never completes on a source that does not end by itself, as the
  documentation of the pipeline warns: as long as nobody calls \<^verbatim>\<open>requestStop()\<close>, no run reaches a state
  in which the ingest thread has ended or \<^verbatim>\<open>stop()\<close> has returned.
\<close>

theorem pipeline_stop_alone_hangs:
  assumes "\<And>i s s' r. src_step S i s = (s', r) \<Longrightarrow> \<not> stop_req s \<Longrightarrow> r \<noteq> Finished \<and> \<not> stop_req s'"
    and "\<And>s. \<not> stop_req s \<Longrightarrow> \<not> stop_req (fst (src_start S s))"
    and "\<not> stop_req s" "runs_from S P dump as s pb c rec fs p" "Request_stop \<notin> set as"
  shows "\<not> ingest_finished p \<and> \<not> stopped p"
proof -
  from assms(4,5) have "\<not> stop_req (src p) \<and> \<not> ingest_over p"
  proof (induction as arbitrary: p rule: rev_induct)
    case Nil
    then have "p = IngestionPipeline_new s pb c rec fs" by (auto elim: pruns_NilE)
    with assms(3) show ?case by (simp add: IngestionPipeline_new_def ingest_over_def)
  next
    case (snoc a as)
    then obtain p' where p': "runs_from S P dump as s pb c rec fs p'" "pstep S P dump a p' p"
      by (auto elim: pruns_snocE)
    with snoc have "\<not> stop_req (src p')" "\<not> ingest_over p'" "a \<noteq> Request_stop" by auto
    with endless_step [OF p'(2) runs_inv(1) [OF p'(1)], of stop_req] assms(1,2) show ?case by blast
  qed
  then show ?thesis using runs_inv(1) [OF assms(4)] by (auto simp: ctl_inv_def ingest_over_def)
qed

theorem pipeline_stop_alone_hangs_witness:
  "let p = the (sample_run 12) in \<not> ingest_finished p \<and> \<not> stopped p"
  unfolding Let_def
proof (rule pipeline_stop_alone_hangs [where stop_req = inf_stop_requested, OF _ _ _ sample_runs [OF sample_run_possible(1)]])
  show "Request_stop \<notin> set (take 12 sample_schedule)" by (simp add: sample_schedule_def)
qed (auto simp: infinite_iface_def infinite_next_def infinite_start_def FakeInfiniteSource_new_def split: if_splits)

lemma zero_capacity_empty: "bound_inv 0 p \<Longrightarrow> queue (evq p) = []"
  by (auto simp: bound_inv_def bq_inv_def)

lemma zero_capacity_step:
  assumes "pstep S P dump a p p'" "bound_inv 0 p" "handled p = []" "publish_hand p = []"
  shows "handled p' = [] \<and> publish_hand p' = []"
  using assms(1)
proof (cases rule: pstep_cases)
  case call
  from assms(1) call show ?thesis by (cases rule: call_cases) (use assms(3,4) in \<open>simp_all add: hand_defs\<close>)
next
  case owner
  from owner(2) show ?thesis by (cases rule: owner_cases) (use assms(3,4) in \<open>simp_all add: hand_defs\<close>)
next
  case (ingest i)
  from ingest(2) show ?thesis by (cases rule: ingest_cases) (use assms(3,4) in \<open>simp_all add: hand_defs\<close>)
next
  case (publish j)
  from publish(2) show ?thesis
  proof (cases rule: publish_cases)
    case (popped e q)
    with pop_some [of "evq p" e q] zero_capacity_empty [OF assms(2)] show ?thesis by simp
  qed (use assms(3,4) in \<open>simp_all add: hand_defs\<close>)
qed

text \<open>
  C29: a pipeline with a queue of capacity zero hangs on its first event, for good: once the source has
  returned an event, nothing is ever handed to the publisher, the ingest thread never ends, and
  \<^verbatim>\<open>stop()\<close> never completes, not even after \<^verbatim>\<open>requestStop()\<close>.
\<close>

theorem pipeline_zero_capacity_hangs:
  assumes "runs_from S P dump as s pb 0 rec fs p" "fetched p \<noteq> []"
  shows "handled p = [] \<and> ingest_hand p = fetched p \<and> \<not> ingest_finished p \<and> \<not> stopped p"
proof -
  from assms(1) have h: "handled p = [] \<and> publish_hand p = []"
  proof (induction as arbitrary: p rule: rev_induct)
    case Nil
    then have "p = IngestionPipeline_new s pb 0 rec fs" by (auto elim: pruns_NilE)
    then show ?case by (simp add: IngestionPipeline_new_def publish_hand_def)
  next
    case (snoc a as)
    then obtain p' where p': "runs_from S P dump as s pb 0 rec fs p'" "pstep S P dump a p' p"
      by (auto elim: pruns_snocE)
    with snoc.IH zero_capacity_step [OF p'(2) runs_inv(3) [OF p'(1)]] show ?case by blast
  qed
  note invs = runs_inv [OF assms(1)]
  from zero_capacity_empty [OF invs(3)] h invs(2) have hand: "ingest_hand p = fetched p" by (simp add: flow_inv_def)
  then have "ingest_thread p \<noteq> I_exited" using assms(2) by (auto simp: ingest_hand_def)
  with h hand invs(1) show ?thesis by (auto simp: ctl_inv_def)
qed

definition zero_capacity_run :: "(FakeInfiniteSource, FakeEventPublisher) IngestionPipeline option" where
  "zero_capacity_run = do_actions infinite_iface fake_publisher_iface ref_dump
     [Start, Owner, Owner, Ingest (), Ingest (), Ingest (), Request_stop, Stop]
     (IngestionPipeline_new FakeInfiniteSource_new FakeEventPublisher_new 0 None Map.empty)"

theorem pipeline_zero_capacity_hangs_witness:
  "handled (the zero_capacity_run) = [] \<and> ingest_hand (the zero_capacity_run) = fetched (the zero_capacity_run) \<and>
    \<not> ingest_finished (the zero_capacity_run) \<and> \<not> stopped (the zero_capacity_run)"
proof -
  have "\<not> Option.is_none zero_capacity_run" and f: "fetched (the zero_capacity_run) \<noteq> []" by code_simp+
  then have "runs_from infinite_iface fake_publisher_iface ref_dump
      [Start, Owner, Owner, Ingest (), Ingest (), Ingest (), Request_stop, Stop]
      FakeInfiniteSource_new FakeEventPublisher_new 0 None Map.empty (the zero_capacity_run)"
    by (simp add: do_actions_pruns [symmetric] zero_capacity_run_def Option.is_none_def)
  from pipeline_zero_capacity_hangs [OF this f] show ?thesis .
qed

text \<open>
  C28: a source that fails to start leaves the pipeline as it was. The exception of the source is passed
  on, no thread is created, and \<^verbatim>\<open>requestStop()\<close>, \<^verbatim>\<open>stop()\<close> and the destructor then do nothing, so that
  leaving the scope does not hang; \<^verbatim>\<open>start()\<close> may be called again.
\<close>

theorem pipeline_start_failure:
  assumes "runs_from S P dump as s pb c rec fs p" "\<not> started p" "src_start S (src p) = (s', Some x)"
  shows "pipeline_start S p = (p\<lparr>src := s'\<rparr>, Some x) \<and>
    (let q = fst (pipeline_start S p)
     in ingest_thread q = I_unborn \<and> publish_thread q = P_unborn \<and> owner_thread q = O_idle \<and>
        requestStop S q = q \<and> pipeline_stop q = q \<and> pipeline_destroy S q = q \<and> \<not> started q)"
  using runs_inv(1) [OF assms(1)] assms(2,3)
  by (simp add: pipeline_start_def requestStop_def pipeline_stop_def pipeline_destroy_def Let_def ctl_inv_def)

theorem pipeline_start_failure_witness:
  "pipeline_start (replay_iface Map.empty ref_parse)
      (IngestionPipeline_new (ReplaySource_new ''gone'') FakeEventPublisher_new 4 None Map.empty) =
    ((IngestionPipeline_new (ReplaySource_new ''gone'') FakeEventPublisher_new 4 None Map.empty)
       \<lparr>src := ReplaySource_new ''gone''\<rparr>,
     Some (Runtime_error (''ReplaySource: failed to open replay file: '' @ ''gone'')))"
proof -
  let ?p = "IngestionPipeline_new (ReplaySource_new ''gone'') FakeEventPublisher_new 4 None Map.empty"
  have "src_start (replay_iface Map.empty ref_parse) (src ?p) =
      (ReplaySource_new ''gone'', Some (Runtime_error (''ReplaySource: failed to open replay file: '' @ ''gone'')))"
    by (simp add: IngestionPipeline_new_def replay_iface_def ReplaySource_start_def ReplaySource_new_def)
  moreover have "\<not> started ?p" by (simp add: IngestionPipeline_new_def)
  ultimately show ?thesis
    using pipeline_start_failure [OF pruns_Nil, of "ReplaySource_new ''gone''" FakeEventPublisher_new 4 None Map.empty]
    by blast
qed

end
