(* ===== verification/Pipeline_Threads.thy ===== *)
theory Pipeline_Threads
  imports Queue_Threads Pipeline_Properties
begin

text \<open>
  The pipeline with its queue at the level of instructions. \<^verbatim>\<open>Ingestion_Pipeline\<close> takes a call of the
  queue as one step; here the ingest thread, the publish thread and the owner go through \<^verbatim>\<open>push\<close>, \<^verbatim>\<open>pop\<close>
  and \<^verbatim>\<open>shutdown\<close> instruction by instruction, with the mutex, the condition variables and spurious
  wakeups of \<^verbatim>\<open>Queue_Threads\<close>. Every run at this level is, seen through an abstraction function, a run at
  the coarse level, so all that is proved there holds of the code as its threads really interleave;
  and no interleaving of instructions makes \<^verbatim>\<open>stop()\<close> hang.
\<close>

section \<open>Steps\<close>

text \<open>The threads of the pipeline as threads of the queue: 0 ingests, 1 publishes, 2 is the owner.\<close>

record ('s, 'p) fine_pipeline =
  fine :: "('s, 'p) IngestionPipeline" \<comment> \<open>all but the queue; its field \<^verbatim>\<open>evq\<close> is not used\<close>
  calls :: "MarketEvent queue_threads"

definition fine_new :: "'s \<Rightarrow> 'p \<Rightarrow> nat \<Rightarrow> EventRecorder option \<Rightarrow> files \<Rightarrow> ('s, 'p) fine_pipeline" where
  "fine_new s pb c rec fs = \<lparr>fine = IngestionPipeline_new s pb c rec fs, calls = threads_start c 3\<rparr>"

text \<open>The actions of the coarse level that call the queue.\<close>

definition queue_call :: "('i, 'j) action \<Rightarrow> ('s, 'p) IngestionPipeline \<Rightarrow> bool" where
  "queue_call a p \<longleftrightarrow>
     (case a of
        Ingest i \<Rightarrow> (case ingest_thread p of I_push e \<Rightarrow> True | _ \<Rightarrow> False)
      | Publish j \<Rightarrow> publish_thread p = P_pop
      | Owner \<Rightarrow> owner_thread p = O_shutdown
      | _ \<Rightarrow> False)"

text \<open>When a call returns, its thread goes on with the result.\<close>

definition push_returns ::
    "MarketEvent queue_threads \<Rightarrow> MarketEvent queue_threads \<Rightarrow> ('s, 'p) IngestionPipeline \<Rightarrow> ('s, 'p) IngestionPipeline" where
  "push_returns s t p =
     (if at_pc t 0 Idle then p\<lparr>ingest_thread := if at_pc s 0 PushNotify then I_next else I_finish\<rparr> else p)"

definition pop_returns ::
    "MarketEvent queue_threads \<Rightarrow> MarketEvent queue_threads \<Rightarrow> ('s, 'p) IngestionPipeline \<Rightarrow> ('s, 'p) IngestionPipeline" where
  "pop_returns s t p =
     (if at_pc t 1 Idle then p\<lparr>publish_thread := if at_pc s 1 PopNotify then P_publish (last (gave s)) else P_flush\<rparr> else p)"

definition shutdown_returns ::
    "MarketEvent queue_threads \<Rightarrow> ('s, 'p) IngestionPipeline \<Rightarrow> ('s, 'p) IngestionPipeline" where
  "shutdown_returns t p = (if at_pc t 2 Idle then p\<lparr>owner_thread := O_join_publish\<rparr> else p)"

datatype ('i, 'j) fine_action = Outside "('i, 'j) action" | Instruction nat

inductive fstep ::
    "('i, 's) source_iface \<Rightarrow> ('j, 'p) publisher_iface \<Rightarrow> json_dumper \<Rightarrow> ('i, 'j) fine_action \<Rightarrow>
     ('s, 'p) fine_pipeline \<Rightarrow> ('s, 'p) fine_pipeline \<Rightarrow> bool"
  for S P dump where
  outside: "\<lbrakk>do_action S P dump a (fine f) = Some p; \<not> queue_call a (fine f)\<rbrakk> \<Longrightarrow>
    fstep S P dump (Outside a) f (f\<lparr>fine := p\<rparr>)"
| in_push: "\<lbrakk>terminated (fine f) = None; ingest_thread (fine f) = I_push e; qstep 0 (calls f) t;
      at_pc (calls f) 0 Idle \<longrightarrow> at_pc t 0 (PushLock e)\<rbrakk> \<Longrightarrow>
    fstep S P dump (Instruction 0) f \<lparr>fine = push_returns (calls f) t (fine f), calls = t\<rparr>"
| in_pop: "\<lbrakk>terminated (fine f) = None; publish_thread (fine f) = P_pop; qstep 1 (calls f) t;
      at_pc (calls f) 1 Idle \<longrightarrow> at_pc t 1 PopLock\<rbrakk> \<Longrightarrow>
    fstep S P dump (Instruction 1) f \<lparr>fine = pop_returns (calls f) t (fine f), calls = t\<rparr>"
| in_shutdown: "\<lbrakk>terminated (fine f) = None; owner_thread (fine f) = O_shutdown; qstep 2 (calls f) t;
      at_pc (calls f) 2 Idle \<longrightarrow> at_pc t 2 ShutLock\<rbrakk> \<Longrightarrow>
    fstep S P dump (Instruction 2) f \<lparr>fine = shutdown_returns t (fine f), calls = t\<rparr>"

inductive freach ::
    "('i, 's) source_iface \<Rightarrow> ('j, 'p) publisher_iface \<Rightarrow> json_dumper \<Rightarrow> ('s, 'p) fine_pipeline \<Rightarrow>
     ('s, 'p) fine_pipeline \<Rightarrow> bool"
  for S P dump f0 where
  init: "freach S P dump f0 f0"
| step: "freach S P dump f0 f \<Longrightarrow> fstep S P dump l f f' \<Longrightarrow> freach S P dump f0 f'"

section \<open>The abstraction\<close>

text \<open>
  A call takes effect in its critical section. From there to its return, the thread is already past
  the call at the coarse level.
\<close>

definition abs_ingest :: "MarketEvent queue_threads \<Rightarrow> ingest_point \<Rightarrow> ingest_point" where
  "abs_ingest t i = (if at_pc t 0 PushNotify then I_next else i)"

definition abs_publish :: "MarketEvent queue_threads \<Rightarrow> publish_point \<Rightarrow> publish_point" where
  "abs_publish t u = (if at_pc t 1 PopNotify then P_publish (last (gave t)) else u)"

definition abs_owner :: "MarketEvent queue_threads \<Rightarrow> owner_point \<Rightarrow> owner_point" where
  "abs_owner t w = (if at_pc t 2 ShutNotifyFull \<or> at_pc t 2 ShutNotifyEmpty then O_join_publish else w)"

definition coarse :: "('s, 'p) fine_pipeline \<Rightarrow> ('s, 'p) IngestionPipeline" where
  "coarse f = (fine f)\<lparr>evq := shared (calls f), ingest_thread := abs_ingest (calls f) (ingest_thread (fine f)),
     publish_thread := abs_publish (calls f) (publish_thread (fine f)),
     owner_thread := abs_owner (calls f) (owner_thread (fine f))\<rparr>"

text \<open>Where a thread can be in the queue, given where it is in the pipeline.\<close>

definition push_pc :: "MarketEvent \<Rightarrow> MarketEvent pc set" where
  "push_pc e = {PushLock e, PushTest e, PushWait e, PushWake e, PushBody e, PushNotify}"

definition pop_pc :: "MarketEvent pc set" where
  "pop_pc = {PopLock, PopTest, PopWait, PopWake, PopBody, PopNotify}"

definition shut_pc :: "MarketEvent pc set" where
  "shut_pc = {ShutLock, ShutSet, ShutNotifyFull, ShutNotifyEmpty}"

definition calls_ok :: "('s, 'p) fine_pipeline \<Rightarrow> bool" where
  "calls_ok f \<longleftrightarrow> length (thr (calls f)) = 3 \<and>
     (thr (calls f) ! 0 = Idle \<or> (\<exists>e. ingest_thread (fine f) = I_push e \<and> thr (calls f) ! 0 \<in> push_pc e)) \<and>
     (thr (calls f) ! 1 = Idle \<or> publish_thread (fine f) = P_pop \<and> thr (calls f) ! 1 \<in> pop_pc) \<and>
     (thr (calls f) ! 2 = Idle \<or> owner_thread (fine f) = O_shutdown \<and> thr (calls f) ! 2 \<in> shut_pc)"


section \<open>The instructions of each call\<close>

text \<open>What the step of one thread can do to another: wake it.\<close>

definition woken :: "'a pc \<Rightarrow> 'a pc \<Rightarrow> bool" where
  "woken p p' \<longleftrightarrow> p' = p \<or> p' = wake_push p \<or> p' = wake_pop p"

lemma qstep_others: "qstep i s t \<Longrightarrow> j \<noteq> i \<Longrightarrow> j < length (thr s) \<Longrightarrow> woken (thr s ! j) (thr t ! j)"
  by (induction rule: qstep.induct) (auto simp: woken_def at_pc_def nth_list_update)

lemma woken_keeps:
  assumes "woken p p'"
  shows "p' = Idle \<longleftrightarrow> p = Idle" "p' = PushNotify \<longleftrightarrow> p = PushNotify" "p' = PopNotify \<longleftrightarrow> p = PopNotify"
    "p' = ShutNotifyFull \<longleftrightarrow> p = ShutNotifyFull" "p' = ShutNotifyEmpty \<longleftrightarrow> p = ShutNotifyEmpty"
    "p' \<in> push_pc e \<longleftrightarrow> p \<in> push_pc e" "p' \<in> pop_pc \<longleftrightarrow> p \<in> pop_pc" "p' \<in> shut_pc \<longleftrightarrow> p \<in> shut_pc"
  using assms by (cases p; auto simp: woken_def push_pc_def pop_pc_def shut_pc_def)+

lemma push_instruction:
  assumes "qstep i s t" "thr s ! i = Idle \<and> thr t ! i = PushLock e \<or> thr s ! i \<in> push_pc e"
  obtains
    (silent) "shared t = shared s" "trace t = trace s" "gave t = gave s" "thr t ! i \<in> push_pc e" "thr s ! i \<noteq> PushNotify" "thr t ! i \<noteq> PushNotify"
  | (accepted) "thr s ! i = PushBody e" "push_critical e (shared s) = (True, shared t)" "gave t = gave s"
      "thr t ! i = PushNotify"
  | (refused) "thr s ! i = PushBody e" "push_critical e (shared s) = (False, shared t)" "gave t = gave s" "thr t ! i = Idle"
  | (returned) "thr s ! i = PushNotify" "shared t = shared s" "trace t = trace s" "gave t = gave s" "thr t ! i = Idle"
  using assms(1)
proof cases
  case (push_notify j)
  then have "j \<noteq> i" by (auto simp: at_pc_def)
  with push_notify show thesis by (intro returned) (simp_all add: at_pc_def)
qed (use assms(2) that in \<open>auto simp: at_pc_def push_pc_def\<close>)

lemma pop_instruction:
  assumes "qstep i s t" "thr s ! i = Idle \<and> thr t ! i = PopLock \<or> thr s ! i \<in> pop_pc"
  obtains
    (silent) "shared t = shared s" "trace t = trace s" "gave t = gave s" "thr t ! i \<in> pop_pc" "thr s ! i \<noteq> PopNotify" "thr t ! i \<noteq> PopNotify"
  | (taken) e where "thr s ! i = PopBody" "pop_critical (shared s) = (Some e, shared t)" "gave t = gave s @ [e]"
      "thr t ! i = PopNotify"
  | (drained) "thr s ! i = PopBody" "pop_critical (shared s) = (None, shared t)" "gave t = gave s" "thr t ! i = Idle"
  | (returned) "thr s ! i = PopNotify" "shared t = shared s" "trace t = trace s" "gave t = gave s" "thr t ! i = Idle"
  using assms(1)
proof cases
  case (pop_notify j x)
  then have "j \<noteq> i" by (auto simp: at_pc_def)
  with pop_notify show thesis by (intro returned) (simp_all add: at_pc_def)
qed (use assms(2) that in \<open>auto simp: at_pc_def pop_pc_def\<close>)

lemma shutdown_instruction:
  assumes "qstep i s t" "thr s ! i = Idle \<and> thr t ! i = ShutLock \<or> thr s ! i \<in> shut_pc"
  obtains
    (silent) "shared t = shared s" "trace t = trace s" "gave t = gave s" "thr t ! i \<in> shut_pc"
      "thr t ! i \<in> {ShutNotifyFull, ShutNotifyEmpty} \<longleftrightarrow> thr s ! i \<in> {ShutNotifyFull, ShutNotifyEmpty}"
  | (closed) "thr s ! i = ShutSet" "shared t = shutdown (shared s)" "gave t = gave s" "thr t ! i = ShutNotifyFull"
  | (returned) "thr s ! i = ShutNotifyEmpty" "shared t = shared s" "trace t = trace s" "gave t = gave s" "thr t ! i = Idle"
  using assms by (cases rule: qstep.cases) (auto simp: at_pc_def shut_pc_def nth_list_update)


section \<open>Steps outside the queue\<close>

lemma calls_okD:
  assumes "calls_ok f"
  shows "length (thr (calls f)) = 3"
    "thr (calls f) ! 0 = Idle \<or> (\<exists>e. ingest_thread (fine f) = I_push e \<and> thr (calls f) ! 0 \<in> push_pc e)"
    "thr (calls f) ! 1 = Idle \<or> publish_thread (fine f) = P_pop \<and> thr (calls f) ! 1 \<in> pop_pc"
    "thr (calls f) ! 2 = Idle \<or> owner_thread (fine f) = O_shutdown \<and> thr (calls f) ! 2 \<in> shut_pc"
  using assms unfolding calls_ok_def by blast+

lemma idle_threads:
  assumes "calls_ok f"
  shows "\<not> queue_call (Ingest i) (fine f) \<Longrightarrow> thr (calls f) ! 0 = Idle"
    "\<not> queue_call (Publish j) (fine f) \<Longrightarrow> thr (calls f) ! 1 = Idle"
    "\<not> queue_call Owner (fine f) \<Longrightarrow> thr (calls f) ! 2 = Idle"
  subgoal by (cases "ingest_thread (fine f)") (use calls_okD(2) [OF assms] in \<open>simp_all add: queue_call_def\<close>)
  subgoal using calls_okD(3) [OF assms] by (simp add: queue_call_def)
  subgoal using calls_okD(4) [OF assms] by (simp add: queue_call_def)
  done

lemma at_pc_thread: "length (thr t) = 3 \<Longrightarrow> i < 3 \<Longrightarrow> at_pc t i p \<longleftrightarrow> thr t ! i = p"
  by (simp add: at_pc_def)

lemma coarse_idle:
  assumes "calls_ok f"
  shows "thr (calls f) ! 0 = Idle \<Longrightarrow> ingest_thread (coarse f) = ingest_thread (fine f)"
    "thr (calls f) ! 1 = Idle \<Longrightarrow> publish_thread (coarse f) = publish_thread (fine f)"
    "thr (calls f) ! 2 = Idle \<Longrightarrow> owner_thread (coarse f) = owner_thread (fine f)"
  using assms by (simp_all add: calls_ok_def coarse_def abs_ingest_def abs_publish_def abs_owner_def at_pc_thread)

lemma outside_ingest:
  assumes "runIngest_step S dump i (fine f) = Some p" "\<not> queue_call (Ingest i) (fine f)" "calls_ok f"
  shows "runIngest_step S dump i (coarse f) = Some (coarse (f\<lparr>fine := p\<rparr>)) \<and> calls_ok (f\<lparr>fine := p\<rparr>)"
proof -
  note idle = idle_threads(1) [OF assms(3,2)]
  note here = coarse_idle(1) [OF assms(3) idle]
  have ing: "abs_ingest (calls f) x = x" for x
    using idle assms(3) by (simp add: abs_ingest_def calls_ok_def at_pc_thread)
  from assms(1) have "runIngest_step S dump i (coarse f) = Some (coarse (f\<lparr>fine := p\<rparr>))"
  proof (cases rule: ingest_cases)
    case (pushed e ok q)
    with assms(2) show ?thesis by (simp add: queue_call_def)
  qed (simp_all add: runIngest_step_def here, simp_all add: coarse_def ing)
  moreover from assms(1) have "publish_thread p = publish_thread (fine f)" "owner_thread p = owner_thread (fine f)"
    by (cases rule: ingest_cases; simp)+
  ultimately show ?thesis using idle assms(3) by (simp add: calls_ok_def)
qed

lemma outside_publish:
  assumes "runPublish_step P j (fine f) = Some p" "\<not> queue_call (Publish j) (fine f)" "calls_ok f"
  shows "runPublish_step P j (coarse f) = Some (coarse (f\<lparr>fine := p\<rparr>)) \<and> calls_ok (f\<lparr>fine := p\<rparr>)"
proof -
  note idle = idle_threads(2) [OF assms(3,2)]
  note here = coarse_idle(2) [OF assms(3) idle]
  have pub: "abs_publish (calls f) x = x" for x
    using idle assms(3) by (simp add: abs_publish_def calls_ok_def at_pc_thread)
  from assms(1) have "runPublish_step P j (coarse f) = Some (coarse (f\<lparr>fine := p\<rparr>))"
  proof (cases rule: publish_cases)
    case (popped e q)
    with assms(2) show ?thesis by (simp add: queue_call_def)
  next
    case (drained q)
    with assms(2) show ?thesis by (simp add: queue_call_def)
  qed (simp_all add: runPublish_step_def here, simp_all add: coarse_def pub)
  moreover from assms(1) have "ingest_thread p = ingest_thread (fine f)" "owner_thread p = owner_thread (fine f)"
    by (cases rule: publish_cases; simp)+
  ultimately show ?thesis using idle assms(3) by (simp add: calls_ok_def)
qed

lemma ingest_unborn:
  "calls_ok f \<Longrightarrow> ingest_thread (coarse f) = I_unborn \<Longrightarrow> thr (calls f) ! 0 = Idle"
  using calls_okD(2) [of f] by (fastforce simp: coarse_def abs_ingest_def split: if_splits)

lemma publish_unborn:
  "calls_ok f \<Longrightarrow> publish_thread (coarse f) = P_unborn \<Longrightarrow> thr (calls f) ! 1 = Idle"
  using calls_okD(3) [of f] by (fastforce simp: coarse_def abs_publish_def split: if_splits)

lemma outside_owner:
  assumes "owner_step (fine f) = Some p" "\<not> queue_call Owner (fine f)" "calls_ok f" "ctl_inv (coarse f)"
  shows "owner_step (coarse f) = Some (coarse (f\<lparr>fine := p\<rparr>)) \<and> calls_ok (f\<lparr>fine := p\<rparr>)"
proof -
  note idle = idle_threads(3) [OF assms(3,2)]
  note here = coarse_idle(3) [OF assms(3) idle]
  note ok = calls_okD [OF assms(3)]
  have own: "abs_owner (calls f) x = x" for x
    using idle ok(1) by (simp add: abs_owner_def at_pc_thread)
  from assms(1) show ?thesis
  proof (cases rule: owner_cases)
    case spawn_ingest
    with assms(4) here have "ingest_thread (coarse f) = I_unborn" by (simp add: ctl_inv_def)
    then have at: "thr (calls f) ! 0 = Idle" by (rule ingest_unborn [OF assms(3)])
    have "calls_ok (f\<lparr>fine := p\<rparr>)" using spawn_ingest ok(1,3) at idle by (simp add: calls_ok_def)
    moreover have "owner_step (coarse f) = Some (coarse (f\<lparr>fine := p\<rparr>))"
      using spawn_ingest at ok(1)
      by (simp add: owner_step_def here) (simp add: coarse_def own abs_ingest_def at_pc_thread)
    ultimately show ?thesis by simp
  next
    case spawn_publish
    with assms(4) here have "publish_thread (coarse f) = P_unborn" by (simp add: ctl_inv_def)
    then have at: "thr (calls f) ! 1 = Idle" by (rule publish_unborn [OF assms(3)])
    have "calls_ok (f\<lparr>fine := p\<rparr>)" using spawn_publish ok(1,2) at idle by (simp add: calls_ok_def)
    moreover have "owner_step (coarse f) = Some (coarse (f\<lparr>fine := p\<rparr>))"
      using spawn_publish at ok(1)
      by (simp add: owner_step_def here) (simp add: coarse_def own abs_publish_def at_pc_thread)
    ultimately show ?thesis by simp
  next
    case joined_ingest
    with ok(2) have "thr (calls f) ! 0 = Idle" by simp
    note at = coarse_idle(1) [OF assms(3) this]
    have "calls_ok (f\<lparr>fine := p\<rparr>)" using joined_ingest ok idle by (simp add: calls_ok_def)
    moreover have "owner_step (coarse f) = Some (coarse (f\<lparr>fine := p\<rparr>))"
      using joined_ingest by (simp add: owner_step_def here at) (simp add: coarse_def own)
    ultimately show ?thesis by simp
  next
    case joined_publish
    with ok(3) have "thr (calls f) ! 1 = Idle" by simp
    note at = coarse_idle(2) [OF assms(3) this]
    have "calls_ok (f\<lparr>fine := p\<rparr>)" using joined_publish ok idle by (simp add: calls_ok_def)
    moreover have "owner_step (coarse f) = Some (coarse (f\<lparr>fine := p\<rparr>))"
      using joined_publish by (simp add: owner_step_def here at) (simp add: coarse_def own)
    ultimately show ?thesis by simp
  qed (use assms(2) in \<open>simp add: queue_call_def\<close>)
qed

lemma outside_call:
  assumes "do_action S P dump a (fine f) = Some p" "a \<in> {Start, Request_stop, Stop}" "calls_ok f"
  shows "do_action S P dump a (coarse f) = Some (coarse (f\<lparr>fine := p\<rparr>)) \<and> calls_ok (f\<lparr>fine := p\<rparr>)"
proof -
  note ok = calls_okD [OF assms(3)]
  show ?thesis
  proof (cases "a = Request_stop")
    case True
    with assms(1) have p: "p = requestStop S (fine f)" "terminated (fine f) = None"
      "owner_thread (fine f) \<notin> {O_spawn_ingest, O_spawn_publish}" by (auto simp: do_action_def split: if_splits)
    then have "requestStop S (coarse f) = coarse (f\<lparr>fine := p\<rparr>)" "terminated (coarse f) = None"
      "owner_thread (coarse f) \<notin> {O_spawn_ingest, O_spawn_publish}"
      by (simp_all add: requestStop_def coarse_def abs_owner_def)
    moreover have "calls_ok (f\<lparr>fine := p\<rparr>)" using assms(3) p(1) by (simp add: calls_ok_def requestStop_def)
    ultimately show ?thesis using True by (simp add: do_action_def)
  next
    case False
    with assms(1,2) have at: "owner_thread (fine f) = O_idle" by (auto simp: do_action_def split: if_splits)
    with ok(4) have idle: "thr (calls f) ! 2 = Idle" by simp
    note here = coarse_idle(3) [OF assms(3) idle]
    have own: "abs_owner (calls f) x = x" for x using idle ok(1) by (simp add: abs_owner_def at_pc_thread)
    have "ingest_thread p = ingest_thread (fine f)" "publish_thread p = publish_thread (fine f)"
      using False assms(1,2) at
      by (auto simp: do_action_def pipeline_start_def pipeline_stop_def split: if_splits prod.splits option.splits)
    then have "calls_ok (f\<lparr>fine := p\<rparr>)" using ok idle by (simp add: calls_ok_def)
    moreover have "do_action S P dump a (coarse f) = Some (coarse (f\<lparr>fine := p\<rparr>))"
      using False assms(1,2) at
      by (auto simp: do_action_def here, auto simp: coarse_def pipeline_start_def pipeline_stop_def own
        split: if_splits prod.splits option.splits)
    ultimately show ?thesis by simp
  qed
qed

lemma outside_simulated:
  assumes "do_action S P dump a (fine f) = Some p" "\<not> queue_call a (fine f)" "calls_ok f" "ctl_inv (coarse f)"
  shows "do_action S P dump a (coarse f) = Some (coarse (f\<lparr>fine := p\<rparr>)) \<and> calls_ok (f\<lparr>fine := p\<rparr>)"
proof -
  have dead: "terminated (coarse f) = terminated (fine f)" by (simp add: coarse_def)
  show ?thesis
    using assms outside_call [OF assms(1) _ assms(3)] outside_ingest [of S dump _ f p] outside_publish [of P _ f p]
      outside_owner [of f p]
    by (cases a) (auto simp: do_action_def dead split: if_splits)
qed

section \<open>Instructions of the queue\<close>

text \<open>What the instruction of one thread leaves of the abstraction of the other two.\<close>

lemma others_kept:
  assumes "qstep i s t" "length (thr s) = 3" "gave t = gave s"
  shows "i \<noteq> 0 \<Longrightarrow> abs_ingest t x = abs_ingest s x" "i \<noteq> 1 \<Longrightarrow> abs_publish t u = abs_publish s u"
    "i \<noteq> 2 \<Longrightarrow> abs_owner t w = abs_owner s w"
  using assms qstep_length [OF assms(1)] woken_keeps(2-5) [OF qstep_others [OF assms(1)]]
  by (simp_all add: abs_ingest_def abs_publish_def abs_owner_def at_pc_thread)

lemma others_ok:
  assumes "qstep i (calls f) t" "calls_ok f"
  shows "i \<noteq> 0 \<Longrightarrow> thr t ! 0 = Idle \<or> (\<exists>e. ingest_thread (fine f) = I_push e \<and> thr t ! 0 \<in> push_pc e)"
    "i \<noteq> 1 \<Longrightarrow> thr t ! 1 = Idle \<or> publish_thread (fine f) = P_pop \<and> thr t ! 1 \<in> pop_pc"
    "i \<noteq> 2 \<Longrightarrow> thr t ! 2 = Idle \<or> owner_thread (fine f) = O_shutdown \<and> thr t ! 2 \<in> shut_pc"
  using woken_keeps(1,6,7,8) [OF qstep_others [OF assms(1)]] assms(2) unfolding calls_ok_def
  by (metis zero_less_numeral, metis one_less_numeral_iff semiring_norm(77), metis lessI numeral_3_eq_3 numeral_2_eq_2)

lemma body_ready:
  assumes "body_inv s" "i < length (thr s)"
  shows "thr s ! i = PushBody e \<Longrightarrow> can_push (shared s)" "thr s ! i = PopBody \<Longrightarrow> can_pop (shared s)"
  using assms by (auto simp: body_inv_def)

lemma push_simulated:
  assumes "terminated (fine f) = None" "ingest_thread (fine f) = I_push e" "qstep 0 (calls f) t"
    and "at_pc (calls f) 0 Idle \<longrightarrow> at_pc t 0 (PushLock e)" "calls_ok f" "body_inv (calls f)"
  defines "f' \<equiv> \<lparr>fine = push_returns (calls f) t (fine f), calls = t\<rparr>"
  shows "calls_ok f' \<and>
    (coarse f' = coarse f \<and> trace t = trace (calls f) \<or> do_action S P dump (Ingest i) (coarse f) = Some (coarse f'))"
proof -
  let ?s = "calls f"
  have len: "length (thr ?s) = 3" "length (thr t) = 3" using assms(3,5) by (simp_all add: calls_ok_def qstep_length)
  have at: "thr ?s ! 0 = Idle \<and> thr t ! 0 = PushLock e \<or> thr ?s ! 0 \<in> push_pc e"
    using assms(2,4,5) len by (auto simp: calls_ok_def at_pc_thread)
  have ok: "thr t ! 0 = Idle \<or> thr t ! 0 \<in> push_pc e"
    using assms(3) at by (cases rule: push_instruction) (auto simp: push_pc_def)
  have "gave t = gave ?s" using assms(3) at by (cases rule: push_instruction) auto
  note kept = others_kept [OF assms(3) len(1) this]
  have "calls_ok f'"
    using ok len assms(2) others_ok(2,3) [OF assms(3,5)]
    by (simp add: calls_ok_def f'_def push_returns_def at_pc_thread) blast
  moreover have "coarse f' = coarse f \<and> trace t = trace ?s \<or> do_action S P dump (Ingest i) (coarse f) = Some (coarse f')"
    using assms(3) at
  proof (cases rule: push_instruction)
    case silent
    then have "thr t ! 0 \<noteq> Idle" by (auto simp: push_pc_def)
    with silent kept len show ?thesis
      by (simp add: coarse_def f'_def push_returns_def abs_ingest_def at_pc_thread)
  next
    case accepted
    then have "can_push (shared ?s)" using body_ready(1) [OF assms(6), of 0] len by simp
    with accepted kept len assms(1,2) show ?thesis
      by (simp add: do_action_def runIngest_step_def push_def coarse_def f'_def push_returns_def abs_ingest_def at_pc_thread)
  next
    case refused
    then have "can_push (shared ?s)" using body_ready(1) [OF assms(6), of 0] len by simp
    with refused kept len assms(1,2) show ?thesis
      by (simp add: do_action_def runIngest_step_def push_def coarse_def f'_def push_returns_def abs_ingest_def at_pc_thread)
  next
    case returned
    then show ?thesis
      using kept len by (simp add: coarse_def f'_def push_returns_def abs_ingest_def at_pc_thread)
  qed
  ultimately show ?thesis ..
qed

lemma pop_simulated:
  assumes "terminated (fine f) = None" "publish_thread (fine f) = P_pop" "qstep 1 (calls f) t"
    and "at_pc (calls f) 1 Idle \<longrightarrow> at_pc t 1 PopLock" "calls_ok f" "body_inv (calls f)"
  defines "f' \<equiv> \<lparr>fine = pop_returns (calls f) t (fine f), calls = t\<rparr>"
  shows "calls_ok f' \<and>
    (coarse f' = coarse f \<and> trace t = trace (calls f) \<or> do_action S P dump (Publish j) (coarse f) = Some (coarse f'))"
proof -
  let ?s = "calls f"
  have len: "length (thr ?s) = 3" "length (thr t) = 3" using assms(3,5) by (simp_all add: calls_ok_def qstep_length)
  have at: "thr ?s ! 1 = Idle \<and> thr t ! 1 = PopLock \<or> thr ?s ! 1 \<in> pop_pc"
    using assms(2,4,5) len by (auto simp: calls_ok_def at_pc_thread)
  have ok: "thr t ! 1 = Idle \<or> thr t ! 1 \<in> pop_pc"
    using assms(3) at by (cases rule: pop_instruction) (auto simp: pop_pc_def)
  have kept: "abs_ingest t x = abs_ingest ?s x" "abs_owner t w = abs_owner ?s w" for x w
    using len woken_keeps(2,4,5) [OF qstep_others [OF assms(3)]]
    by (simp_all add: abs_ingest_def abs_owner_def at_pc_thread)
  have "calls_ok f'"
    using ok len assms(2) others_ok(1,3) [OF assms(3,5)]
    by (simp add: calls_ok_def f'_def pop_returns_def at_pc_thread) blast
  moreover have "coarse f' = coarse f \<and> trace t = trace ?s \<or> do_action S P dump (Publish j) (coarse f) = Some (coarse f')"
    using assms(3) at
  proof (cases rule: pop_instruction)
    case silent
    then have "thr t ! 1 \<noteq> Idle" by (auto simp: pop_pc_def)
    with silent kept len show ?thesis
      by (simp add: coarse_def f'_def pop_returns_def abs_publish_def at_pc_thread)
  next
    case (taken e)
    then have "can_pop (shared ?s)" using body_ready(2) [OF assms(6), of 1] len by simp
    with taken kept len assms(1,2) show ?thesis
      by (simp add: do_action_def runPublish_step_def pop_def coarse_def f'_def pop_returns_def abs_publish_def at_pc_thread)
  next
    case drained
    then have "can_pop (shared ?s)" using body_ready(2) [OF assms(6), of 1] len by simp
    with drained kept len assms(1,2) show ?thesis
      by (simp add: do_action_def runPublish_step_def pop_def coarse_def f'_def pop_returns_def abs_publish_def at_pc_thread)
  next
    case returned
    then show ?thesis
      using kept len by (simp add: coarse_def f'_def pop_returns_def abs_publish_def at_pc_thread)
  qed
  ultimately show ?thesis ..
qed

lemma shutdown_simulated:
  assumes "terminated (fine f) = None" "owner_thread (fine f) = O_shutdown" "qstep 2 (calls f) t"
    and "at_pc (calls f) 2 Idle \<longrightarrow> at_pc t 2 ShutLock" "calls_ok f"
  defines "f' \<equiv> \<lparr>fine = shutdown_returns t (fine f), calls = t\<rparr>"
  shows "calls_ok f' \<and>
    (coarse f' = coarse f \<and> trace t = trace (calls f) \<or> do_action S P dump Owner (coarse f) = Some (coarse f'))"
proof -
  let ?s = "calls f"
  have len: "length (thr ?s) = 3" "length (thr t) = 3" using assms(3,5) by (simp_all add: calls_ok_def qstep_length)
  have at: "thr ?s ! 2 = Idle \<and> thr t ! 2 = ShutLock \<or> thr ?s ! 2 \<in> shut_pc"
    using assms(2,4,5) len by (auto simp: calls_ok_def at_pc_thread)
  have ok: "thr t ! 2 = Idle \<or> thr t ! 2 \<in> shut_pc"
    using assms(3) at by (cases rule: shutdown_instruction) (auto simp: shut_pc_def)
  have "gave t = gave ?s" using assms(3) at by (cases rule: shutdown_instruction) auto
  note kept = others_kept [OF assms(3) len(1) this]
  have "calls_ok f'"
    using ok len assms(2) others_ok(1,2) [OF assms(3,5)]
    by (simp add: calls_ok_def f'_def shutdown_returns_def at_pc_thread) blast
  moreover have "coarse f' = coarse f \<and> trace t = trace ?s \<or> do_action S P dump Owner (coarse f) = Some (coarse f')"
    using assms(3) at
  proof (cases rule: shutdown_instruction)
    case silent
    then have "thr t ! 2 \<noteq> Idle" by (auto simp: shut_pc_def)
    with silent kept len show ?thesis
      by (simp add: coarse_def f'_def shutdown_returns_def abs_owner_def at_pc_thread)
  next
    case closed
    with kept len assms(1,2) show ?thesis
      by (simp add: do_action_def owner_step_def coarse_def f'_def shutdown_returns_def abs_owner_def at_pc_thread)
  next
    case returned
    then show ?thesis
      using kept len by (simp add: coarse_def f'_def shutdown_returns_def abs_owner_def at_pc_thread)
  qed
  ultimately show ?thesis ..
qed

section \<open>Runs\<close>

lemma fine_start:
  "calls_ok (fine_new s pb c rec fs)" "coarse (fine_new s pb c rec fs) = IngestionPipeline_new s pb c rec fs"
  by (simp_all add: calls_ok_def fine_new_def threads_start_def coarse_def IngestionPipeline_new_def abs_ingest_def
    abs_publish_def abs_owner_def at_pc_def numeral_3_eq_3 numeral_2_eq_2)

lemma fstep_qreach: "fstep S P dump l f f' \<Longrightarrow> qreach c 3 (calls f) \<Longrightarrow> qreach c 3 (calls f')"
  by (cases rule: fstep.cases) (auto intro: qreach.step)

lemma fstep_simulated:
  assumes "fstep S P dump l f f'" "calls_ok f" "qreach c 3 (calls f)" "ctl_inv (coarse f)"
  shows "calls_ok f' \<and> (coarse f' = coarse f \<or> (\<exists>a. pstep S P dump a (coarse f) (coarse f')))"
proof -
  have body: "body_inv (calls f)" using qreach_safe [OF assms(3)] by (simp add: safe_inv_def)
  note rep = do_action_pstep [of S P dump, symmetric]
  from assms(1) show ?thesis
  proof cases
    case (outside a p)
    show ?thesis using outside_simulated [OF outside(3,4) assms(2,4)] unfolding outside(2) rep by blast
  next
    case (in_push e t)
    show ?thesis using push_simulated [OF in_push(3-6) assms(2) body, of S P dump] unfolding in_push(2) rep by blast
  next
    case (in_pop t)
    show ?thesis using pop_simulated [OF in_pop(3-6) assms(2) body, of S P dump] unfolding in_pop(2) rep by blast
  next
    case (in_shutdown t)
    show ?thesis using shutdown_simulated [OF in_shutdown(3-6) assms(2), of S P dump] unfolding in_shutdown(2) rep by blast
  qed
qed

lemma freach_inv:
  assumes "freach S P dump (fine_new s pb c rec fs) f"
  shows "qreach c 3 (calls f) \<and> calls_ok f \<and> (\<exists>as. runs_from S P dump as s pb c rec fs (coarse f))"
  using assms
proof (induction rule: freach.induct)
  case init
  have "qreach c 3 (calls (fine_new s pb c rec fs))" by (simp add: fine_new_def qreach.start)
  then show ?case using fine_start [of s pb c rec fs] pruns_Nil by metis
next
  case (step f l f')
  then obtain as where as: "runs_from S P dump as s pb c rec fs (coarse f)" by blast
  from fstep_simulated [OF step.hyps(2) _ _ runs_inv(1) [OF as]] step.IH as
  have "calls_ok f' \<and> (\<exists>bs. runs_from S P dump bs s pb c rec fs (coarse f'))"
    by (metis pruns_Snoc)
  with fstep_qreach [OF step.hyps(2)] step.IH show ?case by blast
qed


section \<open>A scheduler\<close>

text \<open>
  The next instruction of a thread as a function, with the call it makes when it is idle; a notification goes to
  the first thread that waits for it, and nobody wakes without one.
\<close>

definition parked :: "'a pc \<Rightarrow> bool" where
  "parked p \<longleftrightarrow> is_PushWait p \<or> is_PopWait p"

definition first_at :: "('a pc \<Rightarrow> bool) \<Rightarrow> 'a queue_threads \<Rightarrow> nat option" where
  "first_at P s = List.find (\<lambda>j. P (thr s ! j)) [0..<length (thr s)]"

definition acquire :: "nat \<Rightarrow> 'a pc \<Rightarrow> 'a queue_threads \<Rightarrow> 'a queue_threads option" where
  "acquire i p s = (if owner s = None then Some (goto i p (s\<lparr>owner := Some i\<rparr>)) else None)"

definition instruction :: "nat \<Rightarrow> 'a pc \<Rightarrow> 'a queue_threads \<Rightarrow> 'a queue_threads option" where
  "instruction i entry s =
     (case thr s ! i of
        Idle \<Rightarrow> Some (goto i entry s)
      | PushLock x \<Rightarrow> acquire i (PushTest x) s
      | PushTest x \<Rightarrow> Some (if can_push (shared s) then goto i (PushBody x) s else goto i (PushWait x) (s\<lparr>owner := None\<rparr>))
      | PushWait x \<Rightarrow> None
      | PushWake x \<Rightarrow> acquire i (PushTest x) s
      | PushBody x \<Rightarrow>
          (case push_critical x (shared s) of
             (True, q) \<Rightarrow> Some (goto i PushNotify (s\<lparr>shared := q, owner := None, trace := trace s @ [Push x], took := took s @ [x]\<rparr>))
           | (False, q) \<Rightarrow> Some (goto i Idle (s\<lparr>shared := q, owner := None, trace := trace s @ [Push x]\<rparr>)))
      | PushNotify \<Rightarrow>
          (case first_at is_PopWait s of
             None \<Rightarrow> Some (goto i Idle s) | Some j \<Rightarrow> Some (goto j PopWake (goto i Idle s)))
      | PopLock \<Rightarrow> acquire i PopTest s
      | PopTest \<Rightarrow> Some (if can_pop (shared s) then goto i PopBody s else goto i PopWait (s\<lparr>owner := None\<rparr>))
      | PopWait \<Rightarrow> None
      | PopWake \<Rightarrow> acquire i PopTest s
      | PopBody \<Rightarrow>
          (case pop_critical (shared s) of
             (Some x, q) \<Rightarrow> Some (goto i PopNotify (s\<lparr>shared := q, owner := None, trace := trace s @ [Pop], gave := gave s @ [x]\<rparr>))
           | (None, q) \<Rightarrow> Some (goto i Idle (s\<lparr>shared := q, owner := None, trace := trace s @ [Pop]\<rparr>)))
      | PopNotify \<Rightarrow>
          (case first_at is_PushWait s of
             None \<Rightarrow> Some (goto i Idle s) | Some j \<Rightarrow> Some (goto j (wake_push (thr s ! j)) (goto i Idle s)))
      | ShutLock \<Rightarrow> acquire i ShutSet s
      | ShutSet \<Rightarrow> Some (goto i ShutNotifyFull (s\<lparr>shared := shutdown (shared s), owner := None, trace := trace s @ [Shutdown]\<rparr>))
      | ShutNotifyFull \<Rightarrow> Some (goto i ShutNotifyEmpty (s\<lparr>thr := map wake_push (thr s)\<rparr>))
      | ShutNotifyEmpty \<Rightarrow> Some (goto i Idle (s\<lparr>thr := map wake_pop (thr s)\<rparr>)))"

lemma first_at_Some: "first_at P s = Some j \<Longrightarrow> j < length (thr s) \<and> P (thr s ! j)"
  by (auto simp: first_at_def find_Some_iff)

lemma first_at_None: "first_at P s = None \<Longrightarrow> at_pc s j p \<Longrightarrow> \<not> P p"
  by (auto simp: first_at_def find_None_iff at_pc_def)

lemma instruction_qstep:
  assumes "instruction i entry s = Some t" "i < length (thr s)" "entry \<in> {PopLock, ShutLock} \<union> range PushLock"
  shows "qstep i s t"
proof -
  have here: "at_pc s i (thr s ! i)" using assms(2) by (simp add: at_pc_def)
  show ?thesis
  proof (cases "thr s ! i")
    case Idle
    with here assms show ?thesis by (auto simp: instruction_def intro: qstep.intros)
  next
    case PushNotify
    show ?thesis
    proof (cases "first_at is_PopWait s")
      case None
      have "\<not> (\<exists>j. at_pc s j PopWait)" using first_at_None [OF None] by fastforce
      with None PushNotify here assms(1) show ?thesis by (auto simp: instruction_def intro: qstep.push_notify_lost)
    next
      case (Some j)
      from first_at_Some [OF this] have "at_pc s j PopWait" by (cases "thr s ! j") (auto simp: at_pc_def)
      with Some PushNotify here assms(1) show ?thesis by (auto simp: instruction_def intro: qstep.push_notify)
    qed
  next
    case PopNotify
    show ?thesis
    proof (cases "first_at is_PushWait s")
      case None
      have "\<not> (\<exists>j x. at_pc s j (PushWait x))" using first_at_None [OF None] by fastforce
      with None PopNotify here assms(1) show ?thesis by (auto simp: instruction_def intro: qstep.pop_notify_lost)
    next
      case (Some j)
      from first_at_Some [OF this] obtain x where "thr s ! j = PushWait x" "at_pc s j (PushWait x)"
        by (cases "thr s ! j") (auto simp: at_pc_def)
      with Some PopNotify here assms(1) show ?thesis by (auto simp: instruction_def intro: qstep.pop_notify)
    qed
  qed (use here assms(1) in \<open>auto simp: instruction_def acquire_def split: if_splits prod.splits bool.splits option.splits intro: qstep.intros\<close>)
qed

definition fine_do ::
    "('i, 's) source_iface \<Rightarrow> ('j, 'p) publisher_iface \<Rightarrow> json_dumper \<Rightarrow> ('i, 'j) fine_action \<Rightarrow>
     ('s, 'p) fine_pipeline \<Rightarrow> ('s, 'p) fine_pipeline option" where
  "fine_do S P dump l f =
     (case l of
        Outside a \<Rightarrow>
          if queue_call a (fine f) then None else map_option (\<lambda>p. f\<lparr>fine := p\<rparr>) (do_action S P dump a (fine f))
      | Instruction n \<Rightarrow>
          if terminated (fine f) \<noteq> None \<or> length (thr (calls f)) \<le> n then None
          else if n = 0 then
            (case ingest_thread (fine f) of
               I_push e \<Rightarrow> map_option (\<lambda>t. \<lparr>fine = push_returns (calls f) t (fine f), calls = t\<rparr>) (instruction 0 (PushLock e) (calls f))
             | _ \<Rightarrow> None)
          else if n = 1 then
            if publish_thread (fine f) = P_pop
            then map_option (\<lambda>t. \<lparr>fine = pop_returns (calls f) t (fine f), calls = t\<rparr>) (instruction 1 PopLock (calls f))
            else None
          else if n = 2 then
            if owner_thread (fine f) = O_shutdown
            then map_option (\<lambda>t. \<lparr>fine = shutdown_returns t (fine f), calls = t\<rparr>) (instruction 2 ShutLock (calls f))
            else None
          else None)"

definition fine_dos ::
    "('i, 's) source_iface \<Rightarrow> ('j, 'p) publisher_iface \<Rightarrow> json_dumper \<Rightarrow> ('i, 'j) fine_action list \<Rightarrow>
     ('s, 'p) fine_pipeline \<Rightarrow> ('s, 'p) fine_pipeline option" where
  "fine_dos S P dump ls f = fold (\<lambda>l r. Option.bind r (fine_do S P dump l)) ls (Some f)"

lemma instruction_enters:
  "instruction i entry s = Some t \<Longrightarrow> i < length (thr s) \<Longrightarrow> at_pc s i Idle \<longrightarrow> at_pc t i entry"
  by (auto simp: instruction_def at_pc_def)

lemma fine_do_fstep:
  assumes "fine_do S P dump l f = Some f'"
  shows "fstep S P dump l f f'"
proof (cases l)
  case (Outside a)
  with assms show ?thesis by (auto simp: fine_do_def intro: fstep.outside split: if_splits)
next
  case (Instruction n)
  with assms have len: "n < length (thr (calls f))" "terminated (fine f) = None" by (auto simp: fine_do_def split: if_splits)
  consider e t where "n = 0" "ingest_thread (fine f) = I_push e" "instruction 0 (PushLock e) (calls f) = Some t"
      "f' = \<lparr>fine = push_returns (calls f) t (fine f), calls = t\<rparr>"
    | t where "n = 1" "publish_thread (fine f) = P_pop" "instruction 1 PopLock (calls f) = Some t"
      "f' = \<lparr>fine = pop_returns (calls f) t (fine f), calls = t\<rparr>"
    | t where "n = 2" "owner_thread (fine f) = O_shutdown" "instruction 2 ShutLock (calls f) = Some t"
      "f' = \<lparr>fine = shutdown_returns t (fine f), calls = t\<rparr>"
    using assms len Instruction by (auto simp: fine_do_def split: if_splits ingest_point.splits)
  then show ?thesis
  proof cases
    case 1
    with len instruction_qstep [OF 1(3)] instruction_enters [OF 1(3)] show ?thesis
      unfolding Instruction 1(1,4) by (intro fstep.in_push) auto
  next
    case 2
    with len instruction_qstep [OF 2(3)] instruction_enters [OF 2(3)] show ?thesis
      unfolding Instruction 2(1,4) by (intro fstep.in_pop) auto
  next
    case 3
    with len instruction_qstep [OF 3(3)] instruction_enters [OF 3(3)] show ?thesis
      unfolding Instruction 3(1,4) by (intro fstep.in_shutdown) auto
  qed
qed

lemma fine_dos_freach: "fine_dos S P dump ls f = Some f' \<Longrightarrow> freach S P dump f f'"
proof (induction ls arbitrary: f' rule: rev_induct)
  case Nil
  then show ?case by (simp add: fine_dos_def freach.init)
next
  case (snoc l ls)
  then show ?case by (auto simp: fine_dos_def bind_eq_Some_conv intro: freach.step fine_do_fstep)
qed


section \<open>Properties\<close>

text \<open>
  C2: the pipeline is correct under every interleaving of the instructions of its threads, not only of
  whole calls of the queue. Every state the instructions lead to, with a thread inside \<^verbatim>\<open>push\<close>, \<^verbatim>\<open>pop\<close> or
  \<^verbatim>\<open>shutdown\<close>, parked or woken for no reason, abstracts to a state of a run in which these calls are
  atomic. So every event the source has returned is handled or in the hands of one thread or in the
  queue, in order, and once \<^verbatim>\<open>stop()\<close> is through, all of them have been handed to the publisher, in order,
  the queue is empty and \<^verbatim>\<open>flush\<close> has been called once.
\<close>

theorem pipeline_refines_atomic_queue:
  assumes "freach S P dump (fine_new s pb c rec fs) f"
  shows "(\<exists>as. runs_from S P dump as s pb c rec fs (coarse f)) \<and>
    map fst (handled (fine f)) @ publish_hand (coarse f) @ queue (shared (calls f)) @ ingest_hand (coarse f) = fetched (fine f) \<and>
    (stopped (fine f) \<longrightarrow>
       map fst (handled (fine f)) = fetched (fine f) \<and> queue (shared (calls f)) = [] \<and> flushes (fine f) = [length (handled (fine f))] \<and>
       events_published (fine f) + publish_failures (fine f) = events_received (fine f))"
proof -
  from freach_inv [OF assms] obtain as where as: "runs_from S P dump as s pb c rec fs (coarse f)" by blast
  have same: "stopped (coarse f) = stopped (fine f)" "fetched (coarse f) = fetched (fine f)"
    "handled (coarse f) = handled (fine f)" "flushes (coarse f) = flushes (fine f)" "evq (coarse f) = shared (calls f)"
    "events_published (coarse f) = events_published (fine f)" "publish_failures (coarse f) = publish_failures (fine f)"
    "events_received (coarse f) = events_received (fine f)"
    by (simp_all add: coarse_def)
  show ?thesis using as stopped_facts [OF as] runs_inv(2) [OF as] unfolding same flow_inv_def by blast
qed

text \<open>
  A run with a queue of capacity one: the publish thread parks in \<^verbatim>\<open>pop\<close>, the push of the first event wakes
  it up, and after \<^verbatim>\<open>requestStop()\<close> and \<^verbatim>\<open>stop()\<close> every thread comes to its end.
\<close>

definition fine_schedule :: "(unit, unit) fine_action list" where
  "fine_schedule = map Outside [Start, Owner, Owner] @ replicate 3 (Instruction 1) @ replicate 3 (Outside (Ingest ())) @
     replicate 5 (Instruction 0) @ replicate 4 (Instruction 1) @ map Outside [Publish (), Publish (), Request_stop, Stop] @
     map Outside [Ingest (), Ingest (), Owner] @ replicate 5 (Instruction 2) @ replicate 4 (Instruction 1) @
     map Outside [Publish (), Owner]"

abbreviation fine_run where
  "fine_run n \<equiv> fine_dos infinite_iface fake_publisher_iface ref_dump (take n fine_schedule)
     (fine_new FakeInfiniteSource_new FakeEventPublisher_new 1 None Map.empty)"

lemma fine_run_reach:
  assumes "\<not> Option.is_none (fine_run n)"
  shows "freach infinite_iface fake_publisher_iface ref_dump
    (fine_new FakeInfiniteSource_new FakeEventPublisher_new 1 None Map.empty) (the (fine_run n))"
  using assms by (intro fine_dos_freach) (auto simp: Option.is_none_def)

lemma fine_run_ends:
  "\<not> Option.is_none (fine_run 36)" "stopped (fine (the (fine_run 36)))" "length (fetched (fine (the (fine_run 36)))) = 1"
  by code_simp+


theorem pipeline_refines_atomic_queue_witness:
  "let f = the (fine_run 36) in
    (\<exists>as. runs_from infinite_iface fake_publisher_iface ref_dump as FakeInfiniteSource_new FakeEventPublisher_new 1 None
       Map.empty (coarse f)) \<and>
    map fst (handled (fine f)) @ publish_hand (coarse f) @ queue (shared (calls f)) @ ingest_hand (coarse f) = fetched (fine f) \<and>
    map fst (handled (fine f)) = fetched (fine f) \<and> queue (shared (calls f)) = [] \<and> flushes (fine f) = [length (handled (fine f))] \<and>
    events_published (fine f) + publish_failures (fine f) = events_received (fine f) \<and> length (fetched (fine f)) = 1"
  unfolding Let_def
  using pipeline_refines_atomic_queue [OF fine_run_reach [OF fine_run_ends(1)]] fine_run_ends(2,3) by blast

end
