(* ===== verification/Pipeline_Threads_Stop.thy ===== *)
theory Pipeline_Threads_Stop
  imports Pipeline_Threads
begin

text \<open>
  That \<^verbatim>\<open>stop()\<close> comes to an end under every interleaving of instructions: a measure that every step of the
  pipeline's threads makes smaller, wakeups without a notification aside, and a step for some thread as
  long as \<^verbatim>\<open>stop()\<close> is not through.
\<close>

section \<open>Work inside the queue\<close>

text \<open>
  A step that notifies may make up to two threads run again; it is paid for by the critical section
  before it, which is a step of the coarse level.
\<close>

fun call_work :: "'a pc \<Rightarrow> nat" where
  "call_work Idle = 0"
| "call_work (PushLock x) = 5" | "call_work (PushTest x) = 3" | "call_work (PushWait x) = 1"
| "call_work (PushWake x) = 4" | "call_work (PushBody x) = 2" | "call_work PushNotify = 8"
| "call_work PopLock = 5" | "call_work PopTest = 3" | "call_work PopWait = 1"
| "call_work PopWake = 4" | "call_work PopBody = 2" | "call_work PopNotify = 8"
| "call_work ShutLock = 22" | "call_work ShutSet = 21" | "call_work ShutNotifyFull = 20" | "call_work ShutNotifyEmpty = 10"

lemma woken_work: "woken p p' \<Longrightarrow> call_work p' \<le> call_work p + 3"
  by (cases p) (auto simp: woken_def)

lemma call_step:
  "qstep i s t \<Longrightarrow> i < length (thr s) \<Longrightarrow> thr s ! i = Idle \<Longrightarrow> j \<noteq> i \<Longrightarrow> thr t ! j = thr s ! j"
  by (induction rule: qstep.induct) (auto simp: at_pc_def)

lemma spurious_step:
  "qstep i s t \<Longrightarrow> i < length (thr s) \<Longrightarrow> parked (thr s ! i) \<Longrightarrow>
    trace t = trace s \<and> call_work (thr t ! i) = call_work (thr s ! i) + 3 \<and> (\<forall>j. j \<noteq> i \<longrightarrow> thr t ! j = thr s ! j)"
  by (induction rule: qstep.induct) (auto simp: at_pc_def parked_def)

lemma inside_step:
  "qstep i s t \<Longrightarrow> i < length (thr s) \<Longrightarrow> trace t = trace s \<Longrightarrow> thr s ! i \<noteq> Idle \<Longrightarrow> \<not> parked (thr s ! i) \<Longrightarrow>
    call_work (thr t ! i) + 8 \<le> call_work (thr s ! i) \<or>
    call_work (thr t ! i) < call_work (thr s ! i) \<and> (\<forall>j. j \<noteq> i \<longrightarrow> thr t ! j = thr s ! j)"
  by (induction rule: qstep.induct) (auto simp: at_pc_def parked_def nth_list_update)

definition calls_work :: "'a queue_threads \<Rightarrow> nat" where
  "calls_work t = call_work (thr t ! 0) + call_work (thr t ! 1) + call_work (thr t ! 2)"

lemma calls_work_step:
  assumes "qstep i s t" "length (thr s) = 3" "i < 3" "trace t = trace s" "thr s ! i \<noteq> Idle"
  shows "if parked (thr s ! i) then calls_work t = calls_work s + 3 else calls_work t < calls_work s"
proof -
  have i: "i = 0 \<or> i = 1 \<or> i = 2" using assms(3) by auto
  have others: "j < 3 \<Longrightarrow> j \<noteq> i \<Longrightarrow> call_work (thr t ! j) \<le> call_work (thr s ! j) + 3" for j
    using woken_work qstep_others [OF assms(1)] assms(2) by metis
  show ?thesis
  proof (cases "parked (thr s ! i)")
    case True
    with spurious_step [OF assms(1)] assms(2,3) i show ?thesis by (auto simp: calls_work_def)
  next
    case False
    with inside_step [OF assms(1) _ assms(4,5)] assms(2,3) i others [of 0] others [of 1] others [of 2]
    show ?thesis by (auto simp: calls_work_def)
  qed
qed

section \<open>Work of the pipeline\<close>

text \<open>A thread that is about to make a call has the whole of it before it.\<close>

definition about_to_call :: "('s, 'p) fine_pipeline \<Rightarrow> nat \<Rightarrow> bool" where
  "about_to_call f i \<longleftrightarrow>
     (if i = 0 then (case ingest_thread (fine f) of I_push e \<Rightarrow> True | _ \<Rightarrow> False)
      else if i = 1 then publish_thread (fine f) = P_pop else owner_thread (fine f) = O_shutdown)"

definition entry_work :: "('s, 'p) fine_pipeline \<Rightarrow> nat \<Rightarrow> nat" where
  "entry_work f i = (if thr (calls f) ! i = Idle \<and> about_to_call f i then 23 else 0)"

definition fine_work :: "('s \<Rightarrow> nat) \<Rightarrow> ('s, 'p) fine_pipeline \<Rightarrow> nat" where
  "fine_work rank f =
     70 * pipe_work rank (coarse f) + (calls_work (calls f) + entry_work f 0 + entry_work f 1 + entry_work f 2)"

text \<open>The steps of the pipeline's own threads, and those among them that no notification caused.\<close>

fun own_step :: "('i, 'j) fine_action \<Rightarrow> bool" where
  "own_step (Outside a) = inner a"
| "own_step (Instruction i) = True"

fun spurious :: "('i, 'j) fine_action \<Rightarrow> ('s, 'p) fine_pipeline \<Rightarrow> bool" where
  "spurious (Outside a) f = False"
| "spurious (Instruction i) f = parked (thr (calls f) ! i)"

lemma call_work_bound: "call_work p \<le> 22"
  by (cases p) auto

lemma thread_work_bound: "call_work (thr (calls f) ! i) + entry_work f i \<le> 23"
  using call_work_bound [of "thr (calls f) ! i"] by (simp add: entry_work_def)

lemma fine_work_coarse:
  assumes "pipe_work rank (coarse f') < pipe_work rank (coarse f)"
  shows "fine_work rank f' < fine_work rank f"
  using assms thread_work_bound [of f' 0] thread_work_bound [of f' 1] thread_work_bound [of f' 2]
  by (simp add: fine_work_def calls_work_def)

lemma instruction_effect:
  assumes "fstep S P dump (Instruction i) f f'" "calls_ok f"
  shows "i < 3" "qstep i (calls f) (calls f')" "about_to_call f i" "j < 3 \<Longrightarrow> j \<noteq> i \<Longrightarrow> about_to_call f' j = about_to_call f j"
    "thr (calls f') ! i = Idle \<Longrightarrow> \<not> about_to_call f' i" "thr (calls f) ! i = Idle \<Longrightarrow> thr (calls f') ! i \<noteq> Idle"
proof -
  have len: "length (thr (calls f)) = 3" "\<And>t. qstep i (calls f) t \<Longrightarrow> length (thr t) = 3"
    using calls_okD(1) [OF assms(2)] qstep_length by metis+
  note defs = about_to_call_def push_returns_def pop_returns_def shutdown_returns_def at_pc_thread
  from assms(1) show "i < 3" "qstep i (calls f) (calls f')" "about_to_call f i"
    by (cases rule: fstep.cases; simp add: defs)+
  from assms(1) show "j < 3 \<Longrightarrow> j \<noteq> i \<Longrightarrow> about_to_call f' j = about_to_call f j"
    by (cases rule: fstep.cases) (auto simp: defs)
  from assms(1) len show "thr (calls f') ! i = Idle \<Longrightarrow> \<not> about_to_call f' i"
    by (cases rule: fstep.cases) (auto simp: defs)
  from assms(1) len show "thr (calls f) ! i = Idle \<Longrightarrow> thr (calls f') ! i \<noteq> Idle"
    by (cases rule: fstep.cases) (auto simp: defs)
qed

lemma instruction_work:
  assumes "fstep S P dump (Instruction i) f f'" "calls_ok f" "trace (calls f') = trace (calls f)"
    and "coarse f' = coarse f"
  shows "if parked (thr (calls f) ! i) then fine_work rank f' = fine_work rank f + 3 else fine_work rank f' < fine_work rank f"
proof -
  note eff = instruction_effect [OF assms(1,2)]
  have len: "length (thr (calls f)) = 3" using calls_okD(1) [OF assms(2)] .
  have i: "i = 0 \<or> i = 1 \<or> i = 2" using eff(1) by auto
  have others: "j < 3 \<Longrightarrow> j \<noteq> i \<Longrightarrow> entry_work f' j = entry_work f j" for j
    using woken_keeps(1) [OF qstep_others [OF eff(2)]] eff(4) len by (simp add: entry_work_def)
  have own: "entry_work f' i = 0" using eff(5) by (auto simp: entry_work_def)
  show ?thesis
  proof (cases "thr (calls f) ! i = Idle")
    case True
    then have "entry_work f i = 23" using eff(3) by (simp add: entry_work_def)
    moreover have "j \<noteq> i \<Longrightarrow> thr (calls f') ! j = thr (calls f) ! j" for j
      using call_step [OF eff(2) _ True] eff(1) len by simp
    ultimately show ?thesis
      using True own others [of 0] others [of 1] others [of 2] i assms(4) call_work_bound [of "thr (calls f') ! i"]
      by (auto simp: fine_work_def calls_work_def parked_def)
  next
    case False
    then have "entry_work f i = 0" by (simp add: entry_work_def)
    with calls_work_step [OF eff(2) len eff(1) assms(3) False] own others [of 0] others [of 1] others [of 2] i assms(4)
    show ?thesis by (auto simp: fine_work_def split: if_splits)
  qed
qed


lemma inner_own: "inner (Ingest i)" "inner (Publish j)" "inner Owner"
  by (simp_all add: inner_def)

lemma own_effect:
  assumes "fstep S P dump l f f'" "own_step l" "calls_ok f" "qreach c 3 (calls f)" "ctl_inv (coarse f)"
  shows "(\<exists>i. l = Instruction i) \<and> coarse f' = coarse f \<and> trace (calls f') = trace (calls f) \<or>
    (\<exists>a. inner a \<and> pstep S P dump a (coarse f) (coarse f'))"
proof -
  have body: "body_inv (calls f)" using qreach_safe [OF assms(4)] by (simp add: safe_inv_def)
  note rep = do_action_pstep [of S P dump, symmetric]
  from assms(1) show ?thesis
  proof cases
    case (outside a p)
    with assms(2) show ?thesis using outside_simulated [OF outside(3,4) assms(3,5)] unfolding outside(2) rep by auto
  next
    case (in_push e t)
    have "coarse f' = coarse f \<and> trace t = trace (calls f) \<or> pstep S P dump (Ingest undefined) (coarse f) (coarse f')"
      using push_simulated [OF in_push(3-6) assms(3) body, of S P dump undefined] unfolding in_push(2) rep by blast
    moreover have "calls f' = t" by (simp add: in_push(2))
    ultimately show ?thesis using in_push(1) by (metis inner_own(1))
  next
    case (in_pop t)
    have "coarse f' = coarse f \<and> trace t = trace (calls f) \<or> pstep S P dump (Publish undefined) (coarse f) (coarse f')"
      using pop_simulated [OF in_pop(3-6) assms(3) body, of S P dump undefined] unfolding in_pop(2) rep by blast
    moreover have "calls f' = t" by (simp add: in_pop(2))
    ultimately show ?thesis using in_pop(1) by (metis inner_own(2))
  next
    case (in_shutdown t)
    have "coarse f' = coarse f \<and> trace t = trace (calls f) \<or> pstep S P dump Owner (coarse f) (coarse f')"
      using shutdown_simulated [OF in_shutdown(3-6) assms(3), of S P dump] unfolding in_shutdown(2) rep by blast
    moreover have "calls f' = t" by (simp add: in_shutdown(2))
    ultimately show ?thesis using in_shutdown(1) by (metis inner_own(3))
  qed
qed

lemma freach_ctl:
  assumes "freach S P dump (fine_new s pb c rec fs) f"
  shows "ctl_inv (coarse f)"
proof -
  from freach_inv [OF assms] obtain as where "runs_from S P dump as s pb c rec fs (coarse f)" by blast
  then show ?thesis by (rule runs_inv(1))
qed

text \<open>Runs of the pipeline's own threads: \<^verbatim>\<open>k\<close> steps, and \<^verbatim>\<open>m\<close> wakeups without a notification.\<close>

inductive fruns ::
    "('i, 's) source_iface \<Rightarrow> ('j, 'p) publisher_iface \<Rightarrow> json_dumper \<Rightarrow> nat \<Rightarrow> nat \<Rightarrow>
     ('s, 'p) fine_pipeline \<Rightarrow> ('s, 'p) fine_pipeline \<Rightarrow> bool"
  for S P dump where
  none: "fruns S P dump 0 0 f f"
| work: "\<lbrakk>fruns S P dump k m f f'; fstep S P dump l f' f''; own_step l; \<not> spurious l f'\<rbrakk> \<Longrightarrow>
    fruns S P dump (Suc k) m f f''"
| wakeup: "\<lbrakk>fruns S P dump k m f f'; fstep S P dump l f' f''; own_step l; spurious l f'\<rbrakk> \<Longrightarrow>
    fruns S P dump k (Suc m) f f''"

lemma fruns_freach: "fruns S P dump k m f f' \<Longrightarrow> freach S P dump f0 f \<Longrightarrow> freach S P dump f0 f'"
  by (induction rule: fruns.induct) (auto intro: freach.step)

section \<open>Every run of the threads ends\<close>

context market_data_source
begin

lemma fine_work_step:
  assumes "fstep S P dump l f f'" "own_step l" "calls_ok f" "qreach c 3 (calls f)" "ctl_inv (coarse f)"
    and "inv (src (fine f))" "stop_req (src (fine f))"
  shows "if spurious l f then fine_work rank f' \<le> fine_work rank f + 3 else fine_work rank f' < fine_work rank f"
  using own_effect [OF assms(1-5)]
proof (elim disjE conjE exE)
  fix i
  assume l: "l = Instruction i" and same: "coarse f' = coarse f" "trace (calls f') = trace (calls f)"
  from instruction_work [OF assms(1) [unfolded l] assms(3) same(2,1), of rank] l show ?thesis
    by (simp split: if_splits)
next
  fix a
  assume "inner a" "pstep S P dump a (coarse f) (coarse f')"
  with assms(5-7) have "pipe_work rank (coarse f') < pipe_work rank (coarse f)"
    by (intro inner_work_less) (auto simp: coarse_def)
  then show ?thesis using fine_work_coarse [of rank f' f] by simp
qed

lemma fine_source_step:
  assumes "fstep S P dump l f f'" "own_step l" "calls_ok f" "qreach c 3 (calls f)" "ctl_inv (coarse f)"
    and "inv (src (fine f))" "stop_req (src (fine f))" "started (fine f)"
  shows "inv (src (fine f')) \<and> stop_req (src (fine f')) \<and> started (fine f')"
proof -
  have eq: "src (coarse f) = src (fine f)" "started (coarse f) = started (fine f)"
    "src (coarse f') = src (fine f')" "started (coarse f') = started (fine f')"
    by (simp_all add: coarse_def)
  from own_effect [OF assms(1-5)] show ?thesis
  proof (elim disjE conjE exE)
    assume "coarse f' = coarse f"
    with eq assms(6-8) show ?thesis by metis
  next
    fix a
    assume "pstep S P dump a (coarse f) (coarse f')"
    from source_inv_step [OF this] assms(6-8) show ?thesis unfolding eq by blast
  qed
qed

lemma fine_runs_bounded:
  assumes "fruns S P dump k m f f'" "freach S P dump (fine_new s pb c rec fs) f"
    and "inv (src (fine f))" "stop_req (src (fine f))" "started (fine f)"
  shows "k + fine_work rank f' \<le> fine_work rank f + 3 * m \<and>
    inv (src (fine f')) \<and> stop_req (src (fine f')) \<and> started (fine f')"
  using assms
proof (induction rule: fruns.induct)
  case (none f)
  then show ?case by simp
next
  case (work k m f f' l f'')
  note inv = freach_inv [OF fruns_freach [OF work.hyps(1) work.prems(1)]]
  note ctl = freach_ctl [OF fruns_freach [OF work.hyps(1) work.prems(1)]]
  from work.IH [OF work.prems] show ?case
    using fine_work_step [OF work.hyps(2,3) _ _ ctl] fine_source_step [OF work.hyps(2,3) _ _ ctl] inv work.hyps(4) by fastforce
next
  case (wakeup k m f f' l f'')
  note inv = freach_inv [OF fruns_freach [OF wakeup.hyps(1) wakeup.prems(1)]]
  note ctl = freach_ctl [OF fruns_freach [OF wakeup.hyps(1) wakeup.prems(1)]]
  from wakeup.IH [OF wakeup.prems] show ?case
    using fine_work_step [OF wakeup.hyps(2,3) _ _ ctl] fine_source_step [OF wakeup.hyps(2,3) _ _ ctl] inv wakeup.hyps(4) by fastforce
qed


end

section \<open>Some thread can always move\<close>

lemma call_starts:
  assumes "calls_ok f" "terminated (fine f) = None" "i < 3" "thr (calls f) ! i = Idle" "about_to_call f i"
  shows "\<exists>f'. fstep S P dump (Instruction i) f f'"
proof -
  have len: "length (thr (calls f)) = 3" using calls_okD(1) [OF assms(1)] .
  then have here: "at_pc (calls f) i Idle" using assms(3,4) by (simp add: at_pc_thread)
  have enter: "at_pc (goto i p (calls f)) i p" for p using len assms(3) by (simp add: at_pc_def)
  consider e where "i = 0" "ingest_thread (fine f) = I_push e" | "i = 1" "publish_thread (fine f) = P_pop"
    | "i = 2" "owner_thread (fine f) = O_shutdown"
    using assms(3,5) by (auto simp: about_to_call_def split: if_splits ingest_point.splits)
  then show ?thesis
  proof cases
    case 1
    with fstep.in_push [OF assms(2) 1(2)] qstep.call_push [OF here, of e] enter [of "PushLock e"] show ?thesis by blast
  next
    case 2
    with fstep.in_pop [OF assms(2) 2(2)] qstep.call_pop [OF here] enter [of PopLock] show ?thesis by blast
  next
    case 3
    with fstep.in_shutdown [OF assms(2) 3(2)] qstep.call_shutdown [OF here] enter [of ShutLock] show ?thesis by blast
  qed
qed

lemma call_continues:
  assumes "calls_ok f" "terminated (fine f) = None" "at_pc (calls f) i p" "p \<noteq> Idle" "qstep i (calls f) t"
  shows "\<exists>f'. fstep S P dump (Instruction i) f f'"
proof -
  note ok = calls_okD [OF assms(1)]
  have i: "i < 3" "thr (calls f) ! i \<noteq> Idle" "\<not> at_pc (calls f) i Idle" using assms(3,4) ok(1) by (auto simp: at_pc_def)
  consider e where "i = 0" "ingest_thread (fine f) = I_push e" | "i = 1" "publish_thread (fine f) = P_pop"
    | "i = 2" "owner_thread (fine f) = O_shutdown"
    using i(1,2) ok(2-4) by (cases "i = 0"; cases "i = 1"; cases "i = 2") auto
  then show ?thesis
  proof cases
    case 1
    with fstep.in_push [OF assms(2) 1(2)] assms(5) i(3) show ?thesis by blast
  next
    case 2
    with fstep.in_pop [OF assms(2) 2(2)] assms(5) i(3) show ?thesis by blast
  next
    case 3
    with fstep.in_shutdown [OF assms(2) 3(2)] assms(5) i(3) show ?thesis by blast
  qed
qed

text \<open>When no thread is inside a call and awake, the abstraction changes nothing but the queue.\<close>

definition at_rest :: "'a queue_threads \<Rightarrow> bool" where
  "at_rest t \<longleftrightarrow> list_all (\<lambda>p. \<not> busy p) (thr t)"

lemma at_rest_busy: "at_rest t \<longleftrightarrow> (\<forall>i p. at_pc t i p \<longrightarrow> \<not> busy p)"
  by (auto simp: at_rest_def at_pc_def list_all_length)

lemma coarse_at_rest:
  assumes "calls_ok f" "at_rest (calls f)"
  shows "coarse f = (fine f)\<lparr>evq := shared (calls f)\<rparr>"
proof -
  have "\<not> at_pc (calls f) i PushNotify" "\<not> at_pc (calls f) i PopNotify" "\<not> at_pc (calls f) i ShutNotifyFull"
    "\<not> at_pc (calls f) i ShutNotifyEmpty" for i
    using assms(2) by (fastforce simp: at_rest_busy busy_def)+
  then show ?thesis by (simp add: coarse_def abs_ingest_def abs_publish_def abs_owner_def)
qed

lemma at_rest_idle_or_parked:
  assumes "calls_ok f" "at_rest (calls f)" "i < 3"
  shows "thr (calls f) ! i = Idle \<or> parked (thr (calls f) ! i)"
  using assms(2,3) calls_okD(1) [OF assms(1)] by (auto simp: at_rest_def list_all_length busy_def parked_def)

lemma parked_thread:
  assumes "calls_ok f" "i < 3"
  shows "is_PushWait (thr (calls f) ! i) \<Longrightarrow> i = 0" "is_PopWait (thr (calls f) ! i) \<Longrightarrow> i = 1"
proof -
  note ok = calls_okD [OF assms(1)]
  have no: "\<not> is_PopWait (thr (calls f) ! 0)" "\<not> is_PushWait (thr (calls f) ! 1)"
    "\<not> is_PushWait (thr (calls f) ! 2)" "\<not> is_PopWait (thr (calls f) ! 2)"
    subgoal using ok(2) by (auto simp: push_pc_def)
    subgoal using ok(3) by (auto simp: pop_pc_def)
    subgoal using ok(4) by (auto simp: shut_pc_def)
    subgoal using ok(4) by (auto simp: shut_pc_def)
    done
  have "i = 0 \<or> i = 1 \<or> i = 2" using assms(2) by auto
  then show "is_PushWait (thr (calls f) ! i) \<Longrightarrow> i = 0" "is_PopWait (thr (calls f) ! i) \<Longrightarrow> i = 1" using no by metis+
qed

lemma at_rest_enabled:
  assumes "calls_ok f" "at_rest (calls f)" "qreach c 3 (calls f)" "about_to_call f i" "i < 3"
    and "i = 0 \<longrightarrow> can_push (shared (calls f))" "i = 1 \<longrightarrow> can_pop (shared (calls f))"
  shows "thr (calls f) ! i = Idle"
proof (rule ccontr)
  assume busy: "thr (calls f) ! i \<noteq> Idle"
  with at_rest_idle_or_parked [OF assms(1,2,5)] have parked: "parked (thr (calls f) ! i)" by blast
  have here: "at_pc (calls f) i (thr (calls f) ! i)" using calls_okD(1) [OF assms(1)] assms(5) by (simp add: at_pc_def)
  from parked parked_thread [OF assms(1,5)] assms(6,7)
  have "is_PushWait (thr (calls f) ! i) \<and> can_push (shared (calls f)) \<or>
      is_PopWait (thr (calls f) ! i) \<and> can_pop (shared (calls f))"
    by (auto simp: parked_def)
  with parked_has_helper [OF qreach_wake [OF assms(3)] here] assms(2) show False unfolding at_rest_busy by blast
qed

lemma outside_moves:
  assumes "calls_ok f" "at_rest (calls f)" "inner a" "pstep S P dump a (coarse f) p"
    "\<not> queue_call a (fine f)"
  shows "\<exists>f'. fstep S P dump (Outside a) f f'"
proof -
  note eq = coarse_at_rest [OF assms(1,2)]
  have "\<exists>q. do_action S P dump a (fine f) = Some q"
  proof (cases a)
    case Owner
    with assms(4,5) show ?thesis unfolding eq
      by (auto simp: do_action_def pstep_iff queue_call_def owner_step_def split: owner_point.splits if_splits)
  next
    case (Ingest i)
    then have "terminated (fine f) = None" "ingest_thread (fine f) \<notin> {I_unborn, I_exited}" "ingest_thread (fine f) \<noteq> I_push e" for e
      using assms(4,5) unfolding eq by (auto simp: pstep_iff queue_call_def runIngest_step_def)
    with Ingest ingest_moves [of "fine f" S dump i] show ?thesis by (simp add: do_action_def)
  next
    case (Publish j)
    then have "terminated (fine f) = None" "publish_thread (fine f) \<notin> {P_unborn, P_exited}" "publish_thread (fine f) \<noteq> P_pop"
      using assms(4,5) unfolding eq by (auto simp: pstep_iff queue_call_def runPublish_step_def)
    with Publish publish_moves [of "fine f" P j] show ?thesis by (simp add: do_action_def)
  qed (use assms(3) in \<open>simp_all add: inner_def\<close>)
  then show ?thesis using assms(5) fstep.outside by blast
qed

lemma waiting_call:
  assumes "queue_call a (fine f)" "pstep S P dump a ((fine f)\<lparr>evq := q\<rparr>) p"
  obtains i where "i < 3" "about_to_call f i" "i = 0 \<longrightarrow> can_push q" "i = 1 \<longrightarrow> can_pop q"
proof (cases a)
  case (Ingest i)
  with assms have "about_to_call f 0" "can_push q"
    by (auto simp: queue_call_def about_to_call_def pstep_iff runIngest_step_def push_def
      split: ingest_point.splits if_splits attempt.splits)
  then show thesis using that [of 0] by simp
next
  case (Publish j)
  with assms have "about_to_call f 1" "can_pop q"
    by (auto simp: queue_call_def about_to_call_def pstep_iff runPublish_step_def pop_def
      split: if_splits attempt.splits)
  then show thesis using that [of 1] by simp
next
  case Owner
  with assms(1) have "about_to_call f 2" by (simp add: queue_call_def about_to_call_def)
  then show thesis using that [of 2] by simp
qed (use assms(1) in \<open>simp_all add: queue_call_def\<close>)

lemma fine_moves:
  assumes "freach S P dump (fine_new s pb c rec fs) f" "0 < c" "terminated (fine f) = None" "owner_thread (fine f) \<noteq> O_idle"
  shows "\<exists>l f'. own_step l \<and> \<not> spurious l f \<and> fstep S P dump l f f'"
proof -
  from freach_inv [OF assms(1)] obtain as where as: "runs_from S P dump as s pb c rec fs (coarse f)"
    and inv: "qreach c 3 (calls f)" "calls_ok f" by blast
  show ?thesis
  proof (cases "\<exists>i p. at_pc (calls f) i p \<and> busy p")
    case True
    then obtain j p t where "at_pc (calls f) j p" "busy p" "qstep j (calls f) t" using qreach_progress [OF inv(1)] by blast
    moreover from this(1,2) have "\<not> spurious (Instruction j) f" "p \<noteq> Idle" by (auto simp: busy_def parked_def at_pc_def)
    ultimately show ?thesis using call_continues [OF inv(2) assms(3), of j p t S P dump] own_step.simps(2) by blast
  next
    case False
    then have rest: "at_rest (calls f)" unfolding at_rest_busy by blast
    note eq = coarse_at_rest [OF inv(2) rest]
    obtain a p where a: "inner a" "pstep S P dump a (coarse f) p"
      using stopping_moves [OF runs_inv(1) [OF as] runs_inv(3) [OF as] assms(2), of S P dump] assms(3,4) eq by auto
    show ?thesis
    proof (cases "queue_call a (fine f)")
      case True
      from waiting_call [OF True a(2) [unfolded eq]] obtain i where i: "i < 3" "about_to_call f i"
        "i = 0 \<longrightarrow> can_push (shared (calls f))" "i = 1 \<longrightarrow> can_pop (shared (calls f))" .
      from at_rest_enabled [OF inv(2) rest inv(1) i(2,1,3,4)] have idle: "thr (calls f) ! i = Idle" .
      then have "\<not> spurious (Instruction i) f" by (simp add: parked_def)
      then show ?thesis using call_starts [OF inv(2) assms(3) i(1) idle i(2), of S P dump] own_step.simps(2) by blast
    next
      case False
      from outside_moves [OF inv(2) rest a False] a(1) own_step.simps(1) spurious.simps(1) show ?thesis by blast
    qed
  qed
qed

abbreviation in_stop_or_done :: "('s, 'p) fine_pipeline \<Rightarrow> bool" where
  "in_stop_or_done f \<equiv> owner_thread (fine f) \<in> {O_join_ingest, O_shutdown, O_join_publish} \<or>
     owner_thread (fine f) = O_idle \<and> stopped (fine f)"

lemma own_keeps_stopping:
  assumes "fstep S P dump l f f'" "own_step l" "in_stop_or_done f"
  shows "in_stop_or_done f'"
  using assms(1)
proof cases
  case (outside a p)
  with assms(2) consider i where "runIngest_step S dump i (fine f) = Some p" | j where "runPublish_step P j (fine f) = Some p"
    | "owner_step (fine f) = Some p"
    by (cases a) (auto simp: inner_def do_action_def split: if_splits)
  then have "in_stop_or_done \<lparr>fine = p, calls = calls f\<rparr>"
  proof cases
    case 1
    then show ?thesis by (cases rule: ingest_cases) (use assms(3) in auto)
  next
    case 2
    then show ?thesis by (cases rule: publish_cases) (use assms(3) in auto)
  next
    case 3
    then show ?thesis by (cases rule: owner_cases) (use assms(3) in auto)
  qed
  then show ?thesis using outside(2) by simp
qed (use assms(3) in \<open>auto simp: push_returns_def pop_returns_def shutdown_returns_def\<close>)

lemma own_runs_stopping: "fruns S P dump k m f f' \<Longrightarrow> in_stop_or_done f \<Longrightarrow> in_stop_or_done f'"
proof (induction rule: fruns.induct)
  case (work k m f f' l f'')
  then show ?case using own_keeps_stopping [OF work.hyps(2,3)] by blast
next
  case (wakeup k m f f' l f'')
  then show ?case using own_keeps_stopping [OF wakeup.hyps(2,3)] by blast
qed

lemma joining_started:
  assumes "ctl_inv p" "owner_thread p \<in> {O_join_ingest, O_join_publish}"
  shows "started p"
proof (cases "owner_thread p = O_join_ingest")
  case True
  with assms(1) show ?thesis by (simp add: ctl_inv_def)
next
  case False
  with assms have "owner_thread p = O_join_publish" by simp
  with assms(1) show ?thesis by (simp add: ctl_inv_def)
qed

section \<open>Properties\<close>

text \<open>
  C4: \<^verbatim>\<open>requestStop()\<close> followed by \<^verbatim>\<open>stop()\<close> always completes, down to the instructions of the queue: with the
  mutex, the two condition variables, notifications that find nobody and wakeups that nobody caused.
  For every source that keeps its contract, every publisher and every queue with room for one event, from
  the moment the owner waits for the ingest thread with the source told to stop, the threads make at most
  \<^verbatim>\<open>fine_work\<close> steps, and three more for each wakeup without a notification; and as long as \<^verbatim>\<open>stop()\<close> is not
  through (and no exception has ended the process), some thread can go on without such a wakeup: there
  is no deadlock and no lost notification.
\<close>

theorem pipeline_instructions_stop:
  assumes "market_data_source S sinv stop_req rank" "sinv s" "freach S P dump (fine_new s pb c rec fs) f" "0 < c"
    and "stop_req (src (fine f))" "owner_thread (fine f) = O_join_ingest" "fruns S P dump k m f f'"
  shows "k \<le> fine_work rank f + 3 * m \<and>
    ((\<exists>l f''. own_step l \<and> \<not> spurious l f' \<and> fstep S P dump l f' f'') \<or> (\<exists>x. terminated (fine f') = Some x) \<or>
     stopped (fine f'))"
proof -
  from freach_inv [OF assms(3)] obtain as where as: "runs_from S P dump as s pb c rec fs (coarse f)" by blast
  have "sinv (src (coarse f))"
    using market_data_source.source_inv_runs [OF assms(1) as] assms(2) by (simp add: IngestionPipeline_new_def)
  then have inv: "sinv (src (fine f))" by (simp add: coarse_def)
  have "owner_thread (coarse f) \<in> {O_join_ingest, O_join_publish}" using assms(6) by (simp add: abs_owner_def coarse_def)
  then have "started (coarse f)" by (rule joining_started [OF freach_ctl [OF assms(3)]])
  then have st: "started (fine f)" by (simp add: coarse_def)
  have "k \<le> fine_work rank f + 3 * m"
    using market_data_source.fine_runs_bounded [OF assms(1,7,3) inv assms(5) st] by simp
  moreover have "in_stop_or_done f'" using own_runs_stopping [OF assms(7)] assms(6) by simp
  then have "owner_thread (fine f') \<noteq> O_idle \<or> stopped (fine f')" by auto
  ultimately show ?thesis using fine_moves [OF fruns_freach [OF assms(7,3)] assms(4)] by blast
qed

text \<open>
  The run of the example to the point where \<^verbatim>\<open>stop()\<close> waits for the ingest thread, and its last steps up to
  the end of \<^verbatim>\<open>stop()\<close>.
\<close>

lemma fine_do_awake: "fine_do S P dump l f = Some f' \<Longrightarrow> \<not> spurious l f"
proof (cases l)
  case (Instruction n)
  have "parked (thr (calls f) ! i) \<Longrightarrow> instruction i entry (calls f) = None" for i entry
    by (cases "thr (calls f) ! i") (simp_all add: parked_def instruction_def)
  then show "fine_do S P dump l f = Some f' \<Longrightarrow> \<not> spurious l f"
    using Instruction by (auto simp: fine_do_def split: if_splits ingest_point.splits)
qed simp

lemma fine_dos_fruns:
  "fine_dos S P dump ls f = Some f' \<Longrightarrow> list_all own_step ls \<Longrightarrow> fruns S P dump (length ls) 0 f f'"
proof (induction ls arbitrary: f' rule: rev_induct)
  case Nil
  then show ?case by (simp add: fine_dos_def fruns.none)
next
  case (snoc l ls)
  then obtain g where g: "fine_dos S P dump ls f = Some g" "fine_do S P dump l g = Some f'"
    by (auto simp: fine_dos_def bind_eq_Some_conv)
  with snoc have "fruns S P dump (length ls) 0 f g" "own_step l" by auto
  from fruns.work [OF this(1) fine_do_fstep [OF g(2)] this(2) fine_do_awake [OF g(2)]] show ?case by simp
qed

abbreviation fine_rest where
  "fine_rest n \<equiv> fine_dos infinite_iface fake_publisher_iface ref_dump (take n (drop 22 fine_schedule)) (the (fine_run 22))"

lemma fine_run_stopping:
  "\<not> Option.is_none (fine_run 22)" "owner_thread (fine (the (fine_run 22))) = O_join_ingest"
  "inf_stop_requested (src (fine (the (fine_run 22))))" "fine_work (\<lambda>_. 0) (the (fine_run 22)) = 3103"
  "list_all own_step (take 13 (drop 22 fine_schedule))" "\<not> Option.is_none (fine_rest 13)"
  by code_simp+

theorem pipeline_instructions_stop_witness:
  "length (take 13 (drop 22 fine_schedule)) \<le> 3103 \<and>
    ((\<exists>l f''. own_step l \<and> \<not> spurious l (the (fine_rest 13)) \<and>
        fstep infinite_iface fake_publisher_iface ref_dump l (the (fine_rest 13)) f'') \<or>
     (\<exists>x. terminated (fine (the (fine_rest 13))) = Some x) \<or> stopped (fine (the (fine_rest 13))))"
proof -
  have run: "fruns infinite_iface fake_publisher_iface ref_dump (length (take 13 (drop 22 fine_schedule))) 0
      (the (fine_run 22)) (the (fine_rest 13))"
    by (rule fine_dos_fruns [OF _ fine_run_stopping(5)]) (use fine_run_stopping(6) in \<open>auto simp: Option.is_none_def\<close>)
  from pipeline_instructions_stop [OF infinite.market_data_source_axioms TrueI fine_run_reach [OF fine_run_stopping(1)] _
      fine_run_stopping(3,2) run]
  show ?thesis unfolding fine_run_stopping(4) by simp
qed

end
