(* ===== verification/Stream_Format.thy ===== *)
theory Stream_Format
  imports Json_Text
begin

text \<open>
  How the programs write numbers to \<^verbatim>\<open>std::cout\<close>: integers in decimal, and a \<^verbatim>\<open>double\<close> in the default format of
  the stream, which is the conversion \<^verbatim>\<open>%g\<close> with six significant digits: the exact binary value is rounded to six
  decimal digits, half to even, written without exponent if the decimal exponent is from -4 to 5, and
  trailing zeros are dropped. The price a program prints is therefore not the price it holds; how far it can be
  off is shown here.
\<close>

section \<open>The decimal exponent\<close>

text \<open>For a fraction \<^verbatim>\<open>n / d\<close>: how often the denominator can be multiplied by ten, or the numerator has to be.\<close>

function up_exp :: "nat \<Rightarrow> nat \<Rightarrow> nat" where
  "up_exp n d = (if 0 < d \<and> 10 * d \<le> n then Suc (up_exp n (10 * d)) else 0)"
  by pat_completeness auto
termination by (relation "measure (\<lambda>(n, d). n - d)") auto

function down_exp :: "nat \<Rightarrow> nat \<Rightarrow> nat" where
  "down_exp n d = (if 0 < n \<and> n < d then Suc (down_exp (10 * n) d) else 0)"
  by pat_completeness auto
termination by (relation "measure (\<lambda>(n, d). d - n)") auto

declare up_exp.simps [simp del] down_exp.simps [simp del]

definition dec_exp :: "nat \<Rightarrow> nat \<Rightarrow> int" where
  "dec_exp n d = (if n < d then - int (down_exp n d) else int (up_exp n d))"

section \<open>Six digits\<close>

definition scale10 :: "nat \<Rightarrow> nat \<Rightarrow> int \<Rightarrow> nat \<times> nat" where
  "scale10 n d e = (if 0 \<le> e then (n * 10 ^ nat e, d) else (n, d * 10 ^ nat (- e)))"

text \<open>The digits as a number, and the exponent of the first; rounding up to 1000000 shifts it.\<close>

definition six_digits :: "nat \<Rightarrow> nat \<Rightarrow> nat \<times> int" where
  "six_digits n d =
     (let x = dec_exp n d; (a, b) = scale10 n d (5 - x); k = div_half_even a b
      in if k = 1000000 then (100000, x + 1) else (k, x))"

definition strip_zeros :: "string \<Rightarrow> string" where
  "strip_zeros s = rev (dropWhile (\<lambda>c. c = CHR ''0'') (rev s))"

definition with_point :: "string \<Rightarrow> string \<Rightarrow> string" where
  "with_point ip fp = (if strip_zeros fp = [] then ip else ip @ ''.'' @ strip_zeros fp)"

definition show_exponent :: "int \<Rightarrow> string" where
  "show_exponent x = ''e'' @ (if x < 0 then ''-'' else ''+'') @ (if \<bar>x\<bar> < 10 then ''0'' else []) @ show_nat (nat \<bar>x\<bar>)"

definition format_g :: "nat \<Rightarrow> int \<Rightarrow> string" where
  "format_g k x =
     (let ds = show_nat k
      in if 0 \<le> x \<and> x < 6 then with_point (take (nat x + 1) ds) (drop (nat x + 1) ds)
         else if - 4 \<le> x \<and> x < 0 then with_point ''0'' (replicate (nat (- x) - 1) CHR ''0'' @ ds)
         else with_point (take 1 ds) (drop 1 ds) @ show_exponent x)"

text \<open>The numerator and the denominator of a magnitude.\<close>

definition mag_ratio :: "nat \<Rightarrow> nat \<times> nat" where
  "mag_ratio m = (if 0 \<le> mag_exp m then (mag_sig m * 2 ^ nat (mag_exp m), 1) else (mag_sig m, 2 ^ nat (- mag_exp m)))"

definition show_mag_g :: "nat \<Rightarrow> string" where
  "show_mag_g m = (if m = 0 then ''0'' else let (n, d) = mag_ratio m; (k, x) = six_digits n d in format_g k x)"

definition ostream_double :: "double \<Rightarrow> string" where
  "ostream_double p =
     (if d_neg p then ''-'' else []) @
     (if d_nan p then ''nan'' else if \<not> d_finite p then ''inf'' else show_mag_g (d_mag p))"

section \<open>The value of a text\<close>

text \<open>What a reader takes from a decimal text: digits, an optional fraction, an optional exponent.\<close>

definition text_value :: "string \<Rightarrow> real" where
  "text_value s =
     (let ip = takeWhile is_digit s;
          s1 = dropWhile is_digit s;
          (fp, s2) = (case strip CHR ''.'' s1 of
             Some t \<Rightarrow> (takeWhile is_digit t, dropWhile is_digit t)
           | None \<Rightarrow> ([], s1));
          (ex, rest) = read_exponent s2
      in real (digits_val (ip @ fp)) * 10 powi (ex - int (length fp)))"

definition mag_value :: "nat \<Rightarrow> real" where
  "mag_value m = real (mag_sig m) * 2 powi mag_exp m"

lemma mag_sig_pos: "0 < m \<Longrightarrow> 0 < mag_sig m"
  by (simp add: mag_sig_def)

lemma mag_ratio_value:
  assumes "mag_ratio m = (n, d)"
  shows "0 < d" "mag_value m = real n / real d" "0 < m \<Longrightarrow> 0 < n"
proof -
  show "0 < d" "0 < m \<Longrightarrow> 0 < n" using assms mag_sig_pos [of m] by (auto simp: mag_ratio_def split: if_splits)
  show "mag_value m = real n / real d"
  proof (cases "0 \<le> mag_exp m")
    case True
    with assms have "n = mag_sig m * 2 ^ nat (mag_exp m)" "d = 1" by (simp_all add: mag_ratio_def)
    with True show ?thesis by (simp add: mag_value_def power_int_def)
  next
    case False
    with assms have "n = mag_sig m" "d = 2 ^ nat (- mag_exp m)" by (simp_all add: mag_ratio_def)
    with False show ?thesis by (simp add: mag_value_def power_int_def field_simps)
  qed
qed

section \<open>Rounding\<close>

lemma div_half_even_error:
  assumes "0 < b"
  shows "\<bar>real (div_half_even a b) - real a / real b\<bar> \<le> 1 / 2"
proof -
  have "a = b * (a div b) + a mod b" "a mod b < b" using assms by simp_all
  then have a: "real a = real b * real (a div b) + real (a mod b)" and r: "real (a mod b) < real b"
    by (metis of_nat_add of_nat_mult, simp)
  have q: "real a / real b = real (a div b) + real (a mod b) / real b" using a assms by (simp add: field_simps)
  show ?thesis
  proof (cases "2 * (a mod b) < b \<or> 2 * (a mod b) = b \<and> even (a div b)")
    case True
    then have "2 * real (a mod b) \<le> real b" by linarith
    then have "real (a mod b) / real b \<le> 1 / 2" using assms by (simp add: field_simps)
    with True show ?thesis unfolding q by (simp add: div_half_even_def Let_def)
  next
    case False
    then have "real b \<le> 2 * real (a mod b)" by linarith
    then have "1 / 2 \<le> real (a mod b) / real b" "real (a mod b) / real b \<le> 1" using assms r by (simp_all add: field_simps)
    moreover have "div_half_even a b = Suc (a div b)" unfolding div_half_even_def Let_def using False by (rule if_not_P)
    ultimately show ?thesis unfolding q by simp
  qed
qed

lemma div_half_even_mono:
  assumes "0 < b" "real u \<le> real a / real b" "real a / real b \<le> real v"
  shows "u \<le> div_half_even a b" "div_half_even a b \<le> v"
  using div_half_even_error [OF assms(1), of a] assms(2,3) by linarith+

section \<open>The exponent and the digits\<close>

lemma up_exp_bounds: "0 < d \<Longrightarrow> d \<le> n \<Longrightarrow> d * 10 ^ up_exp n d \<le> n \<and> n < d * 10 ^ Suc (up_exp n d)"
proof (induction n d rule: up_exp.induct)
  case (1 n d)
  show ?case
  proof (cases "10 * d \<le> n")
    case True
    then have "up_exp n d = Suc (up_exp n (10 * d))" using "1.prems" by (subst up_exp.simps) simp
    with True 1 show ?thesis by (simp add: mult.assoc mult.left_commute)
  next
    case False
    then have "up_exp n d = 0" by (subst up_exp.simps) simp
    with False 1 show ?thesis by simp
  qed
qed

lemma down_exp_bounds:
  "0 < n \<Longrightarrow> n < d \<Longrightarrow> \<exists>j. down_exp n d = Suc j \<and> n * 10 ^ j < d \<and> d \<le> n * 10 ^ Suc j"
proof (induction n d rule: down_exp.induct)
  case (1 n d)
  then have e: "down_exp n d = Suc (down_exp (10 * n) d)" by (subst down_exp.simps) simp
  show ?case
  proof (cases "10 * n < d")
    case True
    with 1 e show ?thesis by (auto simp: mult.assoc mult.left_commute)
  next
    case False
    then have "down_exp (10 * n) d = 0" by (subst down_exp.simps) simp
    with False 1 e show ?thesis by simp
  qed
qed

lemma dec_exp_bounds:
  assumes "0 < n" "0 < d"
  shows "10 powi dec_exp n d \<le> real n / real d" "real n / real d < 10 powi (dec_exp n d + 1)"
proof -
  have "10 powi dec_exp n d \<le> real n / real d \<and> real n / real d < 10 powi (dec_exp n d + 1)"
  proof (cases "n < d")
    case True
    with down_exp_bounds [OF assms(1)] obtain j where
      j: "down_exp n d = Suc j" "n * 10 ^ j < d" "d \<le> n * 10 ^ Suc j" by blast
    from j(2,3) have "real n * 10 ^ j < real d" "real d \<le> real n * 10 ^ Suc j"
      by (metis of_nat_less_iff of_nat_mult of_nat_numeral of_nat_power, metis of_nat_le_iff of_nat_mult of_nat_numeral of_nat_power)
    then have "inverse (10 ^ Suc j) \<le> real n / real d" "real n / real d < inverse (10 ^ j)"
      using assms by (simp_all add: field_simps del: power_Suc)
    moreover have "(10::real) powi dec_exp n d = inverse (10 ^ Suc j)" "(10::real) powi (dec_exp n d + 1) = inverse (10 ^ j)"
      using True j(1) by (simp_all add: dec_exp_def power_int_def nat_add_distrib power_one_over inverse_eq_divide)
    ultimately show ?thesis by (simp only:)
  next
    case False
    with up_exp_bounds [OF assms(2)] have u: "d * 10 ^ up_exp n d \<le> n" "n < d * 10 ^ Suc (up_exp n d)" by auto
    then have "real d * 10 ^ up_exp n d \<le> real n" "real n < real d * 10 ^ Suc (up_exp n d)"
      by (metis of_nat_le_iff of_nat_mult of_nat_numeral of_nat_power, metis of_nat_less_iff of_nat_mult of_nat_numeral of_nat_power)
    then have "10 ^ up_exp n d \<le> real n / real d" "real n / real d < 10 ^ Suc (up_exp n d)"
      using assms by (simp_all add: field_simps del: power_Suc)
    moreover have "(10::real) powi dec_exp n d = 10 ^ up_exp n d" "(10::real) powi (dec_exp n d + 1) = 10 ^ Suc (up_exp n d)"
      using False by (simp_all add: dec_exp_def power_int_def nat_add_distrib)
    ultimately show ?thesis by (simp only:)
  qed
  then show "10 powi dec_exp n d \<le> real n / real d" "real n / real d < 10 powi (dec_exp n d + 1)" by blast+
qed

lemma scale10_quotient:
  assumes "0 < d" "scale10 n d e = (a, b)"
  shows "0 < b" "real a / real b = real n / real d * 10 powi e"
  using assms by (auto simp: scale10_def power_int_def field_simps split: if_splits)

lemma ten_powi_add: "(10::real) powi x * 10 powi y = 10 powi (x + y)"
  by (simp add: power_int_add)

text \<open>Six digits are within five millionths of the value.\<close>

lemma six_digits_close:
  assumes "0 < n" "0 < d" "six_digits n d = (k, x)"
  shows "100000 \<le> k" "k < 1000000" "\<bar>real k * 10 powi (x - 5) - real n / real d\<bar> \<le> 5 / 10 ^ 6 * (real n / real d)"
proof -
  define x0 v where "x0 = dec_exp n d" and "v = real n / real d"
  obtain a b where ab: "scale10 n d (5 - x0) = (a, b)" by fastforce
  define j where "j = div_half_even a b"
  note q = scale10_quotient [OF assms(2) ab, folded v_def]
  note bounds = dec_exp_bounds [OF assms(1,2), folded x0_def v_def]
  have pos: "(0::real) < 10 powi y" for y by simp
  have "10 powi x0 * 10 powi (5 - x0) \<le> v * (10 :: real) powi (5 - x0)" "v * 10 powi (5 - x0) < 10 powi (x0 + 1) * (10 :: real) powi (5 - x0)"
    using bounds pos by (intro mult_right_mono mult_strict_right_mono; simp)+
  then have range: "real (100000::nat) \<le> real a / real b" "real a / real b \<le> real (1000000::nat)"
    unfolding q(2) ten_powi_add by simp_all
  note jr = div_half_even_mono [OF q(1) range, folded j_def]
  have "\<bar>real j - v * 10 powi (5 - x0)\<bar> \<le> 1 / 2" using div_half_even_error [OF q(1), of a] unfolding q(2) j_def .
  then have "\<bar>real j - v * 10 powi (5 - x0)\<bar> * 10 powi (x0 - 5) \<le> 1 / 2 * 10 powi (x0 - 5)" by (intro mult_right_mono) simp_all
  also have "1 / 2 * 10 powi (x0 - 5) = 5 / 10 ^ 6 * (10::real) powi x0" by (simp add: power_int_diff)
  also have "\<dots> \<le> 5 / 10 ^ 6 * v" using bounds(1) by simp
  also have "\<bar>real j - v * 10 powi (5 - x0)\<bar> * 10 powi (x0 - 5) = \<bar>(real j - v * 10 powi (5 - x0)) * 10 powi (x0 - 5)\<bar>"
    by (simp only: abs_mult abs_of_pos [OF pos])
  also have "(real j - v * 10 powi (5 - x0)) * 10 powi (x0 - 5) = real j * 10 powi (x0 - 5) - v"
    by (simp only: left_diff_distrib mult.assoc ten_powi_add) simp
  finally have close: "\<bar>real j * 10 powi (x0 - 5) - v\<bar> \<le> 5 / 10 ^ 6 * v" .
  have six: "(k, x) = (if j = 1000000 then (100000, x0 + 1) else (j, x0))"
    using assms(3) ab by (auto simp: six_digits_def Let_def x0_def j_def split: if_splits)
  show "100000 \<le> k" "k < 1000000" using six jr by (auto split: if_splits)
  show "\<bar>real k * 10 powi (x - 5) - real n / real d\<bar> \<le> 5 / 10 ^ 6 * (real n / real d)"
  proof (cases "j = 1000000")
    case True
    with six have kx: "k = 100000" "x = x0 + 1" by simp_all
    have "real k * 10 powi (x - 5) = real j * 10 powi (x0 - 5)"
      using power_int_add [of "10::real" "x0 - 5" 1] by (simp add: kx True)
    with close show ?thesis by (simp add: v_def)
  next
    case False
    with six close show ?thesis by (simp add: v_def)
  qed
qed

section \<open>Reading the text back\<close>

lemma digits_val_zeros: "digits_val (s @ replicate j CHR ''0'') = digits_val s * 10 ^ j"
proof (induction j)
  case (Suc j)
  have "s @ replicate (Suc j) CHR ''0'' = (s @ replicate j CHR ''0'') @ [CHR ''0'']" by (simp add: replicate_append_same)
  with Suc show ?case by (simp add: digits_val_append digit_val_def del: append_assoc)
qed simp

lemma digits_val_leading: "digits_val (replicate j CHR ''0'' @ s) = digits_val s"
  by (induction j) (simp_all add: digits_val_def digit_val_def)

lemma strip_zeros_split: "\<exists>j. s = strip_zeros s @ replicate j CHR ''0''"
proof -
  have "s = rev (dropWhile (\<lambda>c. c = CHR ''0'') (rev s)) @ rev (takeWhile (\<lambda>c. c = CHR ''0'') (rev s))"
    by (metis rev_append rev_rev_ident takeWhile_dropWhile_id)
  moreover have "takeWhile (\<lambda>c. c = CHR ''0'') (rev s) = replicate (length (takeWhile (\<lambda>c. c = CHR ''0'') (rev s))) CHR ''0''"
    by (metis (full_types) replicate_length_same set_takeWhileD)
  ultimately show ?thesis unfolding strip_zeros_def by (metis rev_replicate)
qed

lemma strip_zeros_value:
  "real (digits_val (ip @ strip_zeros fp)) * 10 powi (e - int (length (strip_zeros fp))) =
   real (digits_val (ip @ fp)) * 10 powi (e - int (length fp))"
proof -
  obtain j where j: "fp = strip_zeros fp @ replicate j CHR ''0''" using strip_zeros_split by blast
  then have len: "int (length fp) = int (length (strip_zeros fp)) + int j"
    by (metis length_append length_replicate of_nat_add)
  from j have "digits_val (ip @ fp) = digits_val (ip @ strip_zeros fp) * 10 ^ j"
    by (metis append.assoc digits_val_zeros)
  moreover have "(10::real) powi (e - int (length (strip_zeros fp))) = 10 ^ j * 10 powi (e - int (length fp))"
    using power_int_add [of "10::real" "int j" "e - int (length fp)"] by (simp add: len)
  ultimately show ?thesis by simp
qed

text \<open>A text after the fraction: nothing, or an exponent.\<close>

definition exponent_text :: "string \<Rightarrow> int \<Rightarrow> bool" where
  "exponent_text t x \<longleftrightarrow> (\<exists>rest. read_exponent t = (x, rest)) \<and> (t = [] \<or> hd t = CHR ''e'')"

lemma text_value_point:
  assumes "list_all is_digit ip" "list_all is_digit fp" "exponent_text t x"
  shows "text_value (with_point ip fp @ t) = real (digits_val (ip @ fp)) * 10 powi (x - int (length fp))"
proof -
  from assms(3) obtain rest where t: "read_exponent t = (x, rest)" "t = [] \<or> (\<exists>u. t = CHR ''e'' # u)"
    unfolding exponent_text_def by (metis list.collapse)
  have dot: "\<not> is_digit CHR ''.''" and e: "\<not> is_digit CHR ''e''" by (simp_all add: is_digit_def)
  obtain j where "fp = strip_zeros fp @ replicate j CHR ''0''" using strip_zeros_split by blast
  with assms(2) have fp: "list_all is_digit (strip_zeros fp)" by (metis list_all_append)
  have split: "takeWhile is_digit (ds @ t) = ds \<and> dropWhile is_digit (ds @ t) = t" if "list_all is_digit ds" for ds
    using t(2) takeWhile_digits [OF that] e by auto
  have "text_value (with_point ip fp @ t) = real (digits_val (ip @ strip_zeros fp)) * 10 powi (x - int (length (strip_zeros fp)))"
  proof (cases "strip_zeros fp = []")
    case True
    have "strip CHR ''.'' t = None" using t(2) by (auto simp: strip_def)
    with True split [OF assms(1)] t(1) show ?thesis by (simp add: with_point_def text_value_def Let_def)
  next
    case False
    have "takeWhile is_digit (ip @ ''.'' @ strip_zeros fp @ t) = ip"
      "dropWhile is_digit (ip @ ''.'' @ strip_zeros fp @ t) = ''.'' @ strip_zeros fp @ t"
      using takeWhile_digits(1) [OF assms(1) dot, of "strip_zeros fp @ t"] by simp_all
    with False split [OF fp] t(1) show ?thesis by (simp add: with_point_def text_value_def Let_def strip_def)
  qed
  then show ?thesis by (simp only: strip_zeros_value)
qed

lemma show_exponent_text: "exponent_text (show_exponent x) x"
proof -
  let ?ds = "(if \<bar>x\<bar> < 10 then ''0'' else []) @ show_nat (nat \<bar>x\<bar>)"
  have "list_all is_digit ?ds" "?ds \<noteq> []" "digits_val ?ds = nat \<bar>x\<bar>"
    using show_nat_digits [of "nat \<bar>x\<bar>"] digits_val_leading [of 1 "show_nat (nat \<bar>x\<bar>)"] by (auto simp: is_digit_def)
  then obtain ds where ds: "ds = ?ds" "takeWhile is_digit ds = ds" "ds \<noteq> []" "digits_val ds = nat \<bar>x\<bar>"
    using takeWhile_digits(2) [of ?ds] by blast
  have "show_exponent x = CHR ''e'' # (if x < 0 then CHR ''-'' else CHR ''+'') # ds" by (simp add: show_exponent_def ds(1))
  with ds(3,4) show ?thesis
    by (simp add: exponent_text_def read_exponent_def Let_def strip_def to_lower_def ds(2) del: takeWhile_eq_all_conv)
qed

lemma show_nat_length: "0 < n \<Longrightarrow> 10 ^ (length (show_nat n) - 1) \<le> n \<and> n < 10 ^ length (show_nat n)"
proof (induction n rule: show_nat.induct)
  case (1 n)
  show ?case
  proof (cases "n < 10")
    case True
    with "1.prems" show ?thesis by (subst (1 2) show_nat.simps) simp
  next
    case False
    obtain l where l: "length (show_nat (n div 10)) = Suc l" using show_nat_digits [of "n div 10"] by (cases "show_nat (n div 10)") auto
    with "1.IH" False have "10 ^ l \<le> n div 10" "n div 10 < 10 ^ Suc l" by auto
    then have "10 ^ Suc l \<le> n" "n < 10 ^ Suc (Suc l)" by (simp_all; arith)+
    moreover have "length (show_nat n) = Suc (Suc l)" using False l by (subst show_nat.simps) simp
    ultimately show ?thesis by simp
  qed
qed

lemma show_six: "100000 \<le> k \<Longrightarrow> k < 1000000 \<Longrightarrow> length (show_nat k) = 6"
proof -
  assume k: "100000 \<le> k" "k < 1000000"
  then have b: "10 ^ (length (show_nat k) - 1) \<le> k" "k < 10 ^ length (show_nat k)" using show_nat_length [of k] by auto
  have "(10::nat) ^ 5 < 10 ^ length (show_nat k)" "(10::nat) ^ (length (show_nat k) - 1) < 10 ^ 6" using b k by simp_all
  then have "5 < length (show_nat k)" "length (show_nat k) - 1 < 6" by (simp_all only: power_strict_increasing_iff one_less_numeral_iff semiring_norm)
  then show ?thesis by simp
qed

lemma format_g_value:
  assumes "100000 \<le> k" "k < 1000000"
  shows "text_value (format_g k x) = real k * 10 powi (x - 5)"
proof -
  let ?ds = "show_nat k"
  have ds: "list_all is_digit ?ds" "digits_val ?ds = k" "length ?ds = 6"
    using show_nat_digits [of k] show_six [OF assms] by auto
  have parts: "list_all is_digit (take j ?ds)" "list_all is_digit (drop j ?ds)" for j
    using ds(1) by (metis append_take_drop_id list_all_append)+
  have no_exponent: "exponent_text [] 0" by (simp add: exponent_text_def read_exponent_def)
  consider (fixed) "0 \<le> x" "x < 6" | (small) "- 4 \<le> x" "x < 0" | (exp) "x < - 4 \<or> 6 \<le> x" by linarith
  then show ?thesis
  proof cases
    case fixed
    have "text_value (with_point (take (nat x + 1) ?ds) (drop (nat x + 1) ?ds) @ []) =
        real (digits_val (take (nat x + 1) ?ds @ drop (nat x + 1) ?ds)) * 10 powi (0 - int (length (drop (nat x + 1) ?ds)))"
      by (rule text_value_point [OF parts no_exponent])
    with fixed ds show ?thesis by (simp add: format_g_def Let_def of_nat_diff)
  next
    case small
    have zeros: "list_all is_digit ''0''" "list_all is_digit (replicate (nat (- x) - 1) CHR ''0'' @ ?ds)"
      using ds(1) by (auto simp: is_digit_def list_all_iff)
    have "digits_val (''0'' @ replicate (nat (- x) - 1) CHR ''0'' @ ?ds) = k"
      using digits_val_leading [of "Suc (nat (- x) - 1)" ?ds] ds(2) by simp
    with text_value_point [OF zeros no_exponent] small ds(3) show ?thesis by (simp add: format_g_def Let_def of_nat_diff)
  next
    case exp
    with text_value_point [OF parts(1) [of 1] parts(2) [of 1] show_exponent_text [of x]] ds show ?thesis
      by (auto simp: format_g_def Let_def)
  qed
qed

lemma show_mag_g_close:
  "\<bar>text_value (show_mag_g m) - mag_value m\<bar> \<le> 5 / 10 ^ 6 * mag_value m"
proof (cases "m = 0")
  case True
  then show ?thesis by (simp add: show_mag_g_def text_value_def mag_value_def mag_sig_def digits_val_def digit_val_def
      is_digit_def strip_def read_exponent_def)
next
  case False
  obtain n d k x where nd: "mag_ratio m = (n, d)" and kx: "six_digits n d = (k, x)" by (metis surj_pair)
  note r = mag_ratio_value [OF nd]
  from False six_digits_close [OF r(3) r(1) kx] format_g_value [of k x] r(2) nd kx show ?thesis
    by (simp add: show_mag_g_def)
qed

end
