(* ===== verification/Kafka_Producer.thy ===== *)
theory Kafka_Producer
  imports Pipeline_Properties
begin

text \<open>
  \<^verbatim>\<open>KafkaEventProducer\<close> (\<^verbatim>\<open>include/tickforge/kafka_event_producer.hpp\<close>, \<^verbatim>\<open>src/kafka_event_producer.cpp\<close>). The
  client library librdkafka is not part of the repository: its functions are parameters, and the
  locale \<^verbatim>\<open>rd_kafka_client\<close> states what its documentation says of them: a message is either enqueued or
  refused at once, messages are enqueued in the order of the calls, and each enqueued message gets
  at most one delivery report, served from within \<^verbatim>\<open>rd_kafka_poll\<close> or \<^verbatim>\<open>rd_kafka_flush\<close>. The queue is the
  client's own: that a message is enqueued does not say that a broker has it, and the contract says nothing
  about what becomes of it after that, apart from the report.
\<close>

section \<open>The client library\<close>

type_synonym message = "string \<times> string \<times> string" \<comment> \<open>topic, key, value\<close>

text \<open>
  \<^verbatim>\<open>conf_set\<close> returns the error text of \<^verbatim>\<open>rd_kafka_conf_set\<close>, if it fails; \<^verbatim>\<open>rd_poll\<close> and \<^verbatim>\<open>rd_flush\<close> return
  the delivery reports they serve, each with whether it reports an error.
\<close>

record 'k rd_kafka =
  conf_set :: "string \<Rightarrow> string \<Rightarrow> string option"
  rd_new :: "(string \<times> string) list \<Rightarrow> string + 'k"
  producev :: "message \<Rightarrow> 'k \<Rightarrow> string option \<times> 'k"
  rd_poll :: "'k \<Rightarrow> bool list \<times> 'k"
  rd_flush :: "int \<Rightarrow> 'k \<Rightarrow> bool list \<times> 'k"
  rd_destroy :: "'k \<Rightarrow> 'k"

locale rd_kafka_client =
  fixes K :: "'k rd_kafka"
    and kinv :: "'k \<Rightarrow> bool"
    and enqueued :: "'k \<Rightarrow> message list"
    and reported :: "'k \<Rightarrow> bool list" \<comment> \<open>the reports served so far, each with whether it reports an error\<close>
  assumes new_client: "rd_new K c = Inr k \<Longrightarrow> kinv k \<and> enqueued k = [] \<and> reported k = []"
    and producev_result: "kinv k \<Longrightarrow> producev K m k = (err, k') \<Longrightarrow>
      kinv k' \<and> enqueued k' = enqueued k @ (if err = None then [m] else []) \<and> reported k' = reported k"
    and poll_result: "kinv k \<Longrightarrow> rd_poll K k = (drs, k') \<Longrightarrow>
      kinv k' \<and> enqueued k' = enqueued k \<and> reported k' = reported k @ drs"
    and flush_result: "kinv k \<Longrightarrow> rd_flush K t k = (drs, k') \<Longrightarrow>
      kinv k' \<and> enqueued k' = enqueued k \<and> reported k' = reported k @ drs"
    and reported_bound: "kinv k \<Longrightarrow> length (reported k) \<le> length (enqueued k)"

section \<open>The producer\<close>

record KafkaProducerConfig =
  brokers :: string
  topic :: string

record 'k KafkaEventProducer =
  pconfig :: KafkaProducerConfig
  producer :: 'k
  delivery_successes :: u64
  delivery_failures :: u64

definition deliveryReport :: "bool \<Rightarrow> 'k KafkaEventProducer \<Rightarrow> 'k KafkaEventProducer" where
  "deliveryReport err p =
     (if err then p\<lparr>delivery_failures := delivery_failures p + 1\<rparr>
      else p\<lparr>delivery_successes := delivery_successes p + 1\<rparr>)"

text \<open>The library calls back for each report it serves.\<close>

definition serve :: "bool list \<times> 'k \<Rightarrow> 'k KafkaEventProducer \<Rightarrow> 'k KafkaEventProducer" where
  "serve r p = fold deliveryReport (fst r) (p\<lparr>producer := snd r\<rparr>)"

definition KafkaEventProducer_new :: "'k rd_kafka \<Rightarrow> KafkaProducerConfig \<Rightarrow> cpp_exn + 'k KafkaEventProducer" where
  "KafkaEventProducer_new K c =
     (case conf_set K ''bootstrap.servers'' (brokers c) of
        Some errstr \<Rightarrow> Inl (Runtime_error (''KafkaEventProducer: '' @ errstr))
      | None \<Rightarrow>
      case rd_new K [(''bootstrap.servers'', brokers c)] of
        Inl errstr \<Rightarrow> Inl (Runtime_error (''KafkaEventProducer: failed to create producer: '' @ errstr))
      | Inr k \<Rightarrow> Inr \<lparr>pconfig = c, producer = k, delivery_successes = 0, delivery_failures = 0\<rparr>)"

definition kafka_publish ::
    "'k rd_kafka \<Rightarrow> json_dumper \<Rightarrow> MarketEvent \<Rightarrow> 'k KafkaEventProducer \<Rightarrow> 'k KafkaEventProducer \<times> (cpp_exn + bool)" where
  "kafka_publish K dump event p =
     (case dump (marketEventToJson event) of
        Inl e \<Rightarrow> (p, Inl (Json_exn e))
      | Inr payload \<Rightarrow>
          let (err, k) = producev K (topic (pconfig p), symbol event, payload) (producer p);
              p = serve (rd_poll K k) (p\<lparr>producer := k\<rparr>)
          in (p, Inr (err = None)))"

definition kafka_flush :: "'k rd_kafka \<Rightarrow> int \<Rightarrow> 'k KafkaEventProducer \<Rightarrow> 'k KafkaEventProducer" where
  "kafka_flush K timeout p = serve (rd_flush K timeout (producer p)) p"

text \<open>The destructor flushes for ten seconds before it destroys the client.\<close>

definition KafkaEventProducer_destroy :: "'k rd_kafka \<Rightarrow> 'k KafkaEventProducer \<Rightarrow> 'k KafkaEventProducer" where
  "KafkaEventProducer_destroy K p =
     (let p = kafka_flush K 10000 p in p\<lparr>producer := rd_destroy K (producer p)\<rparr>)"

text \<open>The pipeline flushes its publisher with a timeout of ten seconds.\<close>

definition kafka_iface :: "'k rd_kafka \<Rightarrow> json_dumper \<Rightarrow> (unit, 'k KafkaEventProducer) publisher_iface" where
  "kafka_iface K dump = \<lparr>pub_publish = (\<lambda>_. kafka_publish K dump), pub_flush = (\<lambda>_. kafka_flush K 10000)\<rparr>"

text \<open>The message of an event.\<close>

definition kafka_message :: "KafkaProducerConfig \<Rightarrow> json_dumper \<Rightarrow> MarketEvent \<Rightarrow> message" where
  "kafka_message c dump e =
     (topic c, symbol e, case dump (marketEventToJson e) of Inr payload \<Rightarrow> payload | Inl x \<Rightarrow> [])"

section \<open>The contract of a publisher\<close>

lemma reports_served:
  "producer (fold deliveryReport drs p) = producer p" "pconfig (fold deliveryReport drs p) = pconfig p"
  "delivery_successes (fold deliveryReport drs p) = delivery_successes p + of_nat (count_if Not drs)"
  "delivery_failures (fold deliveryReport drs p) = delivery_failures p + of_nat (count_if id drs)"
  by (induction drs arbitrary: p) (simp_all add: deliveryReport_def)

lemma serve_simps [simp]:
  "producer (serve r p) = snd r" "pconfig (serve r p) = pconfig p"
  by (simp_all add: serve_def reports_served)

context rd_kafka_client
begin

definition producer_inv :: "KafkaProducerConfig \<Rightarrow> 'k KafkaEventProducer \<Rightarrow> bool" where
  "producer_inv c p \<longleftrightarrow> kinv (producer p) \<and> pconfig p = c \<and>
     delivery_successes p = of_nat (count_if Not (reported (producer p))) \<and>
     delivery_failures p = of_nat (count_if id (reported (producer p)))"

lemma new_producer: "KafkaEventProducer_new K c = Inr p \<Longrightarrow> producer_inv c p \<and> enqueued (producer p) = []"
  using new_client by (auto simp: KafkaEventProducer_new_def producer_inv_def split: option.splits sum.splits)

lemma serve_inv:
  assumes "producer_inv c p" "kinv (snd r)" "reported (snd r) = reported (producer p) @ fst r"
  shows "producer_inv c (serve r p)"
  using assms by (simp add: producer_inv_def serve_def reports_served count_if_append)

lemma publish_outcome:
  assumes "producer_inv c p" "kafka_publish K dump e p = (p', r)"
  shows "producer_inv c p' \<and>
    enqueued (producer p') = enqueued (producer p) @ (if r = Inr True then [kafka_message c dump e] else [])"
proof (cases "dump (marketEventToJson e)")
  case (Inl x)
  then show ?thesis using assms by (auto simp: kafka_publish_def)
next
  case (Inr payload)
  obtain err k where prod: "producev K (topic (pconfig p), symbol e, payload) (producer p) = (err, k)" by fastforce
  obtain drs k' where poll: "rd_poll K k = (drs, k')" by fastforce
  from assms(1) have inv: "kinv (producer p)" "pconfig p = c" by (auto simp: producer_inv_def)
  note k = producev_result [OF inv(1) prod] and k' = poll_result [OF _ poll]
  have "producer_inv c (p\<lparr>producer := k\<rparr>)" using assms(1) k by (simp add: producer_inv_def)
  from serve_inv [OF this, of "(drs, k')"] k k' have "producer_inv c (serve (drs, k') (p\<lparr>producer := k\<rparr>))" by simp
  with assms(2) Inr prod poll k k' inv(2) show ?thesis
    by (cases err) (auto simp: kafka_publish_def kafka_message_def)
qed

lemma flush_outcome:
  "producer_inv c p \<Longrightarrow> producer_inv c (kafka_flush K t p) \<and> enqueued (producer (kafka_flush K t p)) = enqueued (producer p)"
  using serve_inv [of c p "rd_flush K t (producer p)"]
    flush_result [of "producer p" t "fst (rd_flush K t (producer p))" "snd (rd_flush K t (producer p))"]
  by (simp add: kafka_flush_def producer_inv_def)

end

sublocale rd_kafka_client \<subseteq> kafka: event_publisher "kafka_iface K dump" "producer_inv c" "\<lambda>p. enqueued (producer p)"
    "kafka_message c dump" for c dump
  by unfold_locales (use publish_outcome flush_outcome in \<open>auto simp: kafka_iface_def\<close>)

context rd_kafka_client
begin

lemma kafka_runs:
  assumes "KafkaEventProducer_new K c = Inr pb" "runs_from S (kafka_iface K dump) dump as s pb cap rec fs p"
  shows "enqueued (producer (publisher p)) = map (\<lambda>h. kafka_message c dump (fst h)) (filter snd (handled p)) \<and>
    delivery_successes (publisher p) = of_nat (count_if Not (reported (producer (publisher p)))) \<and>
    delivery_failures (publisher p) = of_nat (count_if id (reported (producer (publisher p)))) \<and>
    length (reported (producer (publisher p))) \<le> length (filter snd (handled p))"
proof -
  from kafka.log_runs [OF assms(2), of c] new_producer [OF assms(1)]
  have log: "enqueued (producer (publisher p)) = map (\<lambda>h. kafka_message c dump (fst h)) (filter snd (handled p))"
    and inv: "producer_inv c (publisher p)" by auto
  from inv reported_bound [of "producer (publisher p)"] log show ?thesis by (simp add: producer_inv_def)
qed

end

section \<open>A client in memory\<close>

text \<open>
  A client that keeps the contract, with a bounded queue of messages that await their report: it
  refuses a message when the queue is full, reports one message per poll and all of them when
  flushed, and every second report is an error.
\<close>

record memory_client =
  mem_log :: "message list"
  mem_reported :: "bool list"
  mem_limit :: nat

definition mem_pending :: "memory_client \<Rightarrow> nat" where
  "mem_pending k = length (mem_log k) - length (mem_reported k)"

definition mem_report :: "nat \<Rightarrow> memory_client \<Rightarrow> bool list \<times> memory_client" where
  "mem_report n k =
     (let m = length (mem_reported k); drs = map odd [m ..< m + min n (mem_pending k)]
      in (drs, k\<lparr>mem_reported := mem_reported k @ drs\<rparr>))"

definition memory_kafka :: "nat \<Rightarrow> memory_client rd_kafka" where
  "memory_kafka limit =
     \<lparr>conf_set = (\<lambda>k v. if v = [] then Some ''invalid value'' else None),
      rd_new = (\<lambda>c. Inr \<lparr>mem_log = [], mem_reported = [], mem_limit = limit\<rparr>),
      producev = (\<lambda>m k. if mem_limit k \<le> mem_pending k then (Some ''queue full'', k)
        else (None, k\<lparr>mem_log := mem_log k @ [m]\<rparr>)),
      rd_poll = mem_report 1, rd_flush = (\<lambda>t k. mem_report (mem_pending k) k),
      rd_destroy = id\<rparr>"

interpretation memory: rd_kafka_client "memory_kafka limit" "\<lambda>k. length (mem_reported k) \<le> length (mem_log k)" mem_log mem_reported
  by unfold_locales (auto simp: memory_kafka_def mem_report_def mem_pending_def Let_def split: if_splits)

section \<open>Properties\<close>

text \<open>
  C18: what is handed to the Kafka client. Under the contract of the client library, at every moment of every run
  of a pipeline that publishes to Kafka, the messages enqueued in the client are those of the events whose \<^verbatim>\<open>publish\<close>
  returned true, in order, each on the configured topic with the symbol as its key and the JSON text
  of the event as its value. The success counter is the number of delivery reports served without an error,
  the failure counter the number of those with one, and there is at most one report per enqueued message.
\<close>

theorem kafka_publishes_in_order:
  assumes "rd_kafka_client K kinv enqueued reported" "KafkaEventProducer_new K c = Inr pb"
    and "runs_from S (kafka_iface K dump) dump as s pb cap rec fs p"
  shows "enqueued (producer (publisher p)) = map (\<lambda>h. kafka_message c dump (fst h)) (filter snd (handled p)) \<and>
    delivery_successes (publisher p) = of_nat (count_if Not (reported (producer (publisher p)))) \<and>
    delivery_failures (publisher p) = of_nat (count_if id (reported (producer (publisher p)))) \<and>
    length (reported (producer (publisher p))) \<le> length (filter snd (handled p))"
  by (rule rd_kafka_client.kafka_runs [OF assms])

text \<open>The pipeline of the tests, publishing to the client in memory.\<close>

definition sample_config :: KafkaProducerConfig where
  "sample_config = \<lparr>brokers = ''localhost:9092'', topic = ''market-events''\<rparr>"

definition sample_producer :: "memory_client KafkaEventProducer" where
  "sample_producer = \<lparr>pconfig = sample_config, producer = \<lparr>mem_log = [], mem_reported = [], mem_limit = 1\<rparr>,
     delivery_successes = 0, delivery_failures = 0\<rparr>"

definition sample_kafka_run :: "(FakeInfiniteSource, memory_client KafkaEventProducer) IngestionPipeline option" where
  "sample_kafka_run = do_actions infinite_iface (kafka_iface (memory_kafka 1) sample_dump) sample_dump sample_schedule
     (IngestionPipeline_new FakeInfiniteSource_new sample_producer 4 None Map.empty)"

lemma sample_kafka_runs:
  "runs_from infinite_iface (kafka_iface (memory_kafka 1) sample_dump) sample_dump sample_schedule
     FakeInfiniteSource_new sample_producer 4 None Map.empty (the sample_kafka_run)"
proof -
  have "\<not> Option.is_none sample_kafka_run" by code_simp
  then show ?thesis by (simp add: do_actions_pruns [symmetric] sample_kafka_run_def Option.is_none_def)
qed

lemma sample_producer_new: "KafkaEventProducer_new (memory_kafka 1) sample_config = Inr sample_producer"
  by (simp add: KafkaEventProducer_new_def memory_kafka_def sample_config_def sample_producer_def)

lemma sample_reports: "mem_reported (producer (publisher (the sample_kafka_run))) = [False, True]"
  by code_simp

theorem kafka_publishes_in_order_witness:
  "mem_log (producer (publisher (the sample_kafka_run))) =
     map (\<lambda>h. kafka_message sample_config sample_dump (fst h)) (filter snd (handled (the sample_kafka_run))) \<and>
   delivery_successes (publisher (the sample_kafka_run)) = 1 \<and> delivery_failures (publisher (the sample_kafka_run)) = 1"
  using kafka_publishes_in_order [OF memory.rd_kafka_client_axioms sample_producer_new sample_kafka_runs]
  by (simp add: sample_reports)

end
