(* ===== verification/Kafka_Consumer.thy ===== *)
theory Kafka_Consumer
  imports Recorder_Replay
begin

text \<open>
  \<^verbatim>\<open>KafkaEventConsumer\<close> (\<^verbatim>\<open>include/tickforge/kafka_event_consumer.hpp\<close>, \<^verbatim>\<open>src/kafka_event_consumer.cpp\<close>) and
  the loop of the consumer service that counts what it receives (\<^verbatim>\<open>services/consumer/main.cpp\<close>). The
  client library is a parameter where the code configures and creates it; what a poll returns is the
  input of a pass through the loop of \<^verbatim>\<open>next()\<close>.
\<close>

section \<open>State\<close>

record KafkaConsumerConfig =
  c_brokers :: string
  c_topic :: string
  group_id :: string
  auto_offset_reset :: string

definition KafkaConsumerConfig_default :: KafkaConsumerConfig where
  "KafkaConsumerConfig_default = \<lparr>c_brokers = ''localhost:9092'', c_topic = ''market-events'',
     group_id = ''tickforge-consumer'', auto_offset_reset = ''earliest''\<rparr>"

record ConsumedRecord =
  event :: MarketEvent
  partition :: int
  offset :: i64

record 'k KafkaEventConsumer =
  cconfig :: KafkaConsumerConfig
  consumer :: 'k
  con_stop_requested :: bool
  messages_consumed :: u64
  messages_malformed :: u64

text \<open>The functions of the client library that the consumer calls outside its loop.\<close>

record 'k rd_consumer =
  con_conf_set :: "string \<Rightarrow> string \<Rightarrow> string option"
  con_new :: "(string \<times> string) list \<Rightarrow> string + 'k"
  subscribe :: "string \<Rightarrow> 'k \<Rightarrow> string option \<times> 'k"
  consumer_close :: "'k \<Rightarrow> 'k"
  con_destroy :: "'k \<Rightarrow> 'k"

section \<open>Construction, start and stop\<close>

type_synonym conf = "(string \<times> string) list"

definition setConfOrThrow :: "'k rd_consumer \<Rightarrow> string \<Rightarrow> string \<Rightarrow> conf \<Rightarrow> cpp_exn + conf" where
  "setConfOrThrow K key val conf =
     (case con_conf_set K key val of
        Some errstr \<Rightarrow> Inl (Runtime_error (''KafkaEventConsumer: '' @ errstr))
      | None \<Rightarrow> Inr (conf @ [(key, val)]))"

definition and_then :: "'e + 'a \<Rightarrow> ('a \<Rightarrow> 'e + 'b) \<Rightarrow> 'e + 'b" where
  "and_then r f = (case r of Inl e \<Rightarrow> Inl e | Inr x \<Rightarrow> f x)"

definition KafkaEventConsumer_new :: "'k rd_consumer \<Rightarrow> KafkaConsumerConfig \<Rightarrow> cpp_exn + 'k KafkaEventConsumer" where
  "KafkaEventConsumer_new K c =
     and_then (setConfOrThrow K ''bootstrap.servers'' (c_brokers c) []) (\<lambda>conf.
     and_then (setConfOrThrow K ''group.id'' (group_id c) conf) (\<lambda>conf.
     and_then (setConfOrThrow K ''auto.offset.reset'' (auto_offset_reset c) conf) (\<lambda>conf.
       case con_new K conf of
         Inl errstr \<Rightarrow> Inl (Runtime_error (''KafkaEventConsumer: failed to create consumer: '' @ errstr))
       | Inr k \<Rightarrow> Inr \<lparr>cconfig = c, consumer = k, con_stop_requested = False, messages_consumed = 0,
           messages_malformed = 0\<rparr>)))"

definition consumer_start :: "'k rd_consumer \<Rightarrow> 'k KafkaEventConsumer \<Rightarrow> 'k KafkaEventConsumer \<times> cpp_exn option" where
  "consumer_start K c =
     (let (err, k) = subscribe K (c_topic (cconfig c)) (consumer c)
      in (c\<lparr>consumer := k\<rparr>,
          case err of None \<Rightarrow> None
          | Some e \<Rightarrow> Some (Runtime_error (''KafkaEventConsumer: subscribe failed: '' @ e))))"

definition consumer_stop :: "'k KafkaEventConsumer \<Rightarrow> 'k KafkaEventConsumer" where
  "consumer_stop c = c\<lparr>con_stop_requested := True\<rparr>"

text \<open>The destructor stops, then closes and destroys the client.\<close>

definition KafkaEventConsumer_destroy :: "'k rd_consumer \<Rightarrow> 'k KafkaEventConsumer \<Rightarrow> 'k KafkaEventConsumer" where
  "KafkaEventConsumer_destroy K c =
     (let c' = consumer_stop c in c'\<lparr>consumer := con_destroy K (consumer_close K (consumer c'))\<rparr>)"

section \<open>\<^verbatim>\<open>next()\<close>\<close>

text \<open>
  What \<^verbatim>\<open>rd_kafka_consumer_poll\<close> returns: nothing within its timeout, a message that carries an error
  (the end of a partition is one), or a message with payload, partition and offset.
\<close>

datatype poll_result = Poll_timeout | Poll_error | Polled string int i64

datatype consume_result = Record ConsumedRecord | C_finished | C_again | C_raised cpp_exn

definition consumer_step ::
    "json_parser \<Rightarrow> poll_result \<times> i64 \<Rightarrow> 'k KafkaEventConsumer \<Rightarrow> 'k KafkaEventConsumer \<times> consume_result" where
  "consumer_step parse input c =
     (if con_stop_requested c then (c, C_finished)
      else case fst input of
        Poll_timeout \<Rightarrow> (c, C_again)
      | Poll_error \<Rightarrow> (c, C_again)
      | Polled payload part off \<Rightarrow>
          let malformed = c\<lparr>messages_malformed := messages_malformed c + 1\<rparr>
          in case parse payload of
               Inl (Parse_error what) \<Rightarrow> (malformed, C_again)
             | Inl e \<Rightarrow> (c, C_raised (Json_exn e))
             | Inr parsed \<Rightarrow>
                 (case fst (marketEventFromJson parsed None) of
                    None \<Rightarrow> (malformed, C_again)
                  | Some e \<Rightarrow>
                      (c\<lparr>messages_consumed := messages_consumed c + 1\<rparr>,
                       Record \<lparr>event = e\<lparr>ingest_time := snd input\<rparr>, partition = part, offset = off\<rparr>)))"

text \<open>A call of \<^verbatim>\<open>next()\<close>, and the loop \<^verbatim>\<open>while (consumer.next(record))\<close>, with the calls of \<^verbatim>\<open>stop()\<close>.\<close>

fun consumer_next ::
    "json_parser \<Rightarrow> (poll_result \<times> i64) tick list \<Rightarrow> 'k KafkaEventConsumer \<Rightarrow>
     ('k KafkaEventConsumer \<times> consume_result \<times> (poll_result \<times> i64) tick list) option" where
  "consumer_next parse [] c = None"
| "consumer_next parse (Stop_call # ts) c = consumer_next parse ts (consumer_stop c)"
| "consumer_next parse (Input i # ts) c =
     (case consumer_step parse i c of
        (c', C_again) \<Rightarrow> consumer_next parse ts c'
      | (c', r) \<Rightarrow> Some (c', r, ts))"

fun consume_loop ::
    "json_parser \<Rightarrow> (poll_result \<times> i64) tick list \<Rightarrow> 'k KafkaEventConsumer \<Rightarrow>
     ConsumedRecord list \<times> 'k KafkaEventConsumer \<times> consume_result option" where
  "consume_loop parse [] c = ([], c, None)"
| "consume_loop parse (Stop_call # ts) c = consume_loop parse ts (consumer_stop c)"
| "consume_loop parse (Input i # ts) c =
     (case consumer_step parse i c of
        (c', C_again) \<Rightarrow> consume_loop parse ts c'
      | (c', Record r) \<Rightarrow> apfst ((#) r) (consume_loop parse ts c')
      | (c', e) \<Rightarrow> ([], c', Some e))"

section \<open>The contract of a source\<close>

text \<open>
  The consumer follows the convention of a source. Seen through the events of its records it is one,
  and the results about sources apply to it.
\<close>

definition consumer_source :: "'k rd_consumer \<Rightarrow> json_parser \<Rightarrow> (poll_result \<times> i64, 'k KafkaEventConsumer) source_iface" where
  "consumer_source K parse =
     \<lparr>src_start = consumer_start K, src_stop = consumer_stop,
      src_step = (\<lambda>i c. map_prod id (\<lambda>r. case r of Record rec \<Rightarrow> Event (event rec) | C_finished \<Rightarrow> Finished
        | C_again \<Rightarrow> Again | C_raised x \<Rightarrow> Raised x) (consumer_step parse i c))\<rparr>"

interpretation consumer: market_data_source "consumer_source K parse" "\<lambda>_. True" con_stop_requested "\<lambda>_. 0"
proof
  fix s s' i j r
  show "snd (src_step (consumer_source K parse) j s') = Finished"
    if "src_step (consumer_source K parse) i s = (s', Finished)"
    using that by (auto simp: consumer_source_def consumer_step_def Let_def map_prod_def
        split: if_splits poll_result.splits sum.splits json_exn.splits option.splits consume_result.splits prod.splits)
qed (auto simp: consumer_source_def consumer_step_def consumer_stop_def Let_def split: if_splits poll_result.splits
    sum.splits json_exn.splits option.splits)

section \<open>What is consumed\<close>

text \<open>
  A payload by the reference classification of a captured line. A message is never blank: an empty payload is
  handed to the parser like any other.
\<close>

definition classify_message :: "json_parser \<Rightarrow> string \<Rightarrow> line_kind" where
  "classify_message parse payload =
     (case parse payload of
        Inl (Parse_error what) \<Rightarrow> Malformed
      | Inl e \<Rightarrow> Overflow e
      | Inr parsed \<Rightarrow> (case fst (marketEventFromJson parsed None) of None \<Rightarrow> Malformed | Some e \<Rightarrow> Captured e))"

lemma classify_message_line:
  "classify parse payload = Captured e \<Longrightarrow> classify_message parse payload = Captured e"
  "classify parse payload = Malformed \<Longrightarrow> classify_message parse payload = Malformed"
  by (auto simp: classify_def classify_message_def split: if_splits sum.splits json_exn.splits option.splits)

lemma classify_message_not_blank [simp]: "classify_message parse payload \<noteq> Blank"
  by (auto simp: classify_message_def split: sum.split json_exn.split option.split)

text \<open>The record of one poll.\<close>

definition poll_records :: "json_parser \<Rightarrow> poll_result \<times> i64 \<Rightarrow> ConsumedRecord list" where
  "poll_records parse i =
     (case fst i of
        Polled payload part off \<Rightarrow>
          (case classify_message parse payload of
             Captured e \<Rightarrow> [\<lparr>event = e\<lparr>ingest_time := snd i\<rparr>, partition = part, offset = off\<rparr>]
           | _ \<Rightarrow> [])
      | _ \<Rightarrow> [])"

definition poll_malformed :: "json_parser \<Rightarrow> poll_result \<times> i64 \<Rightarrow> bool" where
  "poll_malformed parse i =
     (case fst i of Polled payload part off \<Rightarrow> classify_message parse payload = Malformed | _ \<Rightarrow> False)"

text \<open>A poll whose payload does not hold a number too large for a double, for which the parser throws another exception.\<close>

definition poll_ok :: "json_parser \<Rightarrow> poll_result \<times> i64 \<Rightarrow> bool" where
  "poll_ok parse i =
     (case fst i of Polled payload part off \<Rightarrow> \<forall>e. classify_message parse payload \<noteq> Overflow e | _ \<Rightarrow> True)"

lemma consumer_step_poll:
  assumes "\<not> con_stop_requested c" "poll_ok parse i"
  shows "consumer_step parse i c =
    (case poll_records parse i of
       r # rs \<Rightarrow> (c\<lparr>messages_consumed := messages_consumed c + 1\<rparr>, Record r)
     | [] \<Rightarrow> (if poll_malformed parse i then c\<lparr>messages_malformed := messages_malformed c + 1\<rparr> else c, C_again))"
  using assms
  by (cases "fst i")
    (auto simp: consumer_step_def poll_ok_def poll_records_def poll_malformed_def classify_message_def Let_def
      split: sum.splits json_exn.splits option.splits)

lemma poll_records_single: "poll_records parse i = [] \<or> (\<exists>r. poll_records parse i = [r])"
  by (auto simp: poll_records_def split: poll_result.split line_kind.split)

lemma poll_malformed_no_record: "poll_malformed parse i \<Longrightarrow> poll_records parse i = []"
  by (auto simp: poll_records_def poll_malformed_def split: poll_result.splits)

lemma consume_polls:
  assumes "\<not> con_stop_requested c" "\<forall>i \<in> set is. poll_ok parse i"
  shows "consume_loop parse (map Input is @ ts) c =
    (let rs = concat (map (poll_records parse) is);
         c' = c\<lparr>messages_consumed := messages_consumed c + of_nat (length rs),
                messages_malformed := messages_malformed c + of_nat (count_if (poll_malformed parse) is)\<rparr>
     in apfst ((@) rs) (consume_loop parse ts c'))"
  using assms
proof (induction "is" arbitrary: c)
  case Nil
  then show ?case by (cases "consume_loop parse ts c") simp
next
  case (Cons i "is")
  from Cons.prems consumer_step_poll [of c parse i]
  have step: "consumer_step parse i c =
    (case poll_records parse i of
       r # rs \<Rightarrow> (c\<lparr>messages_consumed := messages_consumed c + 1\<rparr>, Record r)
     | [] \<Rightarrow> (if poll_malformed parse i then c\<lparr>messages_malformed := messages_malformed c + 1\<rparr> else c, C_again))"
    by simp
  from poll_records_single [of parse i] consider "poll_records parse i = []" | r where "poll_records parse i = [r]" by blast
  then show ?case
  proof cases
    case 1
    with Cons step show ?thesis by (simp add: Let_def add.assoc)
  next
    case 2
    with Cons step poll_malformed_no_record [of parse i] show ?thesis
      by (auto simp: Let_def add.assoc apfst_def map_prod_def split: prod.splits)
  qed
qed

section \<open>Properties\<close>

text \<open>
  C19: the consumer yields a record for every message with a valid payload, in the order of the polls
  and with the partition and offset of its message; a timeout or an error costs nothing, a malformed
  payload is counted and skipped; the counters count exactly these; and the call of \<^verbatim>\<open>stop()\<close> ends the
  loop at the next pass, before another message is taken.
\<close>

theorem consumer_yields_valid_messages:
  assumes "\<not> con_stop_requested c" "\<forall>i \<in> set is. poll_ok parse i"
  shows "\<exists>c'. consume_loop parse (map Input is @ Stop_call # Input j # ts) c =
      (concat (map (poll_records parse) is), c', Some C_finished) \<and>
    messages_consumed c' = messages_consumed c + of_nat (length (concat (map (poll_records parse) is))) \<and>
    messages_malformed c' = messages_malformed c + of_nat (count_if (poll_malformed parse) is)"
  using consume_polls [OF assms, of "Stop_call # Input j # ts"]
  by (simp add: Let_def consumer_stop_def consumer_step_def)

definition sample_consumer :: "unit KafkaEventConsumer" where
  "sample_consumer = \<lparr>cconfig = KafkaConsumerConfig_default, consumer = (), con_stop_requested = False,
     messages_consumed = 0, messages_malformed = 0\<rparr>"

definition sample_polls :: "(poll_result \<times> i64) list" where
  "sample_polls = [(Poll_timeout, 1), (Polled ''{}'' 0 0, 2), (Poll_error, 3),
     (Polled (show_json (marketEventToJson sample_event)) 2 41, 4)]"

lemma sample_message_kinds:
  "classify_message ref_parse ''{}'' = Malformed"
  "classify_message ref_parse (show_json (marketEventToJson sample_event)) = Captured (captured sample_event)"
  using sample_capture_kinds sample_capture_event by (simp_all add: classify_message_line)

theorem consumer_yields_valid_messages_witness:
  "\<exists>c'. consume_loop ref_parse (map Input sample_polls @ Stop_call # Input (Poll_timeout, 9) # []) sample_consumer =
      ([\<lparr>event = (captured sample_event)\<lparr>ingest_time := 4\<rparr>, partition = 2, offset = 41\<rparr>], c', Some C_finished) \<and>
    messages_consumed c' = 1 \<and> messages_malformed c' = 1"
proof -
  have "\<forall>i \<in> set sample_polls. poll_ok ref_parse i"
    by (simp add: sample_polls_def poll_ok_def sample_message_kinds)
  from consumer_yields_valid_messages [OF _ this, of sample_consumer "(Poll_timeout, 9)" "[]"] show ?thesis
    by (simp add: sample_consumer_def sample_polls_def poll_records_def poll_malformed_def sample_message_kinds)
qed

text \<open>
  Creating a consumer sets the three configuration values in order and creates the client from
  exactly these; the first value the library refuses ends it with the library's reason, and no client
  is created.
\<close>

lemma consumer_creation:
  "(\<exists>c'. KafkaEventConsumer_new K c = Inr c') \<longleftrightarrow>
     con_conf_set K ''bootstrap.servers'' (c_brokers c) = None \<and> con_conf_set K ''group.id'' (group_id c) = None \<and>
     con_conf_set K ''auto.offset.reset'' (auto_offset_reset c) = None \<and>
     (\<exists>k. con_new K [(''bootstrap.servers'', c_brokers c), (''group.id'', group_id c),
        (''auto.offset.reset'', auto_offset_reset c)] = Inr k)"
  by (auto simp: KafkaEventConsumer_new_def setConfOrThrow_def and_then_def split: option.split sum.split)

end
