(* ===== verification/End_To_End.thy ===== *)
theory End_To_End
  imports Kafka_Producer Kafka_Consumer "HOL-Library.Sublist"
begin

text \<open>
  From the pipeline through Kafka to the consumer. The broker is not part of the repository, and little can be
  said of what its log holds: the topic may hold messages of earlier runs and of other programs, a message the
  client has enqueued may never arrive, one whose acknowledgement was lost is sent again and stored twice
  (\<^verbatim>\<open>docs/milestone-2-queue-kafka.md\<close>, sections 6 and 8), and a resend may overtake another message. So the log of a
  partition is any list of entries, each of them a copy of one of the messages that the client enqueued or a
  foreign payload. What is assumed is what the program relies on: a message is stored unchanged in the partition that the
  partitioner chooses for its key (a key that is not empty always gets the same one while the number of partitions stays
  the same), and the messages polled from one partition come in the order of their offsets.
\<close>

section \<open>The broker\<close>

text \<open>The messages polled from one partition, with their offsets.\<close>

definition polled_at :: "int \<Rightarrow> (poll_result \<times> i64) list \<Rightarrow> (string \<times> i64) list" where
  "polled_at n is = concat (map (\<lambda>i. case fst i of
     Polled payload part off \<Rightarrow> if part = n then [(payload, off)] else [] | _ \<Rightarrow> []) is)"

lemma polled_at_simps [simp]:
  "polled_at n [] = []"
  "polled_at n (is @ js) = polled_at n is @ polled_at n js"
  "polled_at n ((Polled payload part off, t) # is) = (if part = n then [(payload, off)] else []) @ polled_at n is"
  "polled_at n ((Poll_timeout, t) # is) = polled_at n is" "polled_at n ((Poll_error, t) # is) = polled_at n is"
  by (simp_all add: polled_at_def)

lemma polled_at_member: "(payload, off) \<in> set (polled_at n is) \<longleftrightarrow> (\<exists>t. (Polled payload n off, t) \<in> set is)"
  by (force simp: polled_at_def split: poll_result.splits if_splits)

text \<open>An entry of the log: a copy of the enqueued message with that index, or a message of somebody else.\<close>

datatype log_entry = Ours nat | Foreign string

fun entry_payload :: "message list \<Rightarrow> log_entry \<Rightarrow> string" where
  "entry_payload msgs (Ours i) = snd (snd (msgs ! i))"
| "entry_payload msgs (Foreign payload) = payload"

definition stored_log :: "(string \<Rightarrow> int) \<Rightarrow> message list \<Rightarrow> (int \<Rightarrow> log_entry list) \<Rightarrow> bool" where
  "stored_log part msgs logs \<longleftrightarrow>
     (\<forall>n i. Ours i \<in> set (logs n) \<longrightarrow> i < length msgs \<and> part (fst (snd (msgs ! i))) = n)"

text \<open>The offsets \<^verbatim>\<open>ks\<close> that a sequence of polls has read, in each partition.\<close>

definition reads_log :: "(int \<Rightarrow> string list) \<Rightarrow> (int \<Rightarrow> nat list) \<Rightarrow> (poll_result \<times> i64) list \<Rightarrow> bool" where
  "reads_log plog ks is \<longleftrightarrow>
     (\<forall>n. sorted_wrt (<) (ks n) \<and> (\<forall>k \<in> set (ks n). k < length (plog n)) \<and>
        polled_at n is = map (\<lambda>k. (plog n ! k, of_nat k)) (ks n))"

text \<open>The indices of the messages of our own in a piece of the log, in the order stored.\<close>

definition own_indices :: "log_entry list \<Rightarrow> nat list" where
  "own_indices xs = concat (map (\<lambda>x. case x of Ours i \<Rightarrow> [i] | Foreign payload \<Rightarrow> []) xs)"

text \<open>Whether the message at an offset is our own, and the same of a record and of a poll.\<close>

definition ours_at :: "(int \<Rightarrow> log_entry list) \<Rightarrow> int \<Rightarrow> i64 \<Rightarrow> bool" where
  "ours_at logs n off = (case logs n ! unat off of Ours i \<Rightarrow> True | Foreign payload \<Rightarrow> False)"

definition is_ours :: "(int \<Rightarrow> log_entry list) \<Rightarrow> ConsumedRecord \<Rightarrow> bool" where
  "is_ours logs r = ours_at logs (partition r) (offset r)"

definition poll_ours :: "(int \<Rightarrow> log_entry list) \<Rightarrow> poll_result \<times> i64 \<Rightarrow> bool" where
  "poll_ours logs i = (case fst i of Polled payload n off \<Rightarrow> ours_at logs n off | _ \<Rightarrow> False)"

section \<open>Decoding\<close>

text \<open>The event of a payload, without the receive time.\<close>

definition decode :: "json_parser \<Rightarrow> string \<Rightarrow> MarketEvent list" where
  "decode parse payload = (case classify_message parse payload of Captured e \<Rightarrow> [e] | _ \<Rightarrow> [])"

abbreviation unstamped :: "MarketEvent \<Rightarrow> MarketEvent" where
  "unstamped e \<equiv> e\<lparr>ingest_time := 0\<rparr>"

lemma captured_unstamped [simp]: "(captured e)\<lparr>ingest_time := 0\<rparr> = captured e"
  by (simp add: captured_def)

lemma captured_event_unstamped:
  assumes "classify_message parse payload = Captured e"
  shows "unstamped e = e"
proof -
  from assms obtain j where "fst (marketEventFromJson j None) = Some e"
    by (auto simp: classify_message_def split: sum.splits json_exn.splits option.splits)
  then have "ingest_time e = 0"
    by (auto simp: marketEventFromJson_def fail_def MarketEvent_default_def Let_def split: option.splits if_splits)
  then show ?thesis by simp
qed

text \<open>The records of a partition are the valid messages polled from it, with their offsets.\<close>

lemma records_of_partition:
  "map (\<lambda>r. (unstamped (event r), offset r)) (filter (\<lambda>r. partition r = n) (concat (map (poll_records parse) is))) =
     concat (map (\<lambda>m. map (\<lambda>e. (e, snd m)) (decode parse (fst m))) (polled_at n is))"
proof (induction "is")
  case (Cons i "is")
  obtain x t where i: "i = (x, t)" by fastforce
  have "map (\<lambda>r. (unstamped (event r), offset r)) (filter (\<lambda>r. partition r = n) (poll_records parse i)) =
     concat (map (\<lambda>m. map (\<lambda>e. (e, snd m)) (decode parse (fst m))) (polled_at n [i]))"
    using captured_event_unstamped
    by (cases x) (auto simp: i poll_records_def decode_def split: line_kind.split)
  with Cons.IH show ?case using polled_at_simps(2) [of n "[i]" "is"] by simp
qed simp

lemma record_polled:
  assumes "r \<in> set (concat (map (poll_records parse) is))"
  obtains payload e t where "(Polled payload (partition r) (offset r), t) \<in> set is" "classify_message parse payload = Captured e"
    "event r = e\<lparr>ingest_time := t\<rparr>"
proof -
  from assms obtain x t where x: "(x, t) \<in> set is" "r \<in> set (poll_records parse (x, t))" by auto
  then obtain payload p off e where "x = Polled payload p off" "classify_message parse payload = Captured e"
    "r = \<lparr>event = e\<lparr>ingest_time := t\<rparr>, partition = p, offset = off\<rparr>"
    by (cases x) (auto simp: poll_records_def dest: sym split: line_kind.splits)
  with x(1) show thesis using that by auto
qed

definition encodes :: "json_parser \<Rightarrow> MarketEvent \<Rightarrow> message \<Rightarrow> bool" where
  "encodes parse e m \<longleftrightarrow> fst (snd m) = symbol e \<and> classify_message parse (snd (snd m)) = Captured (captured e)"

lemma kafka_message_encodes:
  assumes "json_codec parse dump" "writable_event e"
  shows "encodes parse e (kafka_message c dump e)"
proof -
  obtain l where l: "dump (marketEventToJson e) = Inr l" "classify parse l = Captured (captured e)"
    using captured_line [OF assms] by blast
  then show ?thesis using classify_message_line(1) by (simp add: encodes_def kafka_message_def)
qed

lemma list_all2_map_self: "\<forall>x \<in> set xs. R x (f x) \<Longrightarrow> list_all2 R xs (map f xs)"
  by (induction xs) auto

lemma published_encodes:
  assumes "json_codec parse dump" "rd_kafka_client K kinv enqueued reported" "KafkaEventProducer_new K cfg = Inr pb"
    and "runs_from S (kafka_iface K dump) dump as s pb cap rec fs p" "\<forall>h \<in> set (handled p). writable_event (fst h)"
  shows "list_all2 (encodes parse) (map fst (filter snd (handled p))) (enqueued (producer (publisher p)))"
proof -
  let ?es = "map fst (filter snd (handled p))"
  have msgs: "enqueued (producer (publisher p)) = map (kafka_message cfg dump) ?es"
    using rd_kafka_client.kafka_runs [OF assms(2-4)] by (simp add: o_def)
  have "\<forall>e \<in> set ?es. encodes parse e (kafka_message cfg dump e)"
    using kafka_message_encodes [OF assms(1)] assms(5) by auto
  then show ?thesis unfolding msgs by (rule list_all2_map_self)
qed

section \<open>What a consumer reads of the log\<close>

text \<open>A message of our own decodes to the event it was made from, and lies in the partition of its symbol.\<close>

lemma stored_entry:
  assumes "list_all2 (encodes parse) es msgs" "stored_log part msgs logs" "Ours i \<in> set (logs n)"
  shows "i < length es" "part (symbol (es ! i)) = n" "classify_message parse (snd (snd (msgs ! i))) = Captured (captured (es ! i))"
proof -
  from assms(2,3) have i: "i < length msgs" "part (fst (snd (msgs ! i))) = n" by (auto simp: stored_log_def)
  from assms(1) i(1) show "i < length es" by (simp add: list_all2_lengthD)
  from list_all2_nthD2 [OF assms(1) i(1)] i(2)
  show "part (symbol (es ! i)) = n" "classify_message parse (snd (snd (msgs ! i))) = Captured (captured (es ! i))"
    by (auto simp: encodes_def)
qed

lemma entry_at:
  assumes "reads_log (\<lambda>n. map (entry_payload msgs) (logs n)) ks is" "k \<in> set (ks n)"
  shows "k < length (logs n)" "logs n ! k \<in> set (logs n)" "map (entry_payload msgs) (logs n) ! k = entry_payload msgs (logs n ! k)"
  using assms by (auto simp: reads_log_def)

lemma filter_concat: "filter P (concat xss) = concat (map (filter P) xss)"
  by (induction xss) simp_all

lemma unat_offset: "length xs < 2 ^ 63 \<Longrightarrow> k < length xs \<Longrightarrow> unat (of_nat k :: i64) = k"
  by (simp add: unat_of_nat take_bit_nat_eq_self)

lemma records_of_symbol:
  assumes enc: "list_all2 (encodes parse) es msgs" and logs: "stored_log part msgs logs"
    and reads: "reads_log (\<lambda>n. map (entry_payload msgs) (logs n)) ks is" and small: "\<And>n. length (logs n) < 2 ^ 63"
    and rs: "rs = concat (map (poll_records parse) is)"
  shows "map (\<lambda>r. unstamped (event r)) (filter (\<lambda>r. partition r = n \<and> is_ours logs r \<and> symbol (event r) = sm) rs) =
    map (\<lambda>i. captured (es ! i)) (filter (\<lambda>i. symbol (es ! i) = sm) (own_indices (map ((!) (logs n)) (ks n))))"
proof -
  let ?mine = "\<lambda>x :: MarketEvent \<times> i64. ours_at logs n (snd x) \<and> symbol (fst x) = sm"
  let ?own = "\<lambda>k. case logs n ! k of Ours i \<Rightarrow> if symbol (es ! i) = sm then [(captured (es ! i), of_nat k :: i64)] else []
    | Foreign payload \<Rightarrow> []"
  have piece: "filter ?mine (map (\<lambda>e. (e, of_nat k)) (decode parse (map (entry_payload msgs) (logs n) ! k))) = ?own k"
    if "k \<in> set (ks n)" for k
    using entry_at [OF reads that] unat_offset [OF small [of n] entry_at(1) [OF reads that]] stored_entry [OF enc logs, of _ n]
    by (cases "logs n ! k") (auto simp: decode_def ours_at_def split: line_kind.split)
  have own: "map fst (concat (map ?own xs)) =
      map (\<lambda>i. captured (es ! i)) (filter (\<lambda>i. symbol (es ! i) = sm) (own_indices (map ((!) (logs n)) xs)))" for xs
    by (induction xs) (auto simp: own_indices_def split: log_entry.split)
  have "map (\<lambda>r. (unstamped (event r), offset r)) (filter (\<lambda>r. partition r = n \<and> is_ours logs r \<and> symbol (event r) = sm) rs) =
      filter ?mine (map (\<lambda>r. (unstamped (event r), offset r)) (filter (\<lambda>r. partition r = n) rs))"
    by (simp add: filter_map o_def is_ours_def) (metis (mono_tags, lifting))
  also have "\<dots> = concat (map ?own (ks n))"
    using reads piece unfolding rs records_of_partition by (simp add: reads_log_def filter_concat o_def cong: map_cong)
  finally have "map fst (map (\<lambda>r. (unstamped (event r), offset r))
      (filter (\<lambda>r. partition r = n \<and> is_ours logs r \<and> symbol (event r) = sm) rs)) = map fst (concat (map ?own (ks n)))"
    by (rule arg_cong)
  then show ?thesis unfolding own by (simp add: o_def)
qed

lemma polled_entry:
  assumes "reads_log (\<lambda>n. map (entry_payload msgs) (logs n)) ks is" "(Polled payload n off, t) \<in> set is"
    and "\<And>n. length (logs n) < 2 ^ 63"
  shows "\<exists>x \<in> set (logs n). payload = entry_payload msgs x \<and> logs n ! unat off = x"
proof -
  have "(payload, off) \<in> set (polled_at n is)" using assms(2) by (auto simp: polled_at_member)
  with assms(1) obtain k where k: "k \<in> set (ks n)" "payload = map (entry_payload msgs) (logs n) ! k" "off = of_nat k"
    by (auto simp: reads_log_def)
  note at = entry_at [OF assms(1) k(1)]
  with k unat_offset [OF assms(3) [of n] at(1)] show ?thesis by auto
qed

lemma record_in_partition:
  assumes "list_all2 (encodes parse) es msgs" "stored_log part msgs logs"
    and "reads_log (\<lambda>n. map (entry_payload msgs) (logs n)) ks is" "\<And>n. length (logs n) < 2 ^ 63"
    and "r \<in> set (concat (map (poll_records parse) is))" "is_ours logs r"
  shows "partition r = part (symbol (event r))"
proof -
  from assms(5) obtain payload t e where
    p: "(Polled payload (partition r) (offset r), t) \<in> set is" "classify_message parse payload = Captured e"
      "event r = e\<lparr>ingest_time := t\<rparr>" by (rule record_polled)
  from polled_entry [OF assms(3) p(1) assms(4)] obtain x where
    x: "x \<in> set (logs (partition r))" "payload = entry_payload msgs x" "logs (partition r) ! unat (offset r) = x" by blast
  with assms(6) obtain i where "x = Ours i" by (auto simp: is_ours_def ours_at_def split: log_entry.splits)
  with x stored_entry [OF assms(1,2), of i "partition r"] p(2,3) show ?thesis by auto
qed

lemma poll_of_log:
  assumes "list_all2 (encodes parse) es msgs" "stored_log part msgs logs"
    and "reads_log (\<lambda>n. map (entry_payload msgs) (logs n)) ks is" "\<And>n. length (logs n) < 2 ^ 63"
    and "\<forall>n payload x. Foreign payload \<in> set (logs n) \<longrightarrow> classify_message parse payload \<noteq> Overflow x" "i \<in> set is"
  shows "poll_ok parse i" "poll_malformed parse i \<Longrightarrow> \<not> poll_ours logs i"
proof -
  have "poll_ok parse i \<and> (poll_malformed parse i \<longrightarrow> \<not> poll_ours logs i)"
  proof (cases "fst i")
    case (Polled payload n off)
    with assms(6) have "(Polled payload n off, snd i) \<in> set is" by (metis prod.collapse)
    from polled_entry [OF assms(3) this assms(4)] obtain x where
      x: "x \<in> set (logs n)" "payload = entry_payload msgs x" "logs n ! unat off = x" by blast
    with Polled assms(5) stored_entry [OF assms(1,2), of _ n] show ?thesis
      by (cases x) (auto simp: poll_ok_def poll_malformed_def poll_ours_def ours_at_def)
  qed (simp_all add: poll_ok_def poll_malformed_def)
  then show "poll_ok parse i" "poll_malformed parse i \<Longrightarrow> \<not> poll_ours logs i" by auto
qed

section \<open>Order\<close>

lemma increasing_subseq: "sorted_wrt (<) ks \<Longrightarrow> \<forall>k \<in> set ks. k < n \<Longrightarrow> subseq ks [0..<n]" for ks :: "nat list"
proof -
  assume ks: "sorted_wrt (<) ks" "\<forall>k \<in> set ks. k < n"
  have "filter (\<lambda>k. k \<in> set ks) [0..<n] = ks"
    by (rule strict_sorted_equal) (use ks in \<open>auto simp: sorted_wrt_filter\<close>)
  then show ?thesis by (metis subseq_filter_left)
qed

lemma increasing_nth: "sorted_wrt (<) ks \<Longrightarrow> \<forall>k \<in> set ks. k < length xs \<Longrightarrow> subseq (map ((!) xs) ks) xs"
  using subseq_map [OF increasing_subseq, of ks "length xs" "(!) xs"] by (simp add: map_nth)

lemma subseq_own: "subseq xs ys \<Longrightarrow> subseq (own_indices xs) (own_indices ys)"
  by (induction rule: list_emb.induct) (auto simp: own_indices_def split: log_entry.split intro: subseq_append')

lemma subseq_sorted_wrt: "subseq xs ys \<Longrightarrow> sorted_wrt R ys \<Longrightarrow> sorted_wrt R xs"
  by (induction rule: list_emb.induct) (auto dest: list_emb_set)

text \<open>Where the log keeps the order of production, the events read are a subsequence of those produced.\<close>

lemma order_kept:
  assumes "sorted_wrt (<) ks" "\<forall>k \<in> set ks. k < length xs" "sorted_wrt (<) (own_indices xs)"
    and "\<forall>i \<in> set (own_indices xs). i < length es"
  shows "subseq (map (\<lambda>i. f (es ! i)) (filter (\<lambda>i. P (es ! i)) (own_indices (map ((!) xs) ks)))) (map f (filter P es))"
proof -
  let ?own = "own_indices (map ((!) xs) ks)"
  note sub = subseq_own [OF increasing_nth [OF assms(1,2)]]
  from sub assms(4) have "\<forall>i \<in> set ?own. i < length es" by (auto dest: list_emb_set)
  with increasing_subseq [OF subseq_sorted_wrt [OF sub assms(3)]] have "subseq ?own [0..<length es]" by blast
  then have "subseq (map ((!) es) ?own) es" using subseq_map [of ?own "[0..<length es]" "(!) es"] by (simp add: map_nth)
  then have "subseq (map f (filter P (map ((!) es) ?own))) (map f (filter P es))" by (intro subseq_map subseq_filter)
  then show ?thesis by (simp add: filter_map o_def)
qed

lemma own_indices_set: "set (own_indices xs) = {i. Ours i \<in> set xs}"
  by (force simp: own_indices_def split: log_entry.splits)

lemma count_if_cong: "(\<And>x. x \<in> set xs \<Longrightarrow> P x \<longleftrightarrow> Q x) \<Longrightarrow> count_if P xs = count_if Q xs"
  by (simp add: count_if_def cong: filter_cong)

lemma order_per_symbol:
  assumes "list_all2 (encodes parse) es msgs" "stored_log part msgs logs" "\<forall>n. length (logs n) < 2 ^ 63"
    and "reads_log (\<lambda>n. map (entry_payload msgs) (logs n)) ks is"
    and "\<forall>n payload x. Foreign payload \<in> set (logs n) \<longrightarrow> classify_message parse payload \<noteq> Overflow x"
    and "\<not> con_stop_requested c" "consume_loop parse (map Input is) c = (rs, c', end)"
  defines "own sm \<equiv> map (\<lambda>r. unstamped (event r)) (filter (\<lambda>r. is_ours logs r \<and> symbol (event r) = sm) rs)"
  shows "end = None \<and>
    messages_malformed c' = messages_malformed c + of_nat (count_if (\<lambda>i. poll_malformed parse i \<and> \<not> poll_ours logs i) is)"
    and "\<forall>r \<in> set rs. is_ours logs r \<longrightarrow> partition r = part (symbol (event r))"
    and "own sm = map (\<lambda>i. captured (es ! i))
      (filter (\<lambda>i. symbol (es ! i) = sm) (own_indices (map ((!) (logs (part sm))) (ks (part sm)))))"
    and "sorted_wrt (<) (own_indices (logs (part sm))) \<Longrightarrow> subseq (own sm) (map captured (filter (\<lambda>e. symbol e = sm) es))"
proof -
  note small = assms(3) [THEN spec]
  note polls = poll_of_log [OF assms(1,2,4) small assms(5)]
  have bad: "count_if (poll_malformed parse) is = count_if (\<lambda>i. poll_malformed parse i \<and> \<not> poll_ours logs i) is"
    by (rule count_if_cong) (use polls(2) in blast)
  from consume_polls [of c "is" parse "[]"] polls(1) assms(6,7)
  have rs: "rs = concat (map (poll_records parse) is)" "end = None"
    "messages_malformed c' = messages_malformed c + of_nat (count_if (poll_malformed parse) is)"
    by (auto simp: Let_def)
  then show "end = None \<and> messages_malformed c' = messages_malformed c +
      of_nat (count_if (\<lambda>i. poll_malformed parse i \<and> \<not> poll_ours logs i) is)" unfolding bad by simp
  show home: "\<forall>r \<in> set rs. is_ours logs r \<longrightarrow> partition r = part (symbol (event r))"
    using record_in_partition [OF assms(1,2,4) small] unfolding rs(1) by blast
  then have "filter (\<lambda>r. is_ours logs r \<and> symbol (event r) = sm) rs =
      filter (\<lambda>r. partition r = part sm \<and> is_ours logs r \<and> symbol (event r) = sm) rs" by (intro filter_cong) auto
  then show own: "own sm = map (\<lambda>i. captured (es ! i))
      (filter (\<lambda>i. symbol (es ! i) = sm) (own_indices (map ((!) (logs (part sm))) (ks (part sm)))))"
    unfolding own_def using records_of_symbol [OF assms(1,2,4) small rs(1)] by simp
  assume "sorted_wrt (<) (own_indices (logs (part sm)))"
  moreover have "\<forall>i \<in> set (own_indices (logs (part sm))). i < length es"
    using stored_entry(1) [OF assms(1,2)] by (auto simp: own_indices_set)
  ultimately show "subseq (own sm) (map captured (filter (\<lambda>e. symbol e = sm) es))"
    unfolding own using order_kept [of "ks (part sm)" "logs (part sm)" es captured "\<lambda>e. symbol e = sm"] assms(4)
    by (simp add: reads_log_def)
qed

section \<open>Property\<close>

text \<open>
  C8: end to end, per symbol. Take any run of a pipeline that publishes to Kafka, any log that holds copies of
  the messages its client enqueued (some of them, possibly several times and in another order) among foreign
  messages, and any reading of the partitions in the order of their offsets, interleaved in any way. The
  consumer counts as malformed none of our messages, only foreign ones. Every record of a message of ours is in the
  partition of its symbol. For every symbol, the records of our messages are, up to the receive time and the
  precision of the capture format, exactly the accepted events whose copies are stored at the offsets read,
  one record per copy, in the order of the log; and where the log holds them in the order of production, each at
  most once, they are a subsequence of the events the producer accepted.
\<close>

theorem kafka_order_per_symbol:
  assumes "json_codec parse dump" "rd_kafka_client K kinv enqueued reported" "KafkaEventProducer_new K cfg = Inr pb"
    and "runs_from S (kafka_iface K dump) dump as s pb cap rec fs p" "\<forall>h \<in> set (handled p). writable_event (fst h)"
    and "es = map fst (filter snd (handled p))" "msgs = enqueued (producer (publisher p))"
    and "stored_log part msgs logs" "\<forall>n. length (logs n) < 2 ^ 63"
    and "reads_log (\<lambda>n. map (entry_payload msgs) (logs n)) ks is"
    and "\<forall>n payload x. Foreign payload \<in> set (logs n) \<longrightarrow> classify_message parse payload \<noteq> Overflow x"
    and "\<not> con_stop_requested c" "consume_loop parse (map Input is) c = (rs, c', end)"
    and "own = map (\<lambda>r. unstamped (event r)) (filter (\<lambda>r. is_ours logs r \<and> symbol (event r) = sm) rs)"
  shows "end = None \<and>
    messages_malformed c' = messages_malformed c + of_nat (count_if (\<lambda>i. poll_malformed parse i \<and> \<not> poll_ours logs i) is) \<and>
    (\<forall>r \<in> set rs. is_ours logs r \<longrightarrow> partition r = part (symbol (event r))) \<and>
    own = map (\<lambda>i. captured (es ! i))
      (filter (\<lambda>i. symbol (es ! i) = sm) (own_indices (map ((!) (logs (part sm))) (ks (part sm))))) \<and>
    (sorted_wrt (<) (own_indices (logs (part sm))) \<longrightarrow> subseq own (map captured (filter (\<lambda>e. symbol e = sm) es)))"
proof -
  note enc = published_encodes [OF assms(1-5), folded assms(6,7)]
  from order_per_symbol(1,2) [OF enc assms(8-13)] order_per_symbol(3,4) [OF enc assms(8-13), of sm]
  show ?thesis unfolding assms(14) by blast
qed

text \<open>A pipeline that has published one event to the client in memory, and a consumer that has read it.\<close>

definition e2e_event :: MarketEvent where
  "e2e_event = MarketEvent_default\<lparr>symbol := ''TESTUSDT'', price := 0x3FF0000000000000\<rparr>"

definition e2e_schedule :: "(unit, unit) action list" where
  "e2e_schedule = [Start, Owner, Owner, Ingest (), Ingest (), Ingest (), Ingest (), Publish (), Publish ()]"

lemma e2e_run:
  assumes "dump (marketEventToJson e2e_event) = Inr l"
  shows "\<exists>p. runs_from infinite_iface (kafka_iface (memory_kafka 1) dump) dump e2e_schedule
      FakeInfiniteSource_new sample_producer 4 None Map.empty p \<and>
    handled p = [(e2e_event, True)] \<and> mem_log (producer (publisher p)) = [(''market-events'', ''TESTUSDT'', l)]"
  using assms unfolding do_actions_pruns [symmetric]
  by (simp add: e2e_schedule_def do_actions_def do_action_def pipeline_defs IngestionPipeline_new_def
      infinite_iface_def infinite_start_def infinite_next_def FakeInfiniteSource_new_def queue_defs
      kafka_iface_def kafka_publish_def memory_kafka_def mem_report_def mem_pending_def serve_def deliveryReport_def Let_def
      sample_producer_def sample_config_def e2e_event_def)

lemma e2e_writable: "writable_event e2e_event"
  by code_simp

text \<open>
  The log of partition 0: a message of somebody else that is not JSON, our message, and our message again. The
  consumer reads all three.
\<close>

definition e2e_log :: "int \<Rightarrow> log_entry list" where
  "e2e_log n = (if n = 0 then [Foreign ''bad{'', Ours 0, Ours 0] else [])"

definition e2e_polls :: "string \<Rightarrow> (poll_result \<times> i64) list" where
  "e2e_polls l = [(Poll_timeout, 1), (Polled ''bad{'' 0 0, 2), (Polled l 0 1, 3), (Polled l 0 2, 4)]"

lemma e2e_reads:
  "reads_log (\<lambda>n. map (entry_payload [(t, k, l)]) (e2e_log n)) (\<lambda>n. if n = 0 then [0, 1, 2] else []) (e2e_polls l)"
  by (simp add: reads_log_def e2e_log_def e2e_polls_def)

lemma e2e_stored: "stored_log (\<lambda>_. 0) [m] e2e_log"
  by (auto simp: stored_log_def e2e_log_def split: if_splits)

lemma e2e_indices: "own_indices [e2e_log 0 ! 0, e2e_log 0 ! Suc 0, e2e_log 0 ! 2] = [0, 0]"
  by (simp add: e2e_log_def own_indices_def)

lemma e2e_foreign: "Foreign payload \<in> set (e2e_log n) \<Longrightarrow> classify_message ref_parse payload = Malformed"
  using sample_capture_kinds(2) by (auto simp: e2e_log_def classify_message_line split: if_splits)

theorem kafka_order_per_symbol_witness:
  "\<exists>p l rs c'. runs_from infinite_iface (kafka_iface (memory_kafka 1) ref_dump) ref_dump e2e_schedule
      FakeInfiniteSource_new sample_producer 4 None Map.empty p \<and>
    consume_loop ref_parse (map Input (e2e_polls l)) sample_consumer = (rs, c', None) \<and>
    map (\<lambda>r. unstamped (event r)) (filter (\<lambda>r. is_ours e2e_log r \<and> symbol (event r) = ''TESTUSDT'') rs) =
      [captured e2e_event, captured e2e_event]"
proof -
  obtain l where l: "ref_dump (marketEventToJson e2e_event) = Inr l"
    using captured_line [OF ref_json.json_codec_axioms e2e_writable] by blast
  from e2e_run [of ref_dump, OF l] obtain p where run: "runs_from infinite_iface (kafka_iface (memory_kafka 1) ref_dump) ref_dump
      e2e_schedule FakeInfiniteSource_new sample_producer 4 None Map.empty p"
    and p: "handled p = [(e2e_event, True)]" "mem_log (producer (publisher p)) = [(''market-events'', ''TESTUSDT'', l)]"
    by blast
  have ok: "\<forall>h \<in> set (handled p). writable_event (fst h)" using p(1) e2e_writable by simp
  have small: "\<forall>n. length (e2e_log n) < 2 ^ 63" by (simp add: e2e_log_def)
  obtain rs c' "end" where loop: "consume_loop ref_parse (map Input (e2e_polls l)) sample_consumer = (rs, c', end)"
    by (metis prod_cases3)
  have "\<not> con_stop_requested sample_consumer" by (simp add: sample_consumer_def)
  from kafka_order_per_symbol [OF ref_json.json_codec_axioms memory.rd_kafka_client_axioms sample_producer_new run ok
      refl p(2) [symmetric] e2e_stored small e2e_reads _ this loop refl, of "''TESTUSDT''"] e2e_foreign
  have "end = None" "map (\<lambda>r. unstamped (event r)) (filter (\<lambda>r. is_ours e2e_log r \<and> symbol (event r) = ''TESTUSDT'') rs) =
      [captured e2e_event, captured e2e_event]"
    by (simp_all add: p(1) e2e_indices) (simp_all add: e2e_event_def)
  with run loop show ?thesis by (intro exI [of _ p] exI [of _ l] exI [of _ rs] exI [of _ c']) simp
qed

end
