(* ===== verification/Binance_Parser.thy ===== *)
theory Binance_Parser
  imports Market_Event
begin

text \<open>
  \<^verbatim>\<open>parseBinanceTradeMessage\<close> of \<^verbatim>\<open>src/binance_trade_parser.cpp\<close>: the validation of one message of the
  provider and its translation into an event. The JSON parser is the parameter \<^verbatim>\<open>parse\<close>. The code
  catches \<^verbatim>\<open>parse_error\<close> only; any other exception of the JSON parser leaves the function (\<^const>\<open>Inl\<close>).
\<close>

section \<open>The parser\<close>

text \<open>Everything after the JSON text has been parsed.\<close>

definition parse_envelope :: "json \<Rightarrow> string option \<Rightarrow> MarketEvent option \<times> string option" where
  "parse_envelope envelope error_out =
     (case member ''data'' envelope of
        None \<Rightarrow> fail error_out ''missing or malformed \"data\" object''
      | Some data \<Rightarrow>
      if \<not> is_object data then fail error_out ''missing or malformed \"data\" object''
      else if member ''e'' data \<noteq> Some (JString ''trade'')
      then fail error_out ''not a trade event (\"e\" != \"trade\")''
      else case Option.bind (member ''s'' data) get_string of
        None \<Rightarrow> fail error_out ''missing or empty symbol (\"s\")''
      | Some sm \<Rightarrow>
      if sm = [] then fail error_out ''missing or empty symbol (\"s\")''
      else case Option.bind (member ''p'' data) get_string of
        None \<Rightarrow> fail error_out ''missing or non-string price (\"p\")''
      | Some price_str \<Rightarrow>
      case Option.bind (member ''T'' data) get_integer of
        None \<Rightarrow> fail error_out ''missing or non-integer trade time (\"T\")''
      | Some t \<Rightarrow>
      case from_chars price_str of
        Converted p rest \<Rightarrow>
          if d_le_zero p
          then fail error_out (''price (\"p\") must be positive, got \"'' @ price_str @ ''\"'')
          else let e = MarketEvent_default\<lparr>symbol := sm, price := p, event_time := ms_to_time t\<rparr>;
                   e = (case Option.bind (member ''t'' data) get_integer of
                          Some n \<Rightarrow> e\<lparr>provider_sequence := Some n\<rparr>
                        | None \<Rightarrow> e)
               in (Some e, error_out)
      | _ \<Rightarrow> fail error_out (''price (\"p\") is not a valid decimal number: \"'' @ price_str @ ''\"''))"

definition parseBinanceTradeMessage ::
    "json_parser \<Rightarrow> string \<Rightarrow> string option \<Rightarrow> json_exn + (MarketEvent option \<times> string option)" where
  "parseBinanceTradeMessage parse raw_json error_out =
     (case parse raw_json of
        Inl (Parse_error what) \<Rightarrow> Inr (fail error_out (''invalid JSON: '' @ what))
      | Inl other \<Rightarrow> Inl other
      | Inr envelope \<Rightarrow> Inr (parse_envelope envelope error_out))"

section \<open>Which messages are accepted\<close>

text \<open>A message that carries the fields the parser requires.\<close>

definition trade_fields :: "json \<Rightarrow> string \<Rightarrow> string \<Rightarrow> i64 \<Rightarrow> bool" where
  "trade_fields data sm price_str t \<longleftrightarrow> is_object data \<and> member ''e'' data = Some (JString ''trade'') \<and>
     member ''s'' data = Some (JString sm) \<and> sm \<noteq> [] \<and> member ''p'' data = Some (JString price_str) \<and>
     (\<exists>v. member ''T'' data = Some v \<and> get_integer v = Some t)"

lemma parse_envelope_Some:
  "parse_envelope envelope error_out = (Some e, err) \<longleftrightarrow>
     err = error_out \<and>
     (\<exists>data price_str t p rest. member ''data'' envelope = Some data \<and>
        trade_fields data (symbol e) price_str t \<and>
        from_chars price_str = Converted p rest \<and> \<not> d_le_zero p \<and>
        e = \<lparr>symbol = symbol e, price = p, event_time = ms_to_time t,
             provider_sequence = Option.bind (member ''t'' data) get_integer,
             ingest_time = 0, source = []\<rparr>)"
  by (auto simp: parse_envelope_def trade_fields_def fail_def MarketEvent_default_def Let_def
      bind_eq_Some_conv
      split: option.splits if_splits from_chars_result.splits)

lemma parseBinance_Some:
  "parseBinanceTradeMessage parse raw error_out = Inr (Some e, err) \<longleftrightarrow>
     (\<exists>envelope. parse raw = Inr envelope \<and> parse_envelope envelope error_out = (Some e, err))"
  by (auto simp: parseBinanceTradeMessage_def fail_def split: sum.splits json_exn.splits)

lemma parseBinance_accept:
  assumes "parse raw = Inr envelope" "member ''data'' envelope = Some data"
    and "trade_fields data sm price_str t" "from_chars price_str = Converted p rest" "\<not> d_le_zero p"
  shows "parseBinanceTradeMessage parse raw error_out = Inr (Some \<lparr>symbol = sm, price = p,
    event_time = ms_to_time t, provider_sequence = Option.bind (member ''t'' data) get_integer,
    ingest_time = 0, source = []\<rparr>, error_out)"
  unfolding parseBinance_Some parse_envelope_Some using assms by auto

lemma parseBinance_valid:
  assumes "parseBinanceTradeMessage parse raw error_out = Inr (Some e, err)"
  shows "symbol e \<noteq> []" "\<not> d_le_zero (price e)"
proof -
  from assms obtain envelope data price_str t p rest where
    "trade_fields data (symbol e) price_str t" "\<not> d_le_zero p" and
    e: "e = \<lparr>symbol = symbol e, price = p, event_time = ms_to_time t,
             provider_sequence = Option.bind (member ''t'' data) get_integer, ingest_time = 0, source = []\<rparr>"
    unfolding parseBinance_Some parse_envelope_Some by blast
  moreover have "price e = p" by (subst e) simp
  ultimately show "symbol e \<noteq> []" "\<not> d_le_zero (price e)" by (simp_all add: trade_fields_def)
qed

section \<open>Properties\<close>

text \<open>
  C16: the parser accepts exactly the messages that are valid trade events, and the event it
  returns holds the values of the message: the text is JSON with a \<^verbatim>\<open>data\<close> object that is a trade, has
  a non-empty symbol, a price text that converts to a number that is not zero or negative, and an
  integer trade time. Receive time and source stay at their defaults and the error string is not
  touched.
\<close>

theorem binance_accepts_iff:
  "parseBinanceTradeMessage parse raw error_out = Inr (Some e, err) \<longleftrightarrow>
     err = error_out \<and>
     (\<exists>envelope data price_str t p rest. parse raw = Inr envelope \<and>
        member ''data'' envelope = Some data \<and> trade_fields data (symbol e) price_str t \<and>
        from_chars price_str = Converted p rest \<and> \<not> d_le_zero p \<and>
        e = \<lparr>symbol = symbol e, price = p, event_time = ms_to_time t,
             provider_sequence = Option.bind (member ''t'' data) get_integer,
             ingest_time = 0, source = []\<rparr>)"
  unfolding parseBinance_Some parse_envelope_Some by blast

text \<open>
  Every rejection comes with a reason. When the caller passes an error string and the parser
  returns no event, the string has been overwritten with a non-empty reason.
\<close>

lemma binance_rejection_has_reason:
  assumes "parseBinanceTradeMessage parse raw (Some old) = Inr (None, err)"
  shows "\<exists>msg. err = Some msg \<and> msg \<noteq> []"
  using assms
  by (auto simp: parseBinanceTradeMessage_def parse_envelope_def fail_def Let_def
      split: sum.splits json_exn.splits option.splits if_splits from_chars_result.splits)

lemma binance_rejection_has_reason_witness:
  "\<exists>msg. snd (fail (Some []) ''missing or malformed \"data\" object'') = Some msg \<and> msg \<noteq> []"
proof -
  have "parseBinanceTradeMessage (\<lambda>_. Inr JNull) ''null'' (Some []) =
      Inr (fail (Some []) ''missing or malformed \"data\" object'')"
    by (simp add: parseBinanceTradeMessage_def parse_envelope_def member_def)
  then have "parseBinanceTradeMessage (\<lambda>_. Inr JNull) ''null'' (Some []) =
      Inr (None, snd (fail (Some []) ''missing or malformed \"data\" object''))"
    by (simp add: fail_def)
  from binance_rejection_has_reason [OF this] show ?thesis .
qed

text \<open>
  C40: a price text that begins with \<^verbatim>\<open>nan\<close> passes the validation: the conversion yields a NaN, which
  is not less than or equal to zero, so the message is accepted with a price that is not a number.
\<close>

theorem binance_accepts_nan_price:
  assumes "parse raw = Inr envelope" "member ''data'' envelope = Some data"
    and "trade_fields data sm price_str t" "starts_ci ''nan'' price_str"
  shows "\<exists>e. parseBinanceTradeMessage parse raw error_out = Inr (Some e, error_out) \<and> d_nan (price e)"
proof -
  obtain p rest where p: "from_chars price_str = Converted p rest" "d_nan p"
    using from_chars_nan [OF assms(4)] by blast
  from parseBinance_accept [where parse = parse and raw = raw, OF assms(1-3) p(1) nan_not_le_zero [OF p(2)]] p(2) show ?thesis by simp
qed

text \<open>The message of the parser's own test suite, as the value its text denotes, with a price text.\<close>

definition sample_trade :: "string \<Rightarrow> json" where
  "sample_trade price_str =
     JObject [(''data'', JObject [(''E'', JUInt 1735500000123), (''M'', JBool True), (''T'', JUInt 1735500000119),
        (''e'', JString ''trade''), (''m'', JBool True), (''p'', JString price_str), (''q'', JString ''0.00150000''),
        (''s'', JString ''BTCUSDT''), (''t'', JUInt 98765432)]),
      (''stream'', JString ''btcusdt@trade'')]"

lemma sample_trade_fields:
  "\<exists>data. member ''data'' (sample_trade p) = Some data \<and> trade_fields data ''BTCUSDT'' p 1735500000119"
  by (simp add: sample_trade_def member_def trade_fields_def is_object_def get_integer_def)

theorem binance_accepts_nan_price_witness:
  "\<exists>e. parseBinanceTradeMessage (\<lambda>_. Inr (sample_trade ''NaN'')) [] None = Inr (Some e, None) \<and> d_nan (price e)"
proof -
  obtain data where "member ''data'' (sample_trade ''NaN'') = Some data"
    "trade_fields data ''BTCUSDT'' ''NaN'' 1735500000119"
    using sample_trade_fields by blast
  moreover have "starts_ci ''nan'' ''NaN''" by code_simp
  ultimately show ?thesis by (intro binance_accepts_nan_price) auto
qed

text \<open>
  The parser does not look at what follows the number. Digits followed by a character that
  cannot continue a number, and then by any text, are accepted or rejected exactly as the digits
  alone, with the same price.
\<close>

lemma binance_ignores_text_after_price:
  assumes "parse raw = Inr envelope" "member ''data'' envelope = Some data"
    and "trade_fields data sm (ds @ c # junk) t"
    and "list_all is_digit ds" "ds \<noteq> []" "number_ends c" "from_chars ds = Converted p rest" "\<not> d_le_zero p"
  shows "\<exists>e. parseBinanceTradeMessage parse raw error_out = Inr (Some e, error_out) \<and> price e = p"
proof -
  have "from_chars (ds @ c # junk) = Converted p (c # junk)"
    using from_chars_trailing [OF assms(4-6)] assms(7) by simp
  from parseBinance_accept [where parse = parse and raw = raw, OF assms(1-3) this assms(8)] show ?thesis by simp
qed

lemma binance_ignores_text_after_price_witness:
  "\<exists>e. parseBinanceTradeMessage (\<lambda>_. Inr (sample_trade ''15 dollars'')) [] None = Inr (Some e, None) \<and>
     price e = int_to_double 15"
proof -
  obtain data where data: "member ''data'' (sample_trade ''15 dollars'') = Some data"
    "trade_fields data ''BTCUSDT'' (''15'' @ CHR '' '' # ''dollars'') 1735500000119"
    using sample_trade_fields by fastforce
  have lexed: "list_all is_digit ''15''" "number_ends CHR '' ''" by code_simp+
  have conv: "from_chars ''15'' = Converted (int_to_double 15) []" "\<not> d_le_zero (int_to_double 15)"
    by code_simp+
  show ?thesis
    by (rule binance_ignores_text_after_price [OF _ data lexed(1) _ lexed(2) conv]) simp_all
qed

end
