(* ===== verification/Live_Source.thy ===== *)
theory Live_Source
  imports Binance_Parser Interfaces
begin

text \<open>
  \<^verbatim>\<open>LiveSource\<close> (\<^verbatim>\<open>include/tickforge/live_source.hpp\<close>, \<^verbatim>\<open>src/live_source.cpp\<close>): the WebSocket source with
  its reconnect loop. The network libraries are not part of the repository; what they return is the
  input of a step: the outcome of an attempt to connect, the outcome of a read, and the clock. The
  thread that calls \<^verbatim>\<open>next()\<close> is at one of the points between which \<^verbatim>\<open>stop()\<close>, called by another thread,
  can be observed; the sections under \<^verbatim>\<open>ws_mutex_\<close> are single steps.
\<close>

section \<open>State\<close>

record LiveSourceConfig =
  host :: string
  port :: string
  symbols :: "string list"
  initial_backoff :: int \<comment> \<open>milliseconds\<close>
  max_backoff :: int

definition LiveSourceConfig_default :: LiveSourceConfig where
  "LiveSourceConfig_default = \<lparr>host = ''stream.binance.com'', port = ''9443'',
     symbols = [''btcusdt'', ''ethusdt''], initial_backoff = 1000, max_backoff = 30000\<rparr>"

text \<open>The optional stream \<^verbatim>\<open>ws_\<close>, with its socket open or closed.\<close>

datatype ws_stream = No_stream | Open_stream | Closed_stream

text \<open>
  Where the thread is inside \<^verbatim>\<open>next()\<close>. The number is the local variable \<^verbatim>\<open>backoff\<close> of
  \<^verbatim>\<open>ensureConnected\<close>.
\<close>

datatype live_point =
    L_top                     \<comment> \<open>outside, or at the head of the loop of \<^verbatim>\<open>next()\<close>\<close>
  | L_retry int               \<comment> \<open>at the head of the loop of \<^verbatim>\<open>ensureConnected\<close>\<close>
  | L_connecting int          \<comment> \<open>inside \<^verbatim>\<open>connectOnce\<close>, before the lock\<close>
  | L_failed int              \<comment> \<open>\<^verbatim>\<open>connectOnce\<close> has returned false\<close>
  | L_sleep int
  | L_stream                  \<comment> \<open>before taking the lock to look at \<^verbatim>\<open>ws_\<close>\<close>
  | L_read                    \<comment> \<open>blocked in \<^verbatim>\<open>read\<close>\<close>

record LiveSource =
  config :: LiveSourceConfig
  live_stop_requested :: bool
  connected :: bool
  messages_received :: u64
  live_malformed :: u64 \<comment> \<open>\<^verbatim>\<open>messages_malformed_\<close>\<close>
  reconnects :: u64
  had_connected_once :: bool
  ws :: ws_stream
  point :: live_point
  slept :: "int list" \<comment> \<open>history: the durations of \<^verbatim>\<open>sleep_for\<close>, in milliseconds\<close>

definition LiveSource_new :: "LiveSourceConfig \<Rightarrow> LiveSource" where
  "LiveSource_new c = \<lparr>config = c, live_stop_requested = False, connected = False, messages_received = 0,
     live_malformed = 0, reconnects = 0, had_connected_once = False, ws = No_stream, point = L_top,
     slept = []\<rparr>"

section \<open>Operations\<close>

definition LiveSource_start :: "LiveSource \<Rightarrow> LiveSource \<times> cpp_exn option" where
  "LiveSource_start s = (s\<lparr>live_stop_requested := False\<rparr>, None)"

fun join_with :: "string \<Rightarrow> string list \<Rightarrow> string" where
  "join_with sep [] = []"
| "join_with sep [x] = x"
| "join_with sep (x # y # ys) = x @ sep @ join_with sep (y # ys)"

text \<open>The loop over the index \<^verbatim>\<open>i\<close>, with the target built so far.\<close>

fun buildTarget_loop :: "nat \<Rightarrow> string list \<Rightarrow> string \<Rightarrow> string" where
  "buildTarget_loop i [] target = target"
| "buildTarget_loop i (x # xs) target =
     (let target = (if 0 < i then target @ ''/'' else target)
      in buildTarget_loop (Suc i) xs (target @ map to_lower x @ ''@trade''))"

definition buildTarget :: "LiveSourceConfig \<Rightarrow> string" where
  "buildTarget c = buildTarget_loop 0 (symbols c) ''/stream?streams=''"

text \<open>
  What the network does. \<^verbatim>\<open>connect_error\<close> is the failure of an attempt to connect, if any: setting
  the SNI host name failed, or resolving, connecting or one of the handshakes threw. \<^verbatim>\<open>received\<close> is
  the message a read returns, or nothing when it returns with an error code; a read that has not
  returned yet takes no step.
\<close>

datatype connect_error = Sni_failure | Network_exception string

record live_input =
  connect_error :: "connect_error option"
  received :: "string option"
  clock :: i64

text \<open>The part of \<^verbatim>\<open>connectOnce\<close> after the attempt: its result and the source afterwards.\<close>

definition connectOnce :: "live_input \<Rightarrow> LiveSource \<Rightarrow> bool \<times> LiveSource" where
  "connectOnce i s =
     (case connect_error i of
        Some Sni_failure \<Rightarrow> (False, s)
      | Some (Network_exception what) \<Rightarrow> (False, s\<lparr>connected := False\<rparr>)
      | None \<Rightarrow>
          if live_stop_requested s then (False, s)
          else (True, s\<lparr>ws := Open_stream, connected := True\<rparr>))"

definition next_backoff :: "LiveSource \<Rightarrow> int \<Rightarrow> int" where
  "next_backoff s b = min (b * 2) (max_backoff (config s))"

text \<open>\<^verbatim>\<open>ensureConnected\<close> from its entry to its first suspension or its return.\<close>

definition ensureConnected_enter :: "LiveSource \<Rightarrow> LiveSource" where
  "ensureConnected_enter s =
     (if connected s then s\<lparr>point := L_stream\<rparr> else s\<lparr>point := L_retry (initial_backoff (config s))\<rparr>)"

text \<open>What \<^verbatim>\<open>next()\<close> does with what \<^verbatim>\<open>read\<close> returned.\<close>

definition after_read :: "json_parser \<Rightarrow> live_input \<Rightarrow> LiveSource \<Rightarrow> LiveSource \<times> next_result" where
  "after_read parse i s =
     (let s = s\<lparr>point := L_top\<rparr>
      in case received i of
        None \<Rightarrow>
          let s = s\<lparr>connected := False\<rparr>
          in (s, if live_stop_requested s then Finished else Again)
      | Some raw \<Rightarrow>
          let s = s\<lparr>messages_received := messages_received s + 1\<rparr>
          in case parseBinanceTradeMessage parse raw (Some []) of
               Inl e \<Rightarrow> (s, Raised (Json_exn e))
             | Inr (None, parse_error) \<Rightarrow> (s\<lparr>live_malformed := live_malformed s + 1\<rparr>, Again)
             | Inr (Some event, parse_error) \<Rightarrow>
                 (s, Event (event\<lparr>ingest_time := clock i, source := ''live:binance''\<rparr>)))"

definition LiveSource_step :: "json_parser \<Rightarrow> live_input \<Rightarrow> LiveSource \<Rightarrow> LiveSource \<times> next_result" where
  "LiveSource_step parse i s =
     (case point s of
        L_top \<Rightarrow> if live_stop_requested s then (s, Finished) else (ensureConnected_enter s, Again)
      | L_retry b \<Rightarrow>
          if live_stop_requested s then (s\<lparr>point := L_top\<rparr>, Finished)
          else (s\<lparr>point := L_connecting b\<rparr>, Again)
      | L_connecting b \<Rightarrow>
          (case connectOnce i s of
             (True, s) \<Rightarrow>
               (s\<lparr>reconnects := (if had_connected_once s then reconnects s + 1 else reconnects s),
                  had_connected_once := True, point := L_stream\<rparr>, Again)
           | (False, s) \<Rightarrow> (s\<lparr>point := L_failed b\<rparr>, Again))
      | L_failed b \<Rightarrow>
          if live_stop_requested s then (s\<lparr>point := L_top\<rparr>, Finished) else (s\<lparr>point := L_sleep b\<rparr>, Again)
      | L_sleep b \<Rightarrow> (s\<lparr>slept := slept s @ [b], point := L_retry (next_backoff s b)\<rparr>, Again)
      | L_stream \<Rightarrow>
          if ws s = No_stream then (s\<lparr>connected := False, point := L_top\<rparr>, Again)
          else (s\<lparr>point := L_read\<rparr>, Again)
      | L_read \<Rightarrow> after_read parse i s)"

text \<open>\<^verbatim>\<open>stop()\<close>: the flag, then, under the lock, the socket.\<close>

definition stop_flag :: "LiveSource \<Rightarrow> LiveSource" where
  "stop_flag s = s\<lparr>live_stop_requested := True\<rparr>"

definition stop_close :: "LiveSource \<Rightarrow> LiveSource" where
  "stop_close s = (if ws s = No_stream then s else s\<lparr>ws := Closed_stream\<rparr>)"

definition LiveSource_stop :: "LiveSource \<Rightarrow> LiveSource" where
  "LiveSource_stop s = stop_close (stop_flag s)"

definition LiveSource_destroy :: "LiveSource \<Rightarrow> LiveSource" where
  "LiveSource_destroy s = LiveSource_stop s"

definition live_iface :: "json_parser \<Rightarrow> (live_input, LiveSource) source_iface" where
  "live_iface parse =
     \<lparr>src_start = LiveSource_start, src_stop = LiveSource_stop, src_step = LiveSource_step parse\<rparr>"

definition LiveSource_next ::
    "json_parser \<Rightarrow> live_input tick list \<Rightarrow> LiveSource \<Rightarrow> (LiveSource \<times> next_result \<times> live_input tick list) option" where
  "LiveSource_next parse = next_loop (live_iface parse)"

lemmas live_defs = LiveSource_step_def after_read_def connectOnce_def ensureConnected_enter_def
  LiveSource_stop_def stop_flag_def stop_close_def LiveSource_start_def

section \<open>The contract of a source\<close>

text \<open>How many passes are left once \<^verbatim>\<open>stop()\<close> has been called.\<close>

definition live_rank :: "LiveSource \<Rightarrow> nat" where
  "live_rank s = (case point s of L_stream \<Rightarrow> 2 | L_connecting b \<Rightarrow> 2 | L_read \<Rightarrow> 1 | L_sleep b \<Rightarrow> 1 | _ \<Rightarrow> 0)"

lemma live_finished: "LiveSource_step parse i s = (s', Finished) \<Longrightarrow> live_stop_requested s \<and> live_stop_requested s' \<and> point s' = L_top"
  by (auto simp: live_defs Let_def split: live_point.splits if_splits prod.splits option.splits
      connect_error.splits sum.splits)

interpretation live: market_data_source "live_iface parse" "\<lambda>_. True" live_stop_requested live_rank
proof
  fix s s' i j r
  show "live_stop_requested (src_stop (live_iface parse) s)" by (simp add: live_iface_def live_defs)
  show "live_rank (src_stop (live_iface parse) s) \<le> live_rank s"
    by (simp add: live_iface_def live_defs live_rank_def split: live_point.split)
  show "snd (src_step (live_iface parse) j s') = Finished" if "src_step (live_iface parse) i s = (s', Finished)"
    using live_finished [of parse i s s'] that by (auto simp: live_iface_def LiveSource_step_def)
  assume step: "src_step (live_iface parse) i s = (s', r)"
  show "live_stop_requested s'" if "live_stop_requested s"
    using step that by (auto simp: live_iface_def live_defs Let_def split: live_point.splits if_splits prod.splits
        option.splits connect_error.splits sum.splits)
  show "r = Finished \<or> (\<exists>e. r = Raised e) \<or> live_rank s' < live_rank s" if "live_stop_requested s"
    using step that by (auto simp: live_iface_def live_defs live_rank_def Let_def split: live_point.splits if_splits
        prod.splits option.splits connect_error.splits sum.splits)
qed (simp_all)

section \<open>Reconnecting\<close>

lemma next_backoff_iterate:
  assumes "0 \<le> b" "b \<le> max_backoff (config s)"
  shows "next_backoff s (min (b * 2 ^ k) (max_backoff (config s))) = min (b * 2 ^ Suc k) (max_backoff (config s))"
  using assms by (auto simp: next_backoff_def min_def)

text \<open>The milliseconds are 64-bit numbers in the code; below a maximum of 2 to the 62 the doubling does not overflow.\<close>

lemma next_backoff_fits:
  assumes "0 \<le> b" "b \<le> max_backoff (config s)" "max_backoff (config s) < 2 ^ 62"
  shows "sint (word_of_int b * 2 :: i64) = b * 2" "0 \<le> next_backoff s b \<and> next_backoff s b \<le> max_backoff (config s)"
proof -
  have "(word_of_int b * 2 :: i64) = word_of_int (b * 2)" by simp
  moreover have "sint (word_of_int (b * 2) :: i64) = b * 2"
    unfolding int_word_sint using assms by simp
  ultimately show "sint (word_of_int b * 2 :: i64) = b * 2" by simp
  show "0 \<le> next_backoff s b \<and> next_backoff s b \<le> max_backoff (config s)" using assms by (simp add: next_backoff_def)
qed

lemma failed_attempt:
  assumes "\<not> live_stop_requested s" "point s = L_retry b" "connect_error i \<noteq> None"
  shows "\<exists>s'. next_loop (live_iface parse) (Input i1 # Input i # Input i2 # Input i3 # ts) s = next_loop (live_iface parse) ts s' \<and>
    \<not> live_stop_requested s' \<and> config s' = config s \<and> slept s' = slept s @ [b] \<and> point s' = L_retry (next_backoff s b)"
proof -
  from assms(3) obtain e where "connect_error i = Some e" by blast
  with assms(1,2) show ?thesis
    by (cases e) (auto simp: live_iface_def live_defs next_backoff_def)
qed

lemma backoff_loop:
  assumes "\<not> live_stop_requested s" "point s = L_retry b" "length is = 4 * k" "\<forall>i \<in> set is. connect_error i \<noteq> None"
  shows "\<exists>s'. next_loop (live_iface parse) (map Input is @ ts) s = next_loop (live_iface parse) ts s' \<and>
    \<not> live_stop_requested s' \<and> config s' = config s \<and>
    slept s' = slept s @ map (\<lambda>j. (next_backoff s ^^ j) b) [0..<k] \<and> point s' = L_retry ((next_backoff s ^^ k) b)"
  using assms
proof (induction k arbitrary: s b "is")
  case 0
  then show ?case by auto
next
  case (Suc k)
  then have "length is = Suc (Suc (Suc (Suc (4 * k))))" by simp
  then obtain i1 i2 i3 i4 is' where "is": "is = i1 # i2 # i3 # i4 # is'" "length is' = 4 * k"
    by (simp only: length_Suc_conv) blast
  from failed_attempt [of s b i2 parse i1 i3 i4 "map Input is' @ ts"] Suc.prems "is"
  obtain s1 where s1: "next_loop (live_iface parse) (map Input is @ ts) s = next_loop (live_iface parse) (map Input is' @ ts) s1"
    "\<not> live_stop_requested s1" "config s1 = config s" "slept s1 = slept s @ [b]" "point s1 = L_retry (next_backoff s b)" by auto
  have nb: "next_backoff s1 = next_backoff s" using s1(3) by (simp add: next_backoff_def fun_eq_iff)
  from Suc.IH [OF s1(2,5) "is"(2)] Suc.prems(4) "is" obtain s' where s':
    "next_loop (live_iface parse) (map Input is' @ ts) s1 = next_loop (live_iface parse) ts s'"
    "\<not> live_stop_requested s'" "config s' = config s" "point s' = L_retry ((next_backoff s ^^ k) (next_backoff s b))"
    "slept s' = slept s @ b # map (\<lambda>j. (next_backoff s ^^ j) (next_backoff s b)) [0..<k]"
    using nb s1(3,4) by auto
  have "b # map (\<lambda>j. (next_backoff s ^^ j) (next_backoff s b)) [0..<k] = map (\<lambda>j. (next_backoff s ^^ j) b) [0..<Suc k]"
    by (simp add: upt_conv_Cons map_Suc_upt [symmetric] funpow_swap1 del: upt_Suc)
  with s1(1) s' show ?case by (auto simp: funpow_swap1 simp del: upt_Suc)
qed

section \<open>Stopping\<close>

text \<open>The steps of the thread inside \<^verbatim>\<open>next()\<close> and the two halves of \<^verbatim>\<open>stop()\<close>, in any order.\<close>

datatype live_action = Pass live_input | Flag | Close

fun live_act :: "json_parser \<Rightarrow> live_action \<Rightarrow> LiveSource \<Rightarrow> LiveSource" where
  "live_act parse (Pass i) s = fst (LiveSource_step parse i s)"
| "live_act parse Flag s = stop_flag s"
| "live_act parse Close s = stop_close s"

lemma live_act_stop: "live_stop_requested s \<Longrightarrow> live_stop_requested (live_act parse a s)"
  by (cases a) (auto simp: live_defs Let_def split: live_point.splits if_splits prod.splits option.splits
      connect_error.splits sum.splits)

lemma live_act_ws: "live_stop_requested s \<Longrightarrow> ws s \<noteq> Open_stream \<Longrightarrow> ws (live_act parse a s) \<noteq> Open_stream"
  by (cases a) (auto simp: live_defs Let_def split: live_point.splits if_splits prod.splits option.splits
      connect_error.splits sum.splits)

lemma live_acts_stop: "live_stop_requested s \<Longrightarrow> live_stop_requested (fold (live_act parse) as s)"
  by (induction as arbitrary: s) (auto simp: live_act_stop)

lemma live_acts_ws:
  "live_stop_requested s \<Longrightarrow> ws s \<noteq> Open_stream \<Longrightarrow> ws (fold (live_act parse) as s) \<noteq> Open_stream"
  by (induction as arbitrary: s) (auto simp: live_act_stop live_act_ws)

section \<open>Properties\<close>

text \<open>
  C21: reconnection is transparent. Whatever the network does, \<^verbatim>\<open>next()\<close> returns false only because
  \<^verbatim>\<open>stop()\<close> was called: a call during which nobody calls \<^verbatim>\<open>stop()\<close> yields an event, throws, or keeps
  trying.
\<close>

theorem live_false_only_after_stop:
  assumes "LiveSource_next parse ts s = Some (s', r, rest)" "\<not> live_stop_requested s" "Stop_call \<notin> set ts"
  shows "(\<exists>e. r = Event e) \<or> (\<exists>x. r = Raised x)"
proof -
  have keep: "\<not> live_stop_requested s'" if "LiveSource_step parse i s = (s', r)" "\<not> live_stop_requested s" for i s s' r
    using that by (auto simp: live_defs Let_def split: live_point.splits if_splits prod.splits option.splits
        connect_error.splits sum.splits)
  show ?thesis using assms unfolding LiveSource_next_def
  proof (induction ts arbitrary: s)
    case (Cons t ts)
    then obtain i where t: "t = Input i" by (cases t) auto
    obtain s1 r1 where step: "LiveSource_step parse i s = (s1, r1)" by fastforce
    from live_finished [of parse i s s1] step Cons.prems(2) have "r1 \<noteq> Finished" by auto
    moreover from keep [OF step Cons.prems(2)] have "\<not> live_stop_requested s1" .
    ultimately show ?case using Cons t step by (cases r1) (auto simp: live_iface_def)
  qed simp
qed

definition sample_input :: live_input where
  "sample_input = \<lparr>connect_error = None, received = Some ''m'', clock = 7\<rparr>"

abbreviation sample_message :: json_parser where
  "sample_message \<equiv> \<lambda>_. Inr (sample_trade ''15.5'')"

theorem live_false_only_after_stop_witness:
  "\<exists>s' r rest. LiveSource_next sample_message (map Input (replicate 5 sample_input)) (LiveSource_new LiveSourceConfig_default) =
      Some (s', r, rest) \<and> ((\<exists>e. r = Event e) \<or> (\<exists>x. r = Raised x))"
proof -
  let ?call = "LiveSource_next sample_message (map Input (replicate 5 sample_input)) (LiveSource_new LiveSourceConfig_default)"
  have "\<not> Option.is_none ?call" by code_simp
  then obtain s' r rest where call: "?call = Some (s', r, rest)" by (cases ?call) (auto simp: Option.is_none_def)
  from live_false_only_after_stop [OF call] have "(\<exists>e. r = Event e) \<or> (\<exists>x. r = Raised x)"
    by (auto simp: LiveSource_new_def)
  with call show ?thesis by blast
qed

text \<open>
  C22: after \<^verbatim>\<open>stop()\<close> no connection is open. Whatever the thread inside \<^verbatim>\<open>next()\<close> does before, between
  and after the two halves of \<^verbatim>\<open>stop()\<close>, a handshake in progress included, the socket is closed or was
  never there once \<^verbatim>\<open>stop()\<close> has completed, and stays so.
\<close>

theorem live_stop_leaves_no_connection:
  "ws (fold (live_act parse) (as @ [Flag] @ bs @ [Close] @ cs) s) \<noteq> Open_stream"
proof -
  let ?s1 = "fold (live_act parse) bs (stop_flag (fold (live_act parse) as s))"
  have "live_stop_requested ?s1" by (rule live_acts_stop) (simp add: stop_flag_def)
  then have "live_stop_requested (stop_close ?s1)" "ws (stop_close ?s1) \<noteq> Open_stream"
    by (auto simp: stop_close_def)
  then show ?thesis by (simp add: live_acts_ws)
qed

text \<open>
  C23: exponential backoff. A call of \<^verbatim>\<open>next()\<close> without a connection, during which the attempts to connect fail and
  nobody calls \<^verbatim>\<open>stop()\<close>: after the \<^verbatim>\<open>j\<close>-th failed attempt (from zero) the thread sleeps for the initial delay
  doubled \<^verbatim>\<open>j\<close> times, but never for more than the maximum, and after \<^verbatim>\<open>k\<close> of them it is about to make the next
  attempt with the delay that follows.
\<close>

theorem live_backoff_doubles:
  assumes "\<not> live_stop_requested s" "point s = L_top" "\<not> connected s"
    and "0 \<le> initial_backoff (config s)" "initial_backoff (config s) \<le> max_backoff (config s)"
    and "length is = 4 * k" "\<forall>i \<in> set is. connect_error i \<noteq> None"
  shows "\<exists>s'. LiveSource_next parse (Input i # map Input is @ ts) s = LiveSource_next parse ts s' \<and> \<not> live_stop_requested s' \<and>
    slept s' = slept s @ map (\<lambda>j. min (initial_backoff (config s) * 2 ^ j) (max_backoff (config s))) [0..<k] \<and>
    point s' = L_retry (min (initial_backoff (config s) * 2 ^ k) (max_backoff (config s)))"
proof -
  define s0 where "s0 = s\<lparr>point := L_retry (initial_backoff (config s))\<rparr>"
  have enter: "LiveSource_next parse (Input i # map Input is @ ts) s = LiveSource_next parse (map Input is @ ts) s0"
    using assms(1-3) by (simp add: LiveSource_next_def live_iface_def LiveSource_step_def ensureConnected_enter_def s0_def)
  have "(next_backoff s0 ^^ j) (initial_backoff (config s)) =
      min (initial_backoff (config s) * 2 ^ j) (max_backoff (config s))" for j
  proof (induction j)
    case 0
    then show ?case using assms(5) by simp
  next
    case (Suc j)
    then show ?case using next_backoff_iterate [of "initial_backoff (config s)" s0] assms(4,5) by (simp add: s0_def)
  qed
  moreover have "\<not> live_stop_requested s0" "point s0 = L_retry (initial_backoff (config s))" "slept s0 = slept s"
    using assms(1) by (simp_all add: s0_def)
  ultimately show ?thesis
    using backoff_loop [of s0 "initial_backoff (config s)" "is" k parse ts] assms(6,7)
    unfolding enter by (simp add: LiveSource_next_def) blast
qed

text \<open>Six failed attempts with the default configuration: one second, then twice as long each time up to thirty.\<close>

theorem live_backoff_doubles_witness:
  "\<exists>s'. LiveSource_next sample_message (Input sample_input # map Input (replicate 24 (sample_input\<lparr>connect_error := Some Sni_failure\<rparr>)) @ [])
      (LiveSource_new LiveSourceConfig_default) = LiveSource_next sample_message [] s' \<and>
    \<not> live_stop_requested s' \<and> slept s' = [1000, 2000, 4000, 8000, 16000, 30000] \<and> point s' = L_retry 30000"
  using live_backoff_doubles [of "LiveSource_new LiveSourceConfig_default"
      "replicate 24 (sample_input\<lparr>connect_error := Some Sni_failure\<rparr>)" 6 sample_message sample_input "[]"]
  by (simp add: LiveSource_new_def LiveSourceConfig_default_def upt_rec)

definition live_balance :: "LiveSource \<Rightarrow> u64" where
  "live_balance s = messages_received s - live_malformed s"

lemma live_step_account:
  assumes "LiveSource_step parse i s = (s', r)"
  shows "(\<exists>x. r = Raised x) \<or> live_balance s' = live_balance s + (case r of Event e \<Rightarrow> 1 | _ \<Rightarrow> 0)"
    and "r = Event e \<Longrightarrow> symbol e \<noteq> [] \<and> \<not> d_le_zero (price e) \<and> source e = ''live:binance''"
proof -
  show "(\<exists>x. r = Raised x) \<or> live_balance s' = live_balance s + (case r of Event e \<Rightarrow> 1 | _ \<Rightarrow> 0)"
    using assms by (auto simp: live_balance_def live_defs Let_def split: live_point.splits if_splits prod.splits
        option.splits connect_error.splits sum.splits)
  assume "r = Event e"
  with assms obtain raw ev err where "parseBinanceTradeMessage parse raw (Some []) = Inr (Some ev, err)"
    "e = ev\<lparr>ingest_time := clock i, source := ''live:binance''\<rparr>"
    by (auto simp: live_defs Let_def split: live_point.splits if_splits prod.splits option.splits
        connect_error.splits sum.splits)
  then show "symbol e \<noteq> [] \<and> \<not> d_le_zero (price e) \<and> source e = ''live:binance''"
    using parseBinance_valid by auto
qed

lemma live_stop_balance [simp]: "live_balance (LiveSource_stop s) = live_balance s"
  by (simp add: live_balance_def live_defs)

lemma live_loop_account:
  assumes "read_loop (live_iface parse) ts s = (es, s', end)" "\<And>x. end \<noteq> Some (Raised x)"
  shows "live_balance s' = live_balance s + of_nat (length es) \<and>
    (\<forall>e \<in> set es. symbol e \<noteq> [] \<and> \<not> d_le_zero (price e) \<and> source e = ''live:binance'')"
  using assms(1)
proof (induction ts arbitrary: s es)
  case (Cons t ts)
  show ?case
  proof (cases t)
    case Stop_call
    with Cons.prems have "read_loop (live_iface parse) ts (LiveSource_stop s) = (es, s', end)" by (simp add: live_iface_def)
    from Cons.IH [OF this] show ?thesis by simp
  next
    case (Input i)
    obtain s1 r where step: "LiveSource_step parse i s = (s1, r)" by fastforce
    obtain es1 s2 end1 where rest: "read_loop (live_iface parse) ts s1 = (es1, s2, end1)" by (metis prod_cases3)
    note acc = live_step_account [OF step]
    show ?thesis
    proof (cases r)
      case (Event e)
      with Cons.prems Input step rest have "es = e # es1" "s2 = s'" "end1 = end" by (auto simp: live_iface_def)
      with Cons.IH [of s1 es1] rest acc(1) acc(2) [OF Event] Event show ?thesis by auto
    next
      case Again
      with Cons.prems Input step rest have "es = es1" "s2 = s'" "end1 = end" by (auto simp: live_iface_def)
      with Cons.IH [of s1 es1] rest acc(1) Again show ?thesis by auto
    qed (use Cons.prems Input step acc(1) assms(2) in \<open>auto simp: live_iface_def\<close>)
  qed
qed simp

text \<open>
  C24: every message is accounted for. Over any stretch of the reading loop that no exception ends, the
  messages received are the events returned plus the malformed messages (as 64-bit counters), and
  every event returned is a validated trade: it has a symbol, a price that is not zero or negative,
  and the source name of the live feed.
\<close>

theorem live_messages_accounted:
  assumes "read_loop (live_iface parse) ts s = (es, s', end)" "\<And>x. end \<noteq> Some (Raised x)"
  shows "messages_received s' - messages_received s = of_nat (length es) + (live_malformed s' - live_malformed s) \<and>
    (\<forall>e \<in> set es. symbol e \<noteq> [] \<and> \<not> d_le_zero (price e) \<and> source e = ''live:binance'')"
proof -
  note acc = live_loop_account [OF assms]
  then have "messages_received s' - live_malformed s' = messages_received s - live_malformed s + of_nat (length es)"
    by (simp add: live_balance_def)
  then have "messages_received s' - messages_received s = of_nat (length es) + (live_malformed s' - live_malformed s)"
    by (simp add: algebra_simps)
  with acc show ?thesis by blast
qed

theorem live_messages_accounted_witness:
  "\<exists>es s' end. read_loop (live_iface (\<lambda>_. Inl (Parse_error ''bad''))) (map Input (replicate 5 sample_input)) (LiveSource_new LiveSourceConfig_default) =
      (es, s', end) \<and> messages_received s' = of_nat (length es) + live_malformed s'"
proof -
  obtain es s' "end" where loop: "read_loop (live_iface (\<lambda>_. Inl (Parse_error ''bad''))) (map Input (replicate 5 sample_input))
      (LiveSource_new LiveSourceConfig_default) = (es, s', end)" by (metis prod_cases3)
  have "Option.is_none (snd (snd (read_loop (live_iface (\<lambda>_. Inl (Parse_error ''bad''))) (map Input (replicate 5 sample_input))
      (LiveSource_new LiveSourceConfig_default))))" by code_simp
  with loop have "end = None" by (simp add: Option.is_none_def split: option.splits)
  with live_messages_accounted [OF loop] have "messages_received s' = of_nat (length es) + live_malformed s'"
    by (simp add: LiveSource_new_def)
  with loop show ?thesis by blast
qed

lemma buildTarget_loop_rest:
  "buildTarget_loop (Suc i) xs t = t @ concat (map (\<lambda>x. ''/'' @ map to_lower x @ ''@trade'') xs)"
  by (induction xs arbitrary: i t) simp_all

lemma join_with_Cons: "join_with sep (x # xs) = x @ concat (map (\<lambda>y. sep @ y) xs)"
  by (induction xs arbitrary: x) simp_all

text \<open>
  The request target names one trade stream per configured symbol, in lower case and separated by
  slashes.
\<close>

lemma live_target:
  "buildTarget c = ''/stream?streams='' @ join_with ''/'' (map (\<lambda>x. map to_lower x @ ''@trade'') (symbols c))"
  by (cases "symbols c") (simp_all add: buildTarget_def buildTarget_loop_rest join_with_Cons o_def)

end
