(* ===== verification/Services.thy ===== *)
theory Services
  imports End_To_End Live_Source
begin

text \<open>
  Configuration and the programs: the environment (\<^verbatim>\<open>src/env.cpp\<close>), the symbol list and the command line,
  and the \<^verbatim>\<open>main\<close> functions of the ingestion service (\<^verbatim>\<open>services/ingestion/main.cpp\<close>), of the consumer
  service (\<^verbatim>\<open>services/consumer/main.cpp\<close>) and of the ingestion demo (\<^verbatim>\<open>src/ingestion_demo_main.cpp\<close>), as
  far as they decide what is built and which calls are made. What they print is in \<^verbatim>\<open>Terminal_Output\<close>.
\<close>

section \<open>Environment\<close>

type_synonym environment = "string \<Rightarrow> string option" \<comment> \<open>\<^verbatim>\<open>std::getenv\<close>\<close>

definition getEnv :: "environment \<Rightarrow> string \<Rightarrow> string option" where
  "getEnv env name = (case env name of None \<Rightarrow> None | Some v \<Rightarrow> if v = [] then None else Some v)"

definition getEnvOr :: "environment \<Rightarrow> string \<Rightarrow> string \<Rightarrow> string" where
  "getEnvOr env name default_value = (case getEnv env name of Some v \<Rightarrow> v | None \<Rightarrow> default_value)"

section \<open>The symbol list\<close>

text \<open>The loop \<^verbatim>\<open>while (std::getline(ss, item, ','))\<close>: it ends when nothing is left to read.\<close>

function splitSymbols :: "string \<Rightarrow> string list" where
  "splitSymbols rest =
     (if rest = [] then []
      else let item = takeWhile (\<lambda>c. c \<noteq> CHR '','') rest;
               others = splitSymbols (drop 1 (dropWhile (\<lambda>c. c \<noteq> CHR '','') rest))
           in if item = [] then others else item # others)"
  by pat_completeness auto

termination
proof (relation "measure length", goal_cases)
  case (2 rest)
  then show ?case using length_dropWhile_le [of "\<lambda>c. c \<noteq> CHR '',''" rest] by (cases rest) auto
qed simp

declare splitSymbols.simps [simp del]

section \<open>The command line\<close>

definition is_space :: "char \<Rightarrow> bool" where
  "is_space c \<longleftrightarrow> c = CHR '' '' \<or> 9 \<le> byte c \<and> byte c \<le> 13"

text \<open>
  \<^verbatim>\<open>std::stoul\<close>: white space, an optional sign, then digits; what follows is ignored. A negative number is
  negated modulo 2 to the 64, as \<^verbatim>\<open>strtoul\<close> does.
\<close>

definition stoul :: "string \<Rightarrow> cpp_exn + u64" where
  "stoul s =
     (let t = dropWhile is_space s;
          (neg, u) = (case strip CHR ''-'' t of
             Some v \<Rightarrow> (True, v)
           | None \<Rightarrow> (case strip CHR ''+'' t of Some v \<Rightarrow> (False, v) | None \<Rightarrow> (False, t)));
          ds = takeWhile is_digit u;
          n = digits_val ds
      in if ds = [] then Inl (Std_exn ''invalid_argument'')
         else if 2 ^ 64 \<le> n then Inl (Std_exn ''out_of_range'')
         else Inr (if neg then - of_nat n else of_nat n))"

record options =
  replay_path :: string
  record_path :: string
  queue_capacity :: u64

definition options_default :: options where
  "options_default = \<lparr>replay_path = [], record_path = [], queue_capacity = 1024\<rparr>"

text \<open>The loop over the arguments after the program name; an option without a value is ignored.\<close>

fun parse_args :: "string list \<Rightarrow> options \<Rightarrow> cpp_exn + options" where
  "parse_args [] opts = Inr opts"
| "parse_args (arg # rest) opts =
     (if arg = ''--replay'' \<and> rest \<noteq> [] then parse_args (tl rest) (opts\<lparr>replay_path := hd rest\<rparr>)
      else if arg = ''--record'' \<and> rest \<noteq> [] then parse_args (tl rest) (opts\<lparr>record_path := hd rest\<rparr>)
      else if arg = ''--queue-capacity'' \<and> rest \<noteq> []
           then (case stoul (hd rest) of
                   Inl e \<Rightarrow> Inl e
                 | Inr n \<Rightarrow> parse_args (tl rest) (opts\<lparr>queue_capacity := n\<rparr>))
      else parse_args rest opts)"

text \<open>The demo knows the first two options only.\<close>

fun demo_args :: "string list \<Rightarrow> options \<Rightarrow> options" where
  "demo_args [] opts = opts"
| "demo_args (arg # rest) opts =
     (if arg = ''--replay'' \<and> rest \<noteq> [] then demo_args (tl rest) (opts\<lparr>replay_path := hd rest\<rparr>)
      else if arg = ''--record'' \<and> rest \<noteq> [] then demo_args (tl rest) (opts\<lparr>record_path := hd rest\<rparr>)
      else demo_args rest opts)"

section \<open>The source behind the interface pointer\<close>

text \<open>\<^verbatim>\<open>std::unique_ptr<MarketDataSource>\<close> holds one of the two sources; a call goes to the one it holds.\<close>

datatype any_source = From_replay ReplaySource | From_live LiveSource

definition make_source :: "environment \<Rightarrow> options \<Rightarrow> any_source" where
  "make_source env opts =
     (if replay_path opts \<noteq> [] then From_replay (ReplaySource_new (replay_path opts))
      else From_live (LiveSource_new (LiveSourceConfig_default\<lparr>symbols :=
        splitSymbols (getEnvOr env ''TICKFORGE_SYMBOLS'' ''btcusdt,ethusdt'')\<rparr>)))"

definition any_start :: "files \<Rightarrow> any_source \<Rightarrow> any_source \<times> cpp_exn option" where
  "any_start fs s =
     (case s of
        From_replay r \<Rightarrow> apfst From_replay (ReplaySource_start fs r)
      | From_live l \<Rightarrow> apfst From_live (LiveSource_start l))"

definition any_stop :: "any_source \<Rightarrow> any_source" where
  "any_stop s =
     (case s of From_replay r \<Rightarrow> From_replay (ReplaySource_stop r) | From_live l \<Rightarrow> From_live (LiveSource_stop l))"

definition any_step :: "json_parser \<Rightarrow> live_input \<Rightarrow> any_source \<Rightarrow> any_source \<times> next_result" where
  "any_step parse i s =
     (case s of
        From_replay r \<Rightarrow> apfst From_replay (ReplaySource_step parse (clock i) r)
      | From_live l \<Rightarrow> apfst From_live (LiveSource_step parse i l))"

definition any_iface :: "files \<Rightarrow> json_parser \<Rightarrow> (live_input, any_source) source_iface" where
  "any_iface fs parse = \<lparr>src_start = any_start fs, src_stop = any_stop, src_step = any_step parse\<rparr>"

definition any_stop_req :: "any_source \<Rightarrow> bool" where
  "any_stop_req s = (case s of From_replay r \<Rightarrow> ReplaySource.stop_requested r | From_live l \<Rightarrow> live_stop_requested l)"

definition any_rank :: "any_source \<Rightarrow> nat" where
  "any_rank s = (case s of From_replay r \<Rightarrow> 0 | From_live l \<Rightarrow> live_rank l)"

lemma any_step_cases:
  assumes "any_step parse i s = (s', r)"
  obtains (replay) x x' where "s = From_replay x" "s' = From_replay x'" "src_step (replay_iface fs parse) (clock i) x = (x', r)"
  | (live) x x' where "s = From_live x" "s' = From_live x'" "src_step (live_iface parse) i x = (x', r)"
  using assms
  by (cases s) (auto simp: any_step_def replay_iface_def live_iface_def apfst_def map_prod_def split: prod.splits)

interpretation any: market_data_source "any_iface fs parse" "\<lambda>_. True" any_stop_req any_rank
proof
  fix s s' i j r
  show "any_stop_req (src_stop (any_iface fs parse) s)"
    by (cases s) (simp_all add: any_iface_def any_stop_def any_stop_req_def ReplaySource_stop_def live_defs)
  show "any_rank (src_stop (any_iface fs parse) s) \<le> any_rank s"
    by (cases s) (simp_all add: any_iface_def any_stop_def any_rank_def live_iface_def live_rank_def live_defs)
  show "snd (src_step (any_iface fs parse) j s') = Finished" if "src_step (any_iface fs parse) i s = (s', Finished)"
  proof -
    from that have "any_step parse i s = (s', Finished)" by (simp add: any_iface_def)
    then show ?thesis
    proof (cases rule: any_step_cases [where fs = fs])
      case (replay x x')
      with replay.finished_final [OF _ replay(3), of "clock j"]
      show ?thesis by (simp add: replay_inv_def any_iface_def any_step_def replay_iface_def)
    next
      case (live x x')
      with live.finished_final [OF TrueI live(3), of j] show ?thesis by (simp add: any_iface_def any_step_def live_iface_def)
    qed
  qed
  assume "src_step (any_iface fs parse) i s = (s', r)"
  then have step: "any_step parse i s = (s', r)" by (simp add: any_iface_def)
  show "any_stop_req s'" if "any_stop_req s"
    using step
  proof (cases rule: any_step_cases [where fs = fs])
    case (replay x x')
    with that replay.step_stop [OF _ replay(3)] show ?thesis by (simp add: any_stop_req_def replay_inv_def)
  next
    case (live x x')
    with that live.step_stop [OF TrueI live(3)] show ?thesis by (simp add: any_stop_req_def)
  qed
  show "r = Finished \<or> (\<exists>e. r = Raised e) \<or> any_rank s' < any_rank s" if "any_stop_req s"
    using step
  proof (cases rule: any_step_cases [where fs = fs])
    case (replay x x')
    with that replay.stop_ends [OF _ _ replay(3)] show ?thesis
      by (simp add: any_stop_req_def any_rank_def replay_inv_def)
  next
    case (live x x')
    with that live.stop_ends [OF TrueI _ live(3)] show ?thesis by (simp add: any_stop_req_def any_rank_def)
  qed
qed simp_all

section \<open>The ingestion service\<close>

definition kafka_config :: "environment \<Rightarrow> KafkaProducerConfig" where
  "kafka_config env = \<lparr>brokers = getEnvOr env ''KAFKA_BOOTSTRAP_SERVERS'' ''localhost:9092'',
     topic = getEnvOr env ''KAFKA_TOPIC'' ''market-events''\<rparr>"

definition make_recorder :: "(string \<Rightarrow> bool) \<Rightarrow> string \<Rightarrow> files \<Rightarrow> cpp_exn + (EventRecorder option \<times> files)" where
  "make_recorder writable f fs =
     (if f = [] then Inr (None, fs)
      else case EventRecorder_new writable f fs of
        Inl e \<Rightarrow> Inl e
      | Inr (r, fs') \<Rightarrow> Inr (Some r, fs'))"

text \<open>\<^verbatim>\<open>main\<close> up to the construction of the pipeline: arguments, source, producer, recorder, pipeline.\<close>

definition ingestion_setup ::
    "environment \<Rightarrow> string list \<Rightarrow> 'k rd_kafka \<Rightarrow> (string \<Rightarrow> bool) \<Rightarrow> files \<Rightarrow>
     cpp_exn + (any_source, 'k KafkaEventProducer) IngestionPipeline" where
  "ingestion_setup env args K writable fs =
     and_then (parse_args args options_default) (\<lambda>opts.
     let src0 = make_source env opts in
     and_then (KafkaEventProducer_new K (kafka_config env)) (\<lambda>pub0.
     and_then (make_recorder writable (record_path opts) fs) (\<lambda>(rec0, fs').
     Inr (IngestionPipeline_new src0 pub0 (unat (queue_capacity opts)) rec0 fs'))))"

text \<open>
  The rest of \<^verbatim>\<open>main\<close>: \<^verbatim>\<open>start()\<close>, then waiting until a signal has come or the ingest thread has ended,
  then \<^verbatim>\<open>requestStop()\<close> and \<^verbatim>\<open>stop()\<close>. \<^verbatim>\<open>M_done\<close> is reached when \<^verbatim>\<open>stop()\<close> has returned, or when \<^verbatim>\<open>start()\<close> has
  thrown and the exception leaves \<^verbatim>\<open>main\<close>.
\<close>

datatype main_point = M_start | M_wait | M_request | M_stop | M_done

record ('s, 'p) service =
  main_thread :: main_point
  shutdown_requested :: bool \<comment> \<open>\<^verbatim>\<open>g_shutdown_requested\<close>\<close>
  pipeline :: "('s, 'p) IngestionPipeline"

definition service_new :: "('s, 'p) IngestionPipeline \<Rightarrow> ('s, 'p) service" where
  "service_new p = \<lparr>main_thread = M_start, shutdown_requested = False, pipeline = p\<rparr>"

definition handleSignal :: "('s, 'p) service \<Rightarrow> ('s, 'p) service" where
  "handleSignal m = m\<lparr>shutdown_requested := True\<rparr>"

definition main_step :: "('i, 's) source_iface \<Rightarrow> ('s, 'p) service \<Rightarrow> ('s, 'p) service option" where
  "main_step S m =
     (if owner_thread (pipeline m) \<noteq> O_idle then None
      else case main_thread m of
        M_start \<Rightarrow>
          (case pipeline_start S (pipeline m) of
             (p, None) \<Rightarrow> Some (m\<lparr>pipeline := p, main_thread := M_wait\<rparr>)
           | (p, Some x) \<Rightarrow> Some (m\<lparr>pipeline := p, main_thread := M_done\<rparr>))
      | M_wait \<Rightarrow>
          if shutdown_requested m \<or> ingest_finished (pipeline m) then Some (m\<lparr>main_thread := M_request\<rparr>) else None
      | M_request \<Rightarrow> Some (m\<lparr>pipeline := requestStop S (pipeline m), main_thread := M_stop\<rparr>)
      | M_stop \<Rightarrow> Some (m\<lparr>pipeline := pipeline_stop (pipeline m), main_thread := M_done\<rparr>)
      | M_done \<Rightarrow> None)"

text \<open>
  All of the process: the main thread between its calls, the steps of the pipeline's threads (the
  main thread inside \<^verbatim>\<open>start()\<close> and \<^verbatim>\<open>stop()\<close> among them), and signals. A run follows a schedule and is
  \<^const>\<open>None\<close> when a step of the schedule is not possible.
\<close>

datatype ('i, 'j) service_action = Main | Thread "('i, 'j) action" | Signal

definition service_do ::
    "('i, 's) source_iface \<Rightarrow> ('j, 'p) publisher_iface \<Rightarrow> json_dumper \<Rightarrow> ('i, 'j) service_action \<Rightarrow>
     ('s, 'p) service \<Rightarrow> ('s, 'p) service option" where
  "service_do S P dump a m =
     (if terminated (pipeline m) \<noteq> None then None
      else case a of
        Main \<Rightarrow> main_step S m
      | Thread b \<Rightarrow>
          if inner b then map_option (\<lambda>p. m\<lparr>pipeline := p\<rparr>) (do_action S P dump b (pipeline m)) else None
      | Signal \<Rightarrow> Some (handleSignal m))"

definition service_run ::
    "('i, 's) source_iface \<Rightarrow> ('j, 'p) publisher_iface \<Rightarrow> json_dumper \<Rightarrow> ('i, 'j) service_action list \<Rightarrow>
     ('s, 'p) service \<Rightarrow> ('s, 'p) service option" where
  "service_run S P dump as m = fold (\<lambda>a r. Option.bind r (service_do S P dump a)) as (Some m)"

lemma service_run_Nil [simp]: "service_run S P dump [] m = Some m"
  by (simp add: service_run_def)

lemma service_run_snoc:
  "service_run S P dump (as @ [a]) m = Some m' \<longleftrightarrow>
     (\<exists>m1. service_run S P dump as m = Some m1 \<and> service_do S P dump a m1 = Some m')"
  by (simp add: service_run_def bind_eq_Some_conv)

lemma service_run_append:
  "service_run S P dump as m = Some m1 \<Longrightarrow> service_run S P dump (as @ bs) m = service_run S P dump bs m1"
  by (simp add: service_run_def)

lemma service_do_cases:
  assumes "service_do S P dump a m = Some m'"
  obtains (main) "a = Main" "terminated (pipeline m) = None" "main_step S m = Some m'"
  | (thread) b p where "a = Thread b" "inner b" "pstep S P dump b (pipeline m) p" "m' = m\<lparr>pipeline := p\<rparr>"
  | (signal) "a = Signal" "terminated (pipeline m) = None" "m' = handleSignal m"
  using assms by (auto simp: service_do_def do_action_pstep split: if_splits service_action.splits)

text \<open>The process is over: \<^verbatim>\<open>main\<close> has come to its end, or an exception has ended it.\<close>

definition service_over :: "('s, 'p) service \<Rightarrow> bool" where
  "service_over m \<longleftrightarrow> \<not> Option.is_none (terminated (pipeline m)) \<or> main_thread m = M_done \<and> owner_thread (pipeline m) = O_idle"

text \<open>What the service does to its pipeline is a run of the pipeline.\<close>

lemma main_step_pipeline:
  assumes "main_step S m = Some m'" "terminated (pipeline m) = None" "main_thread m = M_start \<Longrightarrow> \<not> started (pipeline m)"
  shows "pipeline m' = pipeline m \<or> (\<exists>a. pstep S P dump a (pipeline m) (pipeline m'))"
proof (cases "main_thread m")
  case M_start
  with assms show ?thesis
    by (intro disjI2 exI [of _ Start]) (auto simp: main_step_def pstep_iff split: if_splits prod.splits option.splits)
next
  case M_request
  with assms show ?thesis
    by (intro disjI2 exI [of _ Request_stop]) (auto simp: main_step_def pstep_iff split: if_splits)
next
  case M_stop
  with assms show ?thesis
    by (intro disjI2 exI [of _ Stop]) (auto simp: main_step_def pstep_iff split: if_splits)
qed (use assms in \<open>auto simp: main_step_def split: if_splits\<close>)

end
