(* ===== verification/Service_Properties.thy ===== *)
theory Service_Properties
  imports Services
begin

text \<open>
  What the programs guarantee: the process of the ingestion service comes to an end after a signal or
  at the end of its source, and has then published everything it received; the command line and the
  symbol list are read as they are written.
\<close>

section \<open>The service and its pipeline\<close>

definition in_stop :: "('s, 'p) IngestionPipeline \<Rightarrow> bool" where
  "in_stop p \<longleftrightarrow> owner_thread p \<in> {O_join_ingest, O_shutdown, O_join_publish}"

text \<open>Where \<^verbatim>\<open>main\<close> is and what it has done to its pipeline.\<close>

definition main_ok :: "('s \<Rightarrow> bool) \<Rightarrow> main_point \<Rightarrow> ('s, 'p) IngestionPipeline \<Rightarrow> bool" where
  "main_ok stop_req mt p \<longleftrightarrow>
     (mt = M_start \<longrightarrow> \<not> started p) \<and>
     (mt \<in> {M_wait, M_request, M_stop} \<longrightarrow> started p) \<and>
     (mt \<in> {M_stop, M_done} \<and> started p \<longrightarrow> stop_req (src p)) \<and>
     (in_stop p \<longrightarrow> mt = M_done) \<and>
     (stopped p \<longrightarrow> mt = M_done) \<and>
     (mt = M_done \<and> started p \<and> \<not> stopped p \<longrightarrow> in_stop p)"

abbreviation service_inv :: "('s \<Rightarrow> bool) \<Rightarrow> ('s, 'p) service \<Rightarrow> bool" where
  "service_inv stop_req m \<equiv> main_ok stop_req (main_thread m) (pipeline m)"

lemma inner_keeps:
  assumes "inner a" "pstep S P dump a p p'"
  shows "started p' = started p"
    "in_stop p' \<Longrightarrow> in_stop p"
    "stopped p' \<Longrightarrow> stopped p \<or> in_stop p"
    "in_stop p \<Longrightarrow> in_stop p' \<or> stopped p'"
    "stopped p \<Longrightarrow> stopped p'"
proof -
  have "started p' = started p \<and>
    (in_stop p' \<longrightarrow> in_stop p) \<and>
    (stopped p' \<longrightarrow> stopped p \<or> in_stop p) \<and>
    (in_stop p \<longrightarrow> in_stop p' \<or> stopped p') \<and> (stopped p \<longrightarrow> stopped p')"
    using assms(2)
  proof (cases rule: pstep_cases)
    case call
    with assms(1) show ?thesis by (auto simp: inner_def)
  next
    case owner
    from owner(2) show ?thesis by (cases rule: owner_cases) (auto simp: in_stop_def)
  next
    case (ingest i)
    from ingest(2) show ?thesis by (cases rule: ingest_cases) (auto simp: in_stop_def)
  next
    case (publish j)
    from publish(2) show ?thesis by (cases rule: publish_cases) (auto simp: in_stop_def)
  qed
  then show "started p' = started p"
    "in_stop p' \<Longrightarrow> in_stop p"
    "stopped p' \<Longrightarrow> stopped p \<or> in_stop p"
    "in_stop p \<Longrightarrow> in_stop p' \<or> stopped p'"
    "stopped p \<Longrightarrow> stopped p'" by blast+
qed

context market_data_source
begin

lemma service_inv_main:
  assumes "main_step S m = Some m'" "service_inv stop_req m" "ctl_inv (pipeline m)"
  shows "service_inv stop_req m'"
proof (cases "main_thread m")
  case M_start
  with assms show ?thesis
    by (auto simp: main_step_def main_ok_def in_stop_def pipeline_start_def ctl_inv_def split: if_splits prod.splits option.splits)
next
  case M_request
  with assms stop_sets show ?thesis by (auto simp: main_step_def main_ok_def in_stop_def requestStop_def split: if_splits)
next
  case M_stop
  with assms show ?thesis by (auto simp: main_step_def main_ok_def in_stop_def pipeline_stop_def split: if_splits)
qed (use assms in \<open>auto simp: main_step_def main_ok_def in_stop_def split: if_splits\<close>)

lemma main_ok_thread:
  assumes "inner a" "pstep S P dump a p p'" "main_ok stop_req mt p" "inv (src p)"
  shows "main_ok stop_req mt p'"
  using assms(3) inner_keeps [OF assms(1,2)] source_inv_step [OF assms(2,4)]
  unfolding main_ok_def by blast

lemma service_runs:
  assumes "service_run S P dump bs (service_new (IngestionPipeline_new s pb c rec fs)) = Some m" "inv s"
  shows "(\<exists>as. runs_from S P dump as s pb c rec fs (pipeline m)) \<and> service_inv stop_req m"
  using assms(1)
proof (induction bs arbitrary: m rule: rev_induct)
  case Nil
  then show ?case by (auto simp: service_new_def main_ok_def in_stop_def IngestionPipeline_new_def intro!: exI [of _ "[]"] pruns_Nil)
next
  case (snoc b bs)
  then obtain m1 where "service_run S P dump bs (service_new (IngestionPipeline_new s pb c rec fs)) = Some m1"
    and do: "service_do S P dump b m1 = Some m" by (auto simp: service_run_snoc)
  with snoc.IH obtain as where run: "runs_from S P dump as s pb c rec fs (pipeline m1)" and si: "service_inv stop_req m1"
    by blast
  have i: "inv (src (pipeline m1))"
    using source_inv_runs [OF run] assms(2) by (simp add: IngestionPipeline_new_def)
  from do show ?case
  proof (cases rule: service_do_cases)
    case main
    from si have "main_thread m1 = M_start \<Longrightarrow> \<not> started (pipeline m1)" by (simp add: main_ok_def)
    from main_step_pipeline [OF main(3,2) this, of P dump] run pruns_Snoc [OF run]
      service_inv_main [OF main(3) si runs_inv(1) [OF run]]
    show ?thesis by metis
  next
    case (thread a p)
    with pruns_Snoc [OF run thread(3)] main_ok_thread [OF thread(2,3) si i] show ?thesis by auto
  next
    case signal
    with run si show ?thesis by (simp add: handleSignal_def) blast
  qed
qed

end

section \<open>The end of the service\<close>

text \<open>What is left to do once \<^verbatim>\<open>requestStop()\<close> has been called: the work of the pipeline, and the call of \<^verbatim>\<open>stop()\<close>.\<close>

definition service_work :: "('s \<Rightarrow> nat) \<Rightarrow> ('s, 'p) service \<Rightarrow> nat" where
  "service_work rank m =
     pipe_work rank (pipeline m) + (if main_thread m = M_done \<or> terminated (pipeline m) \<noteq> None then 0 else 10)"

lemma pipe_work_stop: "owner_thread p = O_idle \<Longrightarrow> pipe_work rank (pipeline_stop p) \<le> pipe_work rank p + 3"
  by (cases "stopped p \<or> \<not> started p") (auto simp: pipeline_stop_def pipe_work_def)

lemma service_moves:
  assumes "ctl_inv (pipeline m)" "bound_inv c (pipeline m)" "0 < c"
    and "shutdown_requested m \<or> ingest_finished (pipeline m) \<or> main_thread m \<noteq> M_wait" "\<not> service_over m"
  shows "\<exists>a m'. a \<noteq> Signal \<and> service_do S P dump a m = Some m'"
proof (cases "owner_thread (pipeline m) = O_idle")
  case True
  with assms(4,5) have "\<exists>m'. service_do S P dump Main m = Some m'"
    by (cases "main_thread m")
      (auto simp: service_do_def main_step_def service_over_def Option.is_none_def split: prod.split option.split)
  then show ?thesis by blast
next
  case False
  from assms(5) have "terminated (pipeline m) = None" by (auto simp: service_over_def Option.is_none_def)
  from stopping_moves [OF assms(1-3) this False, of S P dump] this
  obtain a p where "inner a" "do_action S P dump a (pipeline m) = Some p" by (auto simp: do_action_pstep)
  with \<open>terminated (pipeline m) = None\<close> have "service_do S P dump (Thread a) m = Some (m\<lparr>pipeline := p\<rparr>)"
    by (simp add: service_do_def)
  then show ?thesis by blast
qed

context market_data_source
begin

lemma service_work_less:
  assumes "service_do S P dump a m = Some m'" "a \<noteq> Signal"
    and "service_inv stop_req m" "ctl_inv (pipeline m)" "inv (src (pipeline m))"
    and "main_thread m \<in> {M_stop, M_done}" "started (pipeline m)"
  shows "service_work rank m' < service_work rank m"
  using assms(1)
proof (cases rule: service_do_cases)
  case main
  with assms(6) have "m' = m\<lparr>pipeline := pipeline_stop (pipeline m), main_thread := M_done\<rparr>" "main_thread m = M_stop"
    "owner_thread (pipeline m) = O_idle" by (auto simp: main_step_def split: if_splits)
  with main(2) pipe_work_stop [of "pipeline m" rank] show ?thesis by (simp add: service_work_def)
next
  case (thread b p)
  from assms(3,6,7) have "stop_req (src (pipeline m))" by (auto simp: main_ok_def)
  from inner_work_less [OF thread(3,2) assms(4,5) this]
  have "pipe_work rank p < pipe_work rank (pipeline m)" "terminated (pipeline m) = None"
    by (auto simp: pipe_work_def split: if_splits)
  then show ?thesis by (simp add: thread(4) service_work_def)
qed (use assms(2) in simp)

lemma service_work_bounds:
  assumes "service_run S P dump as (service_new (IngestionPipeline_new s pb c rec fs)) = Some m" "inv s"
    and "main_thread m \<in> {M_stop, M_done}" "started (pipeline m)"
    and "service_run S P dump bs m = Some m'"
  shows "length (filter (\<lambda>b. b \<noteq> Signal) bs) + service_work rank m' \<le> service_work rank m \<and>
    main_thread m' \<in> {M_stop, M_done} \<and> started (pipeline m')"
  using assms(5)
proof (induction bs arbitrary: m' rule: rev_induct)
  case Nil
  with assms(3,4) show ?case by simp
next
  case (snoc b bs)
  then obtain m1 where m1: "service_run S P dump bs m = Some m1" and do: "service_do S P dump b m1 = Some m'"
    by (auto simp: service_run_snoc)
  note IH = snoc.IH [OF m1]
  from service_run_append [OF assms(1), of bs] m1
  have "service_run S P dump (as @ bs) (service_new (IngestionPipeline_new s pb c rec fs)) = Some m1" by simp
  from service_runs [OF this assms(2)] obtain cs where run: "runs_from S P dump cs s pb c rec fs (pipeline m1)"
    and si: "service_inv stop_req m1" by blast
  have i: "inv (src (pipeline m1))"
    using source_inv_runs [OF run] assms(2) by (simp add: IngestionPipeline_new_def)
  from do have "main_thread m' \<in> {M_stop, M_done} \<and> started (pipeline m')"
  proof (cases rule: service_do_cases)
    case main
    with IH show ?thesis by (auto simp: main_step_def pipeline_stop_def split: if_splits)
  next
    case (thread a p)
    with IH inner_keeps(1) [OF thread(2,3)] show ?thesis by simp
  next
    case signal
    with IH show ?thesis by (simp add: handleSignal_def)
  qed
  moreover have "b \<noteq> Signal \<Longrightarrow> service_work rank m' < service_work rank m1"
    using service_work_less [OF do _ si runs_inv(1) [OF run] i] IH by blast
  moreover have "b = Signal \<Longrightarrow> service_work rank m' = service_work rank m1"
    using do by (auto simp: service_do_def handleSignal_def service_work_def split: if_splits)
  ultimately show ?case using IH by (cases "b = Signal") auto
qed

end

lemma service_ends_stopped:
  assumes "service_inv stop_req m" "service_over m" "terminated (pipeline m) = None" "started (pipeline m)"
  shows "stopped (pipeline m)"
  using assms by (auto simp: main_ok_def service_over_def in_stop_def)

lemma ingestion_setup_new:
  assumes "ingestion_setup env args K writable fs = Inr p0"
  obtains opts pb rec fs' where "parse_args args options_default = Inr opts"
    "KafkaEventProducer_new K (kafka_config env) = Inr pb"
    "make_recorder writable (record_path opts) fs = Inr (rec, fs')"
    "p0 = IngestionPipeline_new (make_source env opts) pb (unat (queue_capacity opts)) rec fs'"
  using assms by (auto simp: ingestion_setup_def and_then_def Let_def split: sum.splits)

section \<open>Properties of the ingestion service\<close>

text \<open>
  C12: the ingestion service comes to an end. Once a signal has come or the ingest thread has ended, the
  process is over or can take a step, in every state it can reach and whatever its threads have done; if \<^verbatim>\<open>main\<close> is in
  its polling loop, its own next step leaves the loop, and the one after it calls \<^verbatim>\<open>requestStop()\<close>;
  and once \<^verbatim>\<open>main\<close> has called \<^verbatim>\<open>requestStop()\<close>, it is over after a bounded number of steps, whatever the
  schedule. This is for a positive \<^verbatim>\<open>--queue-capacity\<close>, and for the live source as for a replay.
\<close>

theorem ingestion_service_stops:
  assumes "ingestion_setup env args K writable fs = Inr p0" "parse_args args options_default = Inr opts"
    and "0 < queue_capacity opts"
    and "service_run (any_iface fs0 parse) (kafka_iface K dump) dump as (service_new p0) = Some m"
    and "shutdown_requested m \<or> ingest_finished (pipeline m)"
  shows "(service_over m \<or> (\<exists>a m'. a \<noteq> Signal \<and> service_do (any_iface fs0 parse) (kafka_iface K dump) dump a m = Some m')) \<and>
    (main_thread m \<in> {M_wait, M_request} \<and> owner_thread (pipeline m) = O_idle \<and> terminated (pipeline m) = None \<longrightarrow>
       (\<exists>m'. service_do (any_iface fs0 parse) (kafka_iface K dump) dump Main m = Some m' \<and>
          main_thread m' = (if main_thread m = M_wait then M_request else M_stop))) \<and>
    (main_thread m \<in> {M_stop, M_done} \<and> started (pipeline m) \<longrightarrow>
       (\<forall>bs m'. service_run (any_iface fs0 parse) (kafka_iface K dump) dump bs m = Some m' \<longrightarrow>
          length (filter (\<lambda>b. b \<noteq> Signal) bs) \<le> service_work any_rank m))"
proof -
  from ingestion_setup_new [OF assms(1)] assms(2) obtain pb rec fs'
    where p0: "p0 = IngestionPipeline_new (make_source env opts) pb (unat (queue_capacity opts)) rec fs'"
    by (metis Inr_inject)
  note run = assms(4) [unfolded p0]
  from any.service_runs [OF run] obtain cs where
    "runs_from (any_iface fs0 parse) (kafka_iface K dump) dump cs (make_source env opts) pb (unat (queue_capacity opts)) rec fs'
      (pipeline m)" by blast
  note invs = runs_inv(1,3) [OF this]
  have "0 < unat (queue_capacity opts)" using assms(3) by (simp add: word_less_nat_alt)
  from service_moves [OF invs this] assms(5)
  have "service_over m \<or> (\<exists>a m'. a \<noteq> Signal \<and> service_do (any_iface fs0 parse) (kafka_iface K dump) dump a m = Some m')"
    by blast
  moreover have "length (filter (\<lambda>b. b \<noteq> Signal) bs) \<le> service_work any_rank m"
    if "main_thread m \<in> {M_stop, M_done}" "started (pipeline m)"
      "service_run (any_iface fs0 parse) (kafka_iface K dump) dump bs m = Some m'" for bs m'
    using any.service_work_bounds [OF run TrueI that] by simp
  moreover have "\<exists>m'. service_do (any_iface fs0 parse) (kafka_iface K dump) dump Main m = Some m' \<and>
      main_thread m' = (if main_thread m = M_wait then M_request else M_stop)"
    if "main_thread m \<in> {M_wait, M_request}" "owner_thread (pipeline m) = O_idle" "terminated (pipeline m) = None"
    using that assms(5) by (auto simp: service_do_def main_step_def)
  ultimately show ?thesis by blast
qed

text \<open>The service on a small capture file, publishing to the client in memory: a signal after the first event.\<close>

abbreviation small_source :: "(live_input, any_source) source_iface" where
  "small_source \<equiv> any_iface [''f'' \<mapsto> tiny_capture] tiny_parse"

abbreviation small_kafka :: "(unit, memory_client KafkaEventProducer) publisher_iface" where
  "small_kafka \<equiv> kafka_iface (memory_kafka 1) sample_dump"

definition small_args :: "string list" where
  "small_args = [''--replay'', ''f'', ''--queue-capacity'', ''2'']"

definition small_pipeline :: "(any_source, memory_client KafkaEventProducer) IngestionPipeline" where
  "small_pipeline = IngestionPipeline_new (From_replay (ReplaySource_new ''f'')) sample_producer 2 None Map.empty"

definition now :: "i64 \<Rightarrow> (live_input, unit) service_action" where
  "now t = Thread (Ingest \<lparr>connect_error = None, received = None, clock = t\<rparr>)"

definition small_schedule :: "(live_input, unit) service_action list" where
  "small_schedule = [Main, Thread Owner, Thread Owner, now 1, now 2, now 3, now 4, Signal, now 5, now 6, Main, Main,
     Thread (Publish ()), now 7, now 8, Main, Thread (Publish ()), Thread Owner, Thread (Publish ()), Thread Owner,
     Thread (Publish ()), Thread (Publish ()), Thread Owner]"

definition small_service :: "nat \<Rightarrow> (any_source, memory_client KafkaEventProducer) service option" where
  "small_service n = service_run small_source small_kafka sample_dump (take n small_schedule) (service_new small_pipeline)"

lemma small_setup:
  "ingestion_setup (\<lambda>_. None) small_args (memory_kafka 1) (\<lambda>_. True) Map.empty = Inr small_pipeline"
  "parse_args small_args options_default = Inr \<lparr>replay_path = ''f'', record_path = [], queue_capacity = 2\<rparr>"
proof -
  have "stoul ''2'' = Inr 2" by code_simp
  then show 2: "parse_args small_args options_default = Inr \<lparr>replay_path = ''f'', record_path = [], queue_capacity = 2\<rparr>"
    by (simp add: small_args_def options_default_def)
  have "kafka_config (\<lambda>_. None) = sample_config" by (simp add: kafka_config_def sample_config_def getEnvOr_def getEnv_def)
  with 2 show "ingestion_setup (\<lambda>_. None) small_args (memory_kafka 1) (\<lambda>_. True) Map.empty = Inr small_pipeline"
    by (simp add: ingestion_setup_def and_then_def sample_producer_new make_recorder_def make_source_def small_pipeline_def
        del: One_nat_def)
qed

lemma small_states:
  "\<not> Option.is_none (small_service 15)" "\<not> Option.is_none (small_service 23)"
  "shutdown_requested (the (small_service 15))"
  "main_thread (the (small_service 15)) = M_stop" "started (pipeline (the (small_service 15)))"
  "service_work any_rank (the (small_service 15)) = 41"
  "service_over (the (small_service 23))" "terminated (pipeline (the (small_service 23))) = None"
  "started (pipeline (the (small_service 23)))"
proof -
  have "case small_service 15 of None \<Rightarrow> False
    | Some m \<Rightarrow> shutdown_requested m \<and> main_thread m = M_stop \<and> started (pipeline m) \<and> service_work any_rank m = 41"
    by code_simp
  then show "\<not> Option.is_none (small_service 15)" "shutdown_requested (the (small_service 15))"
    "main_thread (the (small_service 15)) = M_stop" "started (pipeline (the (small_service 15)))"
    "service_work any_rank (the (small_service 15)) = 41" by (simp_all split: option.splits)
  have "case small_service 23 of None \<Rightarrow> False
    | Some m \<Rightarrow> service_over m \<and> Option.is_none (terminated (pipeline m)) \<and> started (pipeline m)"
    by code_simp
  then show "\<not> Option.is_none (small_service 23)" "service_over (the (small_service 23))"
    "terminated (pipeline (the (small_service 23))) = None" "started (pipeline (the (small_service 23)))"
    by (simp_all add: Option.is_none_def split: option.splits)
qed

lemma small_run:
  assumes "\<not> Option.is_none (small_service n)"
  shows "service_run small_source small_kafka sample_dump (take n small_schedule) (service_new small_pipeline) =
    Some (the (small_service n))"
  using assms by (simp add: small_service_def Option.is_none_def)

theorem ingestion_service_stops_witness:
  "(service_over (the (small_service 15)) \<or>
      (\<exists>a m'. a \<noteq> Signal \<and> service_do small_source small_kafka sample_dump a (the (small_service 15)) = Some m')) \<and>
    length (filter (\<lambda>b. b \<noteq> Signal) (drop 15 small_schedule)) \<le> 41"
proof -
  let ?m = "the (small_service 15)"
  have run: "service_run small_source small_kafka sample_dump (take 15 small_schedule @ drop 15 small_schedule)
      (service_new small_pipeline) = Some (the (small_service 23))"
    using small_run [OF small_states(2)] by (simp add: small_schedule_def)
  from run [unfolded service_run_append [OF small_run [OF small_states(1)]]]
  have more: "service_run small_source small_kafka sample_dump (drop 15 small_schedule) ?m = Some (the (small_service 23))" .
  from ingestion_service_stops [OF small_setup _ small_run [OF small_states(1)]] small_states(3-6) more
  show ?thesis by auto
qed

text \<open>
  C11: when \<^verbatim>\<open>main\<close> of the ingestion service returns, every event it fetched from its source has been handed
  to the producer, in order; the messages that the Kafka client has accepted into its queue are those of the events whose
  \<^verbatim>\<open>publish\<close> returned true, in order, on the configured topic; the producer has been flushed once, after the
  last event; and the final statistics add up. What the broker has of these messages is another matter: it is what the
  delivery reports tell.
\<close>

theorem ingestion_service_publishes_all:
  assumes "rd_kafka_client K kinv enqueued reported" "ingestion_setup env args K writable fs = Inr p0"
    and "service_run (any_iface fs0 parse) (kafka_iface K dump) dump as (service_new p0) = Some m"
    and "service_over m" "terminated (pipeline m) = None" "started (pipeline m)"
  shows "map fst (handled (pipeline m)) = fetched (pipeline m) \<and> flushes (pipeline m) = [length (handled (pipeline m))] \<and>
    enqueued (producer (publisher (pipeline m))) =
      map (\<lambda>h. kafka_message (kafka_config env) dump (fst h)) (filter snd (handled (pipeline m))) \<and>
    st_received (stats (pipeline m)) = of_nat (length (fetched (pipeline m))) \<and>
    st_published (stats (pipeline m)) + st_failures (stats (pipeline m)) = st_received (stats (pipeline m))"
proof -
  from assms(2) obtain opts pb rec fs' where new: "KafkaEventProducer_new K (kafka_config env) = Inr pb"
    and p0: "p0 = IngestionPipeline_new (make_source env opts) pb (unat (queue_capacity opts)) rec fs'"
    by (rule ingestion_setup_new)
  from any.service_runs [OF assms(3) [unfolded p0]] obtain cs where
    run: "runs_from (any_iface fs0 parse) (kafka_iface K dump) dump cs (make_source env opts) pb
      (unat (queue_capacity opts)) rec fs' (pipeline m)" and "service_inv any_stop_req m" by blast
  from service_ends_stopped [OF this(2) assms(4-6)] have "stopped (pipeline m)" .
  from stopped_facts [OF run this] rd_kafka_client.kafka_runs [OF assms(1) new run] show ?thesis
    by (simp add: stats_def)
qed

theorem ingestion_service_publishes_all_witness:
  "map fst (handled (pipeline (the (small_service 23)))) = fetched (pipeline (the (small_service 23))) \<and>
    mem_log (producer (publisher (pipeline (the (small_service 23))))) =
      map (\<lambda>h. kafka_message sample_config sample_dump (fst h)) (filter snd (handled (pipeline (the (small_service 23)))))"
proof -
  have "kafka_config (\<lambda>_. None) = sample_config" by (simp add: kafka_config_def sample_config_def getEnvOr_def getEnv_def)
  with ingestion_service_publishes_all [OF memory.rd_kafka_client_axioms small_setup(1)
      small_run [OF small_states(2)] small_states(7-9)]
  show ?thesis by simp
qed

section \<open>The symbol list and the command line\<close>

lemma splitSymbols_last:
  assumes "x \<noteq> []" "CHR '','' \<notin> set x"
  shows "splitSymbols x = [x]"
proof -
  have "takeWhile (\<lambda>c. c \<noteq> CHR '','') x = x" "dropWhile (\<lambda>c. c \<noteq> CHR '','') x = []"
    using assms(2) by (induction x) auto
  with assms(1) show ?thesis
    by (simp only: splitSymbols.simps [of x] Let_def) (simp add: splitSymbols.simps [of "[]"])
qed

lemma splitSymbols_next:
  assumes "x \<noteq> []" "CHR '','' \<notin> set x"
  shows "splitSymbols (x @ CHR '','' # rest) = x # splitSymbols rest"
proof -
  have "takeWhile (\<lambda>c. c \<noteq> CHR '','') (x @ CHR '','' # rest) = x"
    "dropWhile (\<lambda>c. c \<noteq> CHR '','') (x @ CHR '','' # rest) = CHR '','' # rest"
    using assms(2) by (induction x) auto
  with assms(1) show ?thesis by (simp add: splitSymbols.simps [of "x @ CHR '','' # rest"] Let_def)
qed

lemma splitSymbols_join:
  "\<forall>x \<in> set xs. x \<noteq> [] \<and> CHR '','' \<notin> set x \<Longrightarrow> splitSymbols (join_with '','' xs) = xs"
proof (induction "'',''" xs rule: join_with.induct)
  case 1
  then show ?case by (simp add: splitSymbols.simps)
qed (simp_all add: splitSymbols_last splitSymbols_next)

text \<open>
  How \<^verbatim>\<open>std::stoul\<close> reads a text: white space, a sign or none, digits, and a rest that is ignored. Every text is of
  this form.
\<close>

definition reads_as :: "string \<Rightarrow> string \<Rightarrow> string \<Rightarrow> string \<Rightarrow> bool" where
  "reads_as blank sign ds rest \<longleftrightarrow>
     list_all is_space blank \<and> sign \<in> {[], ''+'', ''-''} \<and> list_all is_digit ds \<and> (rest \<noteq> [] \<longrightarrow> \<not> is_digit (hd rest)) \<and>
     (sign @ ds = [] \<longrightarrow> rest \<noteq> [] \<longrightarrow> \<not> is_space (hd rest) \<and> hd rest \<noteq> CHR ''+'' \<and> hd rest \<noteq> CHR ''-'')"

lemma takeWhile_stop: "list_all P xs \<Longrightarrow> (ys \<noteq> [] \<longrightarrow> \<not> P (hd ys)) \<Longrightarrow> takeWhile P (xs @ ys) = xs"
  by (induction xs) (auto simp: takeWhile_eq_Nil_iff)

lemma dropWhile_stop: "list_all P xs \<Longrightarrow> (ys \<noteq> [] \<longrightarrow> \<not> P (hd ys)) \<Longrightarrow> dropWhile P (xs @ ys) = ys"
  by (induction xs) (auto simp: dropWhile_eq_self_iff)

lemma digit_start: "is_digit d \<Longrightarrow> \<not> is_space d \<and> d \<noteq> CHR ''-'' \<and> d \<noteq> CHR ''+''"
  by (auto simp: is_digit_def is_space_def byte_def)

lemma sign_start: "\<not> is_space CHR ''-''" "\<not> is_space CHR ''+''"
  by code_simp+

lemma stoul_reads:
  assumes "reads_as blank sign ds rest"
  shows "stoul (blank @ sign @ ds @ rest) =
    (if ds = [] then Inl (Std_exn ''invalid_argument'')
     else if 2 ^ 64 \<le> digits_val ds then Inl (Std_exn ''out_of_range'')
     else Inr (if sign = ''-'' then - of_nat (digits_val ds) else of_nat (digits_val ds)))"
proof -
  from assms have blank: "list_all is_space blank" and sg: "sign \<in> {[], ''+'', ''-''}" and ds: "list_all is_digit ds"
    "takeWhile is_digit (ds @ rest) = ds" by (auto simp: reads_as_def intro!: takeWhile_stop)
  have "sign @ ds @ rest \<noteq> [] \<longrightarrow> \<not> is_space (hd (sign @ ds @ rest))"
    using assms sign_start digit_start by (cases ds) (auto simp: reads_as_def)
  then have skip: "dropWhile is_space (blank @ sign @ ds @ rest) = sign @ ds @ rest" by (rule dropWhile_stop [OF blank])
  have "strip CHR ''-'' (ds @ rest) = None" "strip CHR ''+'' (ds @ rest) = None" if "sign = []"
    using assms digit_start that by (cases ds; cases rest; auto simp: reads_as_def strip_def)+
  with sg ds(2) skip show ?thesis by (auto simp: stoul_def strip_def)
qed

lemma stoul_reads_every_text:
  obtains blank sign ds rest where "arg = blank @ sign @ ds @ rest" "reads_as blank sign ds rest"
proof -
  define blank t where "blank = takeWhile is_space arg" and "t = dropWhile is_space arg"
  define sign where "sign = (if t \<noteq> [] \<and> hd t \<in> {CHR ''+'', CHR ''-''} then [hd t] else [])"
  define u where "u = drop (length sign) t"
  have t: "t = sign @ u" "t \<noteq> [] \<Longrightarrow> \<not> is_space (hd t)"
    using hd_dropWhile [of is_space arg] by (cases t; auto simp: sign_def u_def t_def)+
  have "arg = blank @ sign @ takeWhile is_digit u @ dropWhile is_digit u" 
    using t(1) takeWhile_dropWhile_id [of is_space arg] by (simp add: blank_def t_def)
  moreover have "list_all is_space blank" "list_all is_digit (takeWhile is_digit u)" "sign \<in> {[], ''+'', ''-''}"
    by (auto simp: blank_def list_all_iff sign_def dest: set_takeWhileD)
  moreover have "dropWhile is_digit u \<noteq> [] \<longrightarrow> \<not> is_digit (hd (dropWhile is_digit u))" by (simp add: hd_dropWhile)
  moreover have "\<not> is_space (hd (dropWhile is_digit u)) \<and> hd (dropWhile is_digit u) \<noteq> CHR ''+'' \<and> hd (dropWhile is_digit u) \<noteq> CHR ''-''"
    if "sign @ takeWhile is_digit u = []" "dropWhile is_digit u \<noteq> []"
  proof -
    from that have "sign = []" "dropWhile is_digit u = u" by (auto simp: takeWhile_eq_Nil_iff dropWhile_eq_self_iff)
    moreover from this t(1) that(2) have "u = t" "t \<noteq> []" by auto
    moreover have "hd t \<notin> {CHR ''+'', CHR ''-''}" using \<open>sign = []\<close> \<open>t \<noteq> []\<close> unfolding sign_def by (auto split: if_splits)
    ultimately show ?thesis using t(2) by simp
  qed
  ultimately show thesis by (intro that [of blank sign "takeWhile is_digit u" "dropWhile is_digit u"]) (simp_all add: reads_as_def)
qed

text \<open>
  C36: the live service subscribes to what \<^verbatim>\<open>TICKFORGE_SYMBOLS\<close> names. A comma-separated list of symbols is
  split into exactly these symbols, and the request target of the live source asks for the trade
  stream of each of them, in lower case and in order.
\<close>

theorem service_subscribes:
  assumes "env ''TICKFORGE_SYMBOLS'' = Some (join_with '','' xs)" "xs \<noteq> []"
    and "\<forall>x \<in> set xs. x \<noteq> [] \<and> CHR '','' \<notin> set x" "replay_path opts = []"
  shows "\<exists>l. make_source env opts = From_live l \<and> symbols (config l) = xs \<and>
    buildTarget (config l) = ''/stream?streams='' @ join_with ''/'' (map (\<lambda>x. map to_lower x @ ''@trade'') xs)"
proof -
  have "join_with '','' xs \<noteq> []" using assms(2,3) by (cases xs) (auto simp: join_with_Cons)
  then have "getEnvOr env ''TICKFORGE_SYMBOLS'' ''btcusdt,ethusdt'' = join_with '','' xs"
    using assms(1) by (simp add: getEnvOr_def getEnv_def)
  then show ?thesis
    using assms(4) splitSymbols_join [OF assms(3)]
    by (simp add: make_source_def LiveSource_new_def live_target)
qed

theorem service_subscribes_witness:
  "\<exists>l. make_source (\<lambda>_. Some ''BTCUSDT,ethusdt'') options_default = From_live l \<and>
    buildTarget (config l) = ''/stream?streams=btcusdt@trade/ethusdt@trade''"
proof -
  have "''/stream?streams='' @ join_with ''/'' (map (\<lambda>x. map to_lower x @ ''@trade'') [''BTCUSDT'', ''ethusdt'']) =
      ''/stream?streams=btcusdt@trade/ethusdt@trade''" by code_simp
  with service_subscribes [of "\<lambda>_. Some ''BTCUSDT,ethusdt''" "[''BTCUSDT'', ''ethusdt'']" options_default]
  show ?thesis by (simp add: options_default_def) blast
qed

text \<open>
  C37: the argument of \<^verbatim>\<open>--queue-capacity\<close>, for every text. The text is read as white space, a sign or none, digits and a
  rest. Without digits the program ends with \<^verbatim>\<open>invalid_argument\<close>, and when the digits make a number of more than 64 bits with
  \<^verbatim>\<open>out_of_range\<close>, exceptions that nothing catches. Otherwise the number is the capacity, zero included and
  whatever follows the digits; with a minus sign it wraps around to a huge capacity. The option is ignored when it is the last
  argument.
\<close>

theorem queue_capacity_option:
  "(\<exists>blank sign ds rest. arg = blank @ sign @ ds @ rest \<and> reads_as blank sign ds rest) \<and>
   (\<forall>blank sign ds rest. arg = blank @ sign @ ds @ rest \<and> reads_as blank sign ds rest \<longrightarrow>
     parse_args [''--queue-capacity'', arg] options_default =
       (if ds = [] then Inl (Std_exn ''invalid_argument'')
        else if 2 ^ 64 \<le> digits_val ds then Inl (Std_exn ''out_of_range'')
        else Inr (options_default\<lparr>queue_capacity := if sign = ''-'' then - of_nat (digits_val ds) else of_nat (digits_val ds)\<rparr>))) \<and>
   parse_args [''--queue-capacity''] options_default = Inr options_default"
proof (intro conjI allI impI)
  show "\<exists>blank sign ds rest. arg = blank @ sign @ ds @ rest \<and> reads_as blank sign ds rest"
    using stoul_reads_every_text [of arg] by metis
qed (auto simp: stoul_reads)

text \<open>A number with a sign and a unit, and a text without a number.\<close>

lemma capacity_texts: "reads_as '' '' ''-'' ''12'' ''k''" "digits_val ''12'' = 12" "reads_as [] [] [] ''many''"
  by code_simp+

theorem queue_capacity_option_witness:
  "parse_args [''--queue-capacity'', '' -12k''] options_default = Inr (options_default\<lparr>queue_capacity := - 12\<rparr>) \<and>
   parse_args [''--queue-capacity'', ''many''] options_default = Inl (Std_exn ''invalid_argument'')"
proof
  show "parse_args [''--queue-capacity'', '' -12k''] options_default = Inr (options_default\<lparr>queue_capacity := - 12\<rparr>)"
    using queue_capacity_option [of "'' -12k''", THEN conjunct2, THEN conjunct1, rule_format, of "'' ''" "''-''" "''12''" "''k''"]
      capacity_texts by simp
  show "parse_args [''--queue-capacity'', ''many''] options_default = Inl (Std_exn ''invalid_argument'')"
    using queue_capacity_option [of "''many''", THEN conjunct2, THEN conjunct1, rule_format, of "[]" "[]" "[]" "''many''"]
      capacity_texts by simp
qed

end
