(* ===== verification/Event_Types.thy ===== *)
theory Event_Types
  imports Service_Properties
begin

text \<open>
  What the ingestion service lets through: every event that reaches its queue is well formed, and how
  well formed depends on the source. From there, the way of a whole capture file: replayed by the service,
  published to Kafka, read back by a consumer.
\<close>

section \<open>Numbers of a parsed text are finite\<close>

text \<open>
  \<^verbatim>\<open>nlohmann::json::parse\<close> reports a number that does not fit a double as an error (\<^verbatim>\<open>out_of_range\<close>), and the
  grammar has no infinities and no NaN.
\<close>

fun finite_floats :: "json \<Rightarrow> bool" where
  "finite_floats (JFloat d) = d_finite d"
| "finite_floats (JArray js) = (\<forall>j \<in> set js. finite_floats j)"
| "finite_floats (JObject kvs) = (\<forall>kv \<in> set kvs. finite_floats (snd kv))"
| "finite_floats j = True"

locale json_reader = json_codec +
  assumes parse_finite: "parse s = Inr j \<Longrightarrow> finite_floats j"

lemma finite_mk_double:
  assumes "m < inf_mag"
  shows "d_finite (mk_double neg m)"
proof -
  define k :: nat where "k = m + (if neg then 2 ^ 63 else 0)"
  have "m < 2 ^ 63" using assms by (simp add: inf_mag_def)
  then have "k < 2 ^ 64" "k mod 2 ^ 63 = m" by (simp_all add: k_def)
  then have "d_mag (mk_double neg m) = m" by (simp add: d_mag_def mk_double_def k_def [symmetric] unat_of_nat)
  with assms show ?thesis by (simp add: d_finite_def)
qed

lemma put_member_finite:
  "finite_floats v \<Longrightarrow> \<forall>kv \<in> set kvs. finite_floats (snd kv) \<Longrightarrow> \<forall>kv \<in> set (put_member k v kvs). finite_floats (snd kv)"
  by (induction k v kvs rule: put_member.induct) auto

lemma read_number_finite: "read_number s = Inr (j, rest) \<Longrightarrow> finite_floats j"
  by (auto simp: read_number_def number_value_def Let_def finite_mk_double
    split: prod.splits sum.splits if_splits)

lemma read_scalar_finite: "read_scalar s = Inr (j, rest) \<Longrightarrow> finite_floats j"
  by (auto simp: read_scalar_def read_literal_def syntax_error_def dest: read_number_finite
    split: list.splits if_splits option.splits)

lemma read_finite:
  "read_value n s = Inr (j, rest) \<Longrightarrow> finite_floats j"
  "read_elements n js s = Inr (j, rest) \<Longrightarrow> \<forall>x \<in> set js. finite_floats x \<Longrightarrow> finite_floats j"
  "read_members n kvs s = Inr (j, rest) \<Longrightarrow> \<forall>kv \<in> set kvs. finite_floats (snd kv) \<Longrightarrow> finite_floats j"
proof (induction n s and n js s and n kvs s arbitrary: j rest and j rest and j rest
    rule: read_value_read_elements_read_members.induct)
  case (2 n s)
  then show ?case
    by (auto simp: syntax_error_def dest: read_scalar_finite split: list.splits if_splits sum.splits)
next
  case (4 n js s)
  then show ?case by (auto split: sum.splits prod.splits)
next
  case (6 n kvs s)
  from "6.prems"(1) obtain t k t1 t2 v t3 where
    at: "expect CHR 0x22 s = Inr t" "read_string t = Some (k, t1)" "expect CHR '':'' t1 = Inr t2" "read_value n t2 = Inr (v, t3)"
    by (auto simp: syntax_error_def split: sum.splits prod.splits option.splits)
  have v: "finite_floats v" by (rule "6.IH"(1) [OF at(1,2) refl at(3,4)])
  note all = put_member_finite [OF v "6.prems"(2), of k]
  show ?case
  proof (cases "expect CHR '','' t3")
    case (Inl e)
    with at "6.prems"(1) all show ?thesis by (auto split: sum.splits)
  next
    case (Inr u)
    from "6.IH"(2) [OF at(1,2) refl at(3,4) refl Inr] at Inr "6.prems"(1) all show ?thesis by simp
  qed
qed (simp_all add: syntax_error_def)

interpretation ref_reader: json_reader ref_parse ref_dump
proof
  fix s j
  assume "ref_parse s = Inr j"
  then obtain rest where "read_value (Suc (length s)) s = Inr (j, rest)"
    unfolding ref_parse_def syntax_error_def by (cases "read_value (Suc (length s)) s") (auto split: if_splits)
  then show "finite_floats j" by (rule read_finite(1))
qed

text \<open>An integer of 64 bits is a finite double.\<close>

lemma bits_le: "n < 2 ^ k \<Longrightarrow> bits n \<le> k"
proof (induction k arbitrary: n)
  case 0
  then show ?case by (simp add: bits.simps)
next
  case (Suc k)
  then have "n div 2 < 2 ^ k" by auto
  from Suc.IH [OF this] show ?case by (subst bits.simps) simp
qed

lemma bits_one [simp]: "bits (Suc 0) = 1"
  by (simp add: bits.simps)

lemma div_half_even_le: "div_half_even a b \<le> a div b + 1"
  by (simp add: div_half_even_def Let_def)

lemma scale_int_bound:
  assumes "int (bits n) - 54 \<le> e" "scale n 1 e = (a, b)"
  shows "a div b < 2 ^ 54"
proof (cases "0 \<le> e")
  case True
  with assms(2) have ab: "a = n" "b = 2 ^ nat e" by (simp_all add: scale_def)
  have "n < 2 ^ bits n" by (rule bits_bound(1))
  also have "\<dots> \<le> 2 ^ (54 + nat e)" using assms(1) True by (intro power_increasing) auto
  finally have "n < 2 ^ 54 * 2 ^ nat e" by (simp only: power_add)
  then show ?thesis unfolding ab by (intro less_mult_imp_div_less) simp
next
  case False
  with assms(2) have ab: "a = n * 2 ^ nat (- e)" "b = 1" by (simp_all add: scale_def)
  have "bits n + nat (- e) \<le> 54" using assms(1) False by simp
  have "n * 2 ^ nat (- e) < 2 ^ bits n * 2 ^ nat (- e)" using bits_bound(1) [of n] by simp
  also have "\<dots> \<le> 2 ^ 54"
    using \<open>bits n + nat (- e) \<le> 54\<close> unfolding power_add [symmetric] by (intro power_increasing) simp_all
  finally show ?thesis unfolding ab by simp
qed

lemma round_int_finite:
  assumes "n < 2 ^ 65"
  shows "round_mag n 1 < inf_mag"
proof (cases "n = 0")
  case False
  obtain a b where ab: "scale n 1 (last_place n 1) = (a, b)" by fastforce
  have bits: "bits n \<le> 65" using bits_le [OF assms] .
  have low: "int (bits n) - 54 \<le> last_place n 1" and high: "last_place n 1 \<le> 12"
    using bits by (auto simp: last_place_def Let_def split: prod.splits)
  have "div_half_even a b \<le> 2 ^ 54" using div_half_even_le [of a b] scale_int_bound [OF low ab] by linarith
  moreover have "nat (last_place n 1 + 1074) * 2 ^ 52 \<le> 1086 * 2 ^ 52" using high by (intro mult_right_mono) auto
  ultimately show ?thesis using False ab by (simp add: round_mag_def Let_def inf_mag_def)
qed (simp add: round_mag_def inf_mag_def)

lemma int_to_double_finite: "\<bar>i\<bar> < 2 ^ 65 \<Longrightarrow> d_finite (int_to_double i)"
  unfolding int_to_double_def by (intro finite_mk_double round_int_finite) (auto simp: nat_less_iff)

lemma get_double_finite:
  assumes "finite_floats j" "get_double j = Some d"
  shows "d_finite d"
proof (cases j)
  case (JInt w)
  have "\<bar>sint w\<bar> < 2 ^ 65" using sint_bounds [of w] by (simp add: abs_less_iff)
  with JInt assms(2) show ?thesis by (auto simp: get_double_def int_to_double_finite)
next
  case (JUInt w)
  have "\<bar>uint w\<bar> < 2 ^ 65" using uint_lt2p [of w] by simp
  with JUInt assms(2) show ?thesis by (auto simp: get_double_def int_to_double_finite)
qed (use assms in \<open>auto simp: get_double_def\<close>)

section \<open>A source that returns events of one kind\<close>

text \<open>
  \<^verbatim>\<open>kind\<close> is what stays true of the source, \<^verbatim>\<open>good\<close> what is true of every event it returns. What the source
  promises holds of everything the pipeline holds.
\<close>

locale typed_source =
  fixes S :: "('i, 's) source_iface"
    and kind :: "'s \<Rightarrow> bool"
    and good :: "MarketEvent \<Rightarrow> bool"
  assumes start_kind: "kind s \<Longrightarrow> kind (fst (src_start S s))"
    and stop_kind: "kind s \<Longrightarrow> kind (src_stop S s)"
    and step_kind: "kind s \<Longrightarrow> src_step S i s = (s', r) \<Longrightarrow> kind s'"
    and step_good: "kind s \<Longrightarrow> src_step S i s = (s', Event e) \<Longrightarrow> good e"
begin

lemma step_typed:
  assumes "pstep S P dump a p p'" "kind (src p) \<and> (\<forall>e \<in> set (fetched p). good e)"
  shows "kind (src p') \<and> (\<forall>e \<in> set (fetched p'). good e)"
  using assms(1)
proof (cases rule: pstep_cases)
  case call
  from assms(1) call show ?thesis
    by (cases rule: call_cases) (use assms(2) start_kind [of "src p"] stop_kind [of "src p"] in auto)
next
  case owner
  from owner(2) assms(2) show ?thesis by (cases rule: owner_cases) auto
next
  case (ingest i)
  from ingest(2) show ?thesis
    by (cases rule: ingest_cases) (use assms(2) step_kind [of "src p"] step_good [of "src p"] in auto)
next
  case (publish j)
  from publish(2) assms(2) show ?thesis by (cases rule: publish_cases) auto
qed

lemma runs_typed:
  assumes "runs_from S P dump as s pb c rec fs p" "kind s"
  shows "kind (src p) \<and> (\<forall>e \<in> set (fetched p). good e)"
  using assms
proof (induction as arbitrary: p rule: rev_induct)
  case Nil
  then have "p = IngestionPipeline_new s pb c rec fs" by (auto elim: pruns_NilE)
  with assms(2) show ?case by (simp add: IngestionPipeline_new_def)
next
  case (snoc a as)
  then obtain p' where "runs_from S P dump as s pb c rec fs p'" "pstep S P dump a p' p" by (auto elim: pruns_snocE)
  with snoc.IH snoc.prems(2) step_typed show ?case by blast
qed

lemma held_typed:
  assumes "runs_from S P dump as s pb c rec fs p" "kind s"
    and "e \<in> set (fetched p) \<union> fst ` set (handled p) \<union> set (publish_hand p) \<union> set (queue (evq p)) \<union> set (ingest_hand p)"
  shows "good e"
proof -
  have "map fst (handled p) @ publish_hand p @ queue (evq p) @ ingest_hand p = fetched p"
    using runs_inv(2) [OF assms(1)] by (simp add: flow_inv_def)
  then have "fst ` set (handled p) \<union> set (publish_hand p) \<union> set (queue (evq p)) \<union> set (ingest_hand p) = set (fetched p)"
    by (metis set_append set_map Un_assoc)
  with assms(3) runs_typed [OF assms(1,2)] show ?thesis by blast
qed

end

section \<open>The two sources of the service\<close>

definition from_replay :: "any_source \<Rightarrow> bool" where
  "from_replay s \<longleftrightarrow> (case s of From_replay r \<Rightarrow> True | From_live l \<Rightarrow> False)"

definition live_event :: "MarketEvent \<Rightarrow> bool" where
  "live_event e \<longleftrightarrow> symbol e \<noteq> [] \<and> utf8 (symbol e) \<and> source e = ''live:binance'' \<and> \<not> d_le_zero (price e)"

lemma member_ok: "json_ok j \<Longrightarrow> member k j = Some v \<Longrightarrow> json_ok v"
  by (cases j) (auto simp: member_def dest!: map_of_SomeD)

lemma member_finite: "finite_floats j \<Longrightarrow> member k j = Some v \<Longrightarrow> finite_floats v"
  by (cases j) (auto simp: member_def dest!: map_of_SomeD)

lemma get_string_ok: "json_ok j \<Longrightarrow> get_string j = Some x \<Longrightarrow> utf8 x"
  by (cases j) (auto simp: get_string_def)

lemma fromJson_writable:
  assumes "json_ok j" "finite_floats j" "marketEventFromJson j error_out = (Some e, err)"
  shows "writable_event e"
proof -
  have str: "Option.bind (member k j) get_string = Some x \<Longrightarrow> utf8 x" for k x
    by (auto simp: bind_eq_Some_conv dest!: member_ok [OF assms(1)] get_string_ok)
  have "utf8 (source e)"
    using assms(3) str unfolding fromJson_cases by (cases "Option.bind (member ''source'' j) get_string") auto
  moreover have "d_finite (price e)"
    using assms(3) member_finite [OF assms(2)] get_double_finite unfolding fromJson_cases by (auto simp: bind_eq_Some_conv)
  ultimately show ?thesis using assms(3) str unfolding fromJson_cases writable_event_def by blast
qed

lemma replay_step_event:
  assumes "ReplaySource_step parse clk s = (s', Event e)"
  obtains line j e0 where "parse line = Inr j" "marketEventFromJson j None = (Some e0, snd (marketEventFromJson j None))"
    "e = e0\<lparr>ingest_time := clk\<rparr>"
  using assms by (auto simp: ReplaySource_step_def Let_def prod_eq_iff split: if_splits prod.splits option.splits sum.splits json_exn.splits)

lemma live_step_event:
  assumes "LiveSource_step parse i s = (s', Event e)"
  obtains raw e0 err where "parseBinanceTradeMessage parse raw (Some []) = Inr (Some e0, err)"
    "e = e0\<lparr>ingest_time := clock i, source := ''live:binance''\<rparr>"
  using assms
  by (auto simp: LiveSource_step_def after_read_def Let_def split: live_point.splits if_splits prod.splits option.splits sum.splits bool.splits)

sublocale json_reader \<subseteq> replayed: typed_source "any_iface fs parse" from_replay writable_event for fs
proof
  fix s s' i r e
  show "from_replay s \<Longrightarrow> from_replay (fst (src_start (any_iface fs parse) s))"
    by (cases s) (simp_all add: from_replay_def any_iface_def any_start_def)
  show "from_replay s \<Longrightarrow> from_replay (src_stop (any_iface fs parse) s)"
    by (cases s) (simp_all add: from_replay_def any_iface_def any_stop_def)
  show "from_replay s \<Longrightarrow> src_step (any_iface fs parse) i s = (s', r) \<Longrightarrow> from_replay s'"
    by (cases s) (auto simp: from_replay_def any_iface_def any_step_def apfst_def map_prod_def split: prod.splits)
  assume "from_replay s" "src_step (any_iface fs parse) i s = (s', Event e)"
  then obtain x x' where "ReplaySource_step parse (clock i) x = (x', Event e)"
    by (cases s) (auto simp: from_replay_def any_iface_def any_step_def apfst_def map_prod_def split: prod.splits)
  then obtain line j e0 where "parse line = Inr j" "marketEventFromJson j None = (Some e0, snd (marketEventFromJson j None))"
    "e = e0\<lparr>ingest_time := clock i\<rparr>" by (rule replay_step_event)
  with fromJson_writable [OF parse_ok parse_finite, of line j line None e0] show "writable_event e"
    by (simp add: writable_event_def)
qed

sublocale json_reader \<subseteq> live_feed: typed_source "any_iface fs parse" "\<lambda>s. \<not> from_replay s" live_event for fs
proof
  fix s s' i r e
  show "\<not> from_replay s \<Longrightarrow> \<not> from_replay (fst (src_start (any_iface fs parse) s))"
    by (cases s) (simp_all add: from_replay_def any_iface_def any_start_def)
  show "\<not> from_replay s \<Longrightarrow> \<not> from_replay (src_stop (any_iface fs parse) s)"
    by (cases s) (simp_all add: from_replay_def any_iface_def any_stop_def)
  show "\<not> from_replay s \<Longrightarrow> src_step (any_iface fs parse) i s = (s', r) \<Longrightarrow> \<not> from_replay s'"
    by (cases s) (auto simp: from_replay_def any_iface_def any_step_def apfst_def map_prod_def split: prod.splits)
  assume "\<not> from_replay s" "src_step (any_iface fs parse) i s = (s', Event e)"
  then obtain x x' where "LiveSource_step parse i x = (x', Event e)"
    by (cases s) (auto simp: from_replay_def any_iface_def any_step_def apfst_def map_prod_def split: prod.splits)
  then obtain raw e0 err where "parseBinanceTradeMessage parse raw (Some []) = Inr (Some e0, err)"
    and e: "e = e0\<lparr>ingest_time := clock i, source := ''live:binance''\<rparr>" by (rule live_step_event)
  then obtain j data price_str t p rest where j: "parse raw = Inr j" "member ''data'' j = Some data"
    "trade_fields data (symbol e0) price_str t" "\<not> d_le_zero p" "price e0 = p"
    unfolding parseBinance_Some parse_envelope_Some by (metis MarketEvent.select_convs(2))
  then have "utf8 (symbol e0)"
    using member_ok [OF member_ok [OF parse_ok [OF j(1)] j(2)], of "''s''"] by (auto simp: trade_fields_def)
  with e j show "live_event e" by (simp add: live_event_def trade_fields_def)
qed

context json_reader
begin

lemma replayed_typed: "typed_source (any_iface fs parse) from_replay writable_event"
  by (rule replayed.typed_source_axioms)

lemma live_typed: "typed_source (any_iface fs parse) (\<lambda>s. \<not> from_replay s) live_event"
  by (rule live_feed.typed_source_axioms)

end

section \<open>A replay that nobody interrupts\<close>

lemma any_replay_loop:
  "read_loop (any_iface fs parse) (map Input is) (From_replay r) =
     (case read_loop (replay_iface fs parse) (map Input (map clock is)) r of (es, r', x) \<Rightarrow> (es, From_replay r', x))"
  by (induction "is" arbitrary: r)
    (auto simp: any_iface_def any_step_def replay_iface_def split: prod.splits next_result.splits)

lemma replay_fetches_file:
  assumes "fs f = Some ct" "\<forall>l \<in> set (lines_of ct). no_overflow parse l"
    and "runs_from (any_iface fs parse) P dump as (From_replay (ReplaySource_new f)) pb cap rec d p"
    and "Request_stop \<notin> set as" "started p" "ingest_over p"
  shows "\<exists>nows. length (lines_of ct) \<le> length nows \<and>
    fetched p = concat (map (line_events parse) (zip (lines_of ct) nows))"
proof -
  let ?r1 = "(ReplaySource_new f)\<lparr>ins := Good ct\<rparr>"
  have "src_start (any_iface fs parse) (From_replay (ReplaySource_new f)) = (From_replay ?r1, None)"
    using assms(1) by (simp add: any_iface_def any_start_def ReplaySource_start_def ReplaySource_new_def)
  from reads_inv_runs [OF assms(3) this] assms(4-6) obtain ts s' where ts: "Stop_call \<notin> set ts"
    "read_loop (any_iface fs parse) ts (From_replay ?r1) = (fetched p, s', Some Finished)"
    by (auto simp: reads_inv_def)
  from inputs_only [OF ts(1)] obtain xs where xs: "ts = map Input xs" ..
  let ?xs = "xs @ replicate (Suc (length (lines_of ct))) undefined"
  have "read_loop (any_iface fs parse) (map Input ?xs) (From_replay ?r1) = (fetched p, s', Some Finished)"
    using ts(2) by (simp add: xs read_loop_append del: replicate.simps)
  moreover have "\<not> stop_requested ?r1" by (simp add: ReplaySource_new_def)
  ultimately have "fetched p = concat (map (line_events parse) (zip (lines_of ct) (map clock ?xs)))"
    using read_loop_replay [of ?r1 ct parse "map clock ?xs" fs] assms(2)
    by (simp add: any_replay_loop del: replicate.simps map_append)
  then show ?thesis by (intro exI [of _ "map clock ?xs"]) simp
qed

text \<open>Without a signal, \<^verbatim>\<open>main\<close> calls \<^verbatim>\<open>requestStop()\<close> only after the ingest thread has come to its end.\<close>

lemma ended_keeps:
  assumes "pstep S P dump a p p'" "inner a" "ingest_thread p = I_exited" "ctl_inv p"
  shows "ingest_thread p' = I_exited \<and> fetched p' = fetched p"
  using assms(1)
proof (cases rule: pstep_cases)
  case call
  with assms(2) show ?thesis by (auto simp: inner_def)
next
  case owner
  have "owner_thread p \<noteq> O_spawn_ingest" using assms(3,4) by (auto simp: ctl_inv_def)
  from owner(2) this assms(3) show ?thesis by (cases rule: owner_cases) simp_all
next
  case (ingest i)
  from ingest(2) assms(3) show ?thesis by (cases rule: ingest_cases) simp_all
next
  case (publish j)
  from publish(2) assms(3) show ?thesis by (cases rule: publish_cases) simp_all
qed

definition undisturbed ::
    "('i, 's) source_iface \<Rightarrow> ('j, 'p) publisher_iface \<Rightarrow> json_dumper \<Rightarrow> ('s, 'p) IngestionPipeline \<Rightarrow>
     ('s, 'p) IngestionPipeline \<Rightarrow> bool" where
  "undisturbed S P dump p0 p \<longleftrightarrow> (\<exists>as. pruns S P dump as p0 p \<and> Request_stop \<notin> set as)"

lemma undisturbed_step: "undisturbed S P dump p0 p \<Longrightarrow> pstep S P dump a p p' \<Longrightarrow> a \<noteq> Request_stop \<Longrightarrow> undisturbed S P dump p0 p'"
  unfolding undisturbed_def by (metis Un_iff empty_iff insert_iff list.set(1,2) pruns_Snoc set_append)

definition read_to_the_end ::
    "('i, 's) source_iface \<Rightarrow> ('j, 'p) publisher_iface \<Rightarrow> json_dumper \<Rightarrow> ('s, 'p) IngestionPipeline \<Rightarrow>
     ('s, 'p) IngestionPipeline \<Rightarrow> bool" where
  "read_to_the_end S P dump p0 p \<longleftrightarrow> ingest_thread p = I_exited \<and>
     (\<exists>q. undisturbed S P dump p0 q \<and> started q \<and> ingest_over q \<and> fetched q = fetched p)"

lemma read_to_the_end_same:
  "read_to_the_end S P dump p0 p \<Longrightarrow> ingest_thread p' = I_exited \<and> fetched p' = fetched p \<Longrightarrow> read_to_the_end S P dump p0 p'"
  by (simp add: read_to_the_end_def)

context market_data_source
begin

lemma service_undisturbed:
  assumes "service_run S P dump bs (service_new p0) = Some m" "p0 = IngestionPipeline_new s pb c rec fs" "inv s" "Signal \<notin> set bs"
  shows "\<not> shutdown_requested m \<and>
    (if main_thread m \<in> {M_start, M_wait} then undisturbed S P dump p0 (pipeline m)
     else started (pipeline m) \<longrightarrow> read_to_the_end S P dump p0 (pipeline m))"
  using assms(1,4)
proof (induction bs arbitrary: m rule: rev_induct)
  case Nil
  have "undisturbed S P dump p0 p0" unfolding undisturbed_def using pruns_Nil by (intro exI [of _ "[]"]) simp
  with Nil show ?case by (auto simp: service_new_def)
next
  case (snoc b bs)
  then obtain m1 where m1: "service_run S P dump bs (service_new p0) = Some m1"
    and do: "service_do S P dump b m1 = Some m" and b: "b \<noteq> Signal" by (auto simp: service_run_snoc)
  note IH = snoc.IH [OF m1] snoc.prems(2)
  from service_runs [OF m1 [unfolded assms(2)] assms(3)] obtain as where
    run: "runs_from S P dump as s pb c rec fs (pipeline m1)" and si: "service_inv stop_req m1" by blast
  note ctl = runs_inv(1) [OF run]
  from do show ?case
  proof (cases rule: service_do_cases)
    case main
    show ?thesis
    proof (cases "main_thread m1")
      case M_start
      then have new: "\<not> started (pipeline m1)" using si by (simp add: main_ok_def)
      obtain p x where px: "pipeline_start S (pipeline m1) = (p, x)" by fastforce
      have idle: "owner_thread (pipeline m1) = O_idle" using main(3) by (auto simp: main_step_def split: if_splits)
      have "pstep S P dump Start (pipeline m1) p" using pstep.start [OF main(2) idle new, of S P dump] px by simp
      with undisturbed_step IH M_start have "undisturbed S P dump p0 p" by fastforce
      moreover have "x \<noteq> None \<Longrightarrow> \<not> started p" using px new by (auto simp: pipeline_start_def split: prod.splits option.splits)
      ultimately show ?thesis using main(3) M_start px idle IH by (cases x) (auto simp: main_step_def)
    next
      case M_wait
      with main(3) IH have fin: "ingest_finished (pipeline m1)" and m: "m = m1\<lparr>main_thread := M_request\<rparr>"
        by (auto simp: main_step_def split: if_splits)
      from fin ctl have "ingest_thread (pipeline m1) = I_exited" by (simp add: ctl_inv_def)
      moreover have "started (pipeline m1)" using si M_wait by (simp add: main_ok_def)
      ultimately have "read_to_the_end S P dump p0 (pipeline m1)"
        using IH M_wait by (auto simp: read_to_the_end_def ingest_over_def)
      with m IH M_wait show ?thesis by simp
    next
      case M_request
      with main(3) have "m = m1\<lparr>pipeline := requestStop S (pipeline m1), main_thread := M_stop\<rparr>"
        by (auto simp: main_step_def split: if_splits)
      with IH M_request show ?thesis by (auto simp: requestStop_def read_to_the_end_def)
    next
      case M_stop
      with main(3) have "m = m1\<lparr>pipeline := pipeline_stop (pipeline m1), main_thread := M_done\<rparr>"
        by (auto simp: main_step_def split: if_splits)
      with IH M_stop show ?thesis by (auto simp: pipeline_stop_def read_to_the_end_def)
    qed (use main(3) in \<open>simp add: main_step_def split: if_splits\<close>)
  next
    case (thread a p)
    have a: "a \<noteq> Request_stop" using thread(2) by (auto simp: inner_def)
    have st: "started p = started (pipeline m1)" using inner_keeps(1) [OF thread(2,3)] .
    have "undisturbed S P dump p0 (pipeline m1) \<Longrightarrow> undisturbed S P dump p0 p" by (rule undisturbed_step [OF _ thread(3) a])
    moreover have "read_to_the_end S P dump p0 (pipeline m1) \<Longrightarrow> read_to_the_end S P dump p0 p"
      using read_to_the_end_same ended_keeps [OF thread(3,2) _ ctl] by (metis read_to_the_end_def)
    ultimately show ?thesis using IH st thread(4) by auto
  qed (use b in simp)
qed

end

section \<open>Properties\<close>

text \<open>
  C13: every event inside the ingestion service is well formed, at every moment: those received, those
  waiting in the queue, those in the hands of a thread and those given to the producer. It has a symbol,
  and symbol and source are valid UTF-8, so that it can be written. From a replay, its price is a finite
  number; from the live feed, it is marked \<^verbatim>\<open>live:binance\<close> and its price is not zero or negative (but may be
  a NaN or an infinity).
\<close>

theorem service_events_well_formed:
  assumes "json_reader parse dump" "ingestion_setup env args K writable fs = Inr p0" "parse_args args options_default = Inr opts"
    and "service_run (any_iface fs0 parse) (kafka_iface K dump) dump as (service_new p0) = Some m"
    and "e \<in> set (fetched (pipeline m)) \<union> fst ` set (handled (pipeline m)) \<union> set (publish_hand (pipeline m)) \<union>
      set (queue (evq (pipeline m))) \<union> set (ingest_hand (pipeline m))"
  shows "symbol e \<noteq> [] \<and> utf8 (symbol e) \<and> utf8 (source e) \<and>
    (if replay_path opts \<noteq> [] then d_finite (price e) else source e = ''live:binance'' \<and> \<not> d_le_zero (price e))"
proof -
  from assms(2) obtain pb rec fs'
    where p0: "p0 = IngestionPipeline_new (make_source env opts) pb (unat (queue_capacity opts)) rec fs'"
    by (rule ingestion_setup_new) (use assms(3) in auto)
  from any.service_runs [OF assms(4) [unfolded p0]] obtain cs where
    run: "runs_from (any_iface fs0 parse) (kafka_iface K dump) dump cs (make_source env opts) pb
      (unat (queue_capacity opts)) rec fs' (pipeline m)" by blast
  have utf8: "utf8 ''live:binance''" by code_simp
  show ?thesis
  proof (cases "replay_path opts \<noteq> []")
    case True
    then have "from_replay (make_source env opts)" by (simp add: make_source_def from_replay_def)
    from typed_source.held_typed [OF json_reader.replayed_typed [OF assms(1)] run this assms(5)] True
    show ?thesis by (simp add: writable_event_def)
  next
    case False
    then have "\<not> from_replay (make_source env opts)" by (simp add: make_source_def from_replay_def)
    from typed_source.held_typed [OF json_reader.live_typed [OF assms(1)] run this assms(5)] False utf8
    show ?thesis by (simp add: live_event_def)
  qed
qed

text \<open>
  The service on a capture file of one line, with the text the JSON library writes for it: it reads the
  line, publishes the event and ends by itself.
\<close>

definition quoted :: "string \<Rightarrow> string" where
  "quoted s = CHR 0x22 # s @ [CHR 0x22]"

definition mini_event :: MarketEvent where
  "mini_event = MarketEvent_default\<lparr>symbol := ''A'', event_time := ms_to_time 1\<rparr>"

definition mini_line :: string where
  "mini_line = CHR 0x7B # quoted ''event_time_ms'' @ '':1,'' @ quoted ''price'' @ '':0.0,'' @
     quoted ''source'' @ '':'' @ quoted [] @ '','' @ quoted ''symbol'' @ '':'' @ quoted ''A'' @ [CHR 0x7D]"

definition mini_dump :: json_dumper where
  "mini_dump j = (if j = marketEventToJson mini_event then Inr mini_line else ref_dump j)"

lemma mini_line_facts:
  "ref_parse mini_line = Inr (reread (marketEventToJson mini_event))" "mini_line \<noteq> [] \<and> CHR 0x0A \<notin> set mini_line"
  by code_simp+

interpretation mini: json_reader ref_parse mini_dump
proof
  fix j s
  show "json_ok j \<Longrightarrow> \<exists>s. mini_dump j = Inr s" using ref_json.dump_ok by (simp add: mini_dump_def)
  show "json_ok j \<Longrightarrow> mini_dump j = Inr s \<Longrightarrow> s \<noteq> [] \<and> CHR 0x0A \<notin> set s"
    using ref_json.dump_line mini_line_facts(2) by (auto simp: mini_dump_def split: if_splits)
  show "json_ok j \<Longrightarrow> mini_dump j = Inr s \<Longrightarrow> ref_parse s = Inr (reread j)"
    using ref_json.parse_dump mini_line_facts(1) by (auto simp: mini_dump_def split: if_splits)
  show "ref_parse s = Inr j \<Longrightarrow> json_ok j" by (rule ref_json.parse_ok)
  show "ref_parse s = Inr j \<Longrightarrow> finite_floats j" by (rule ref_reader.parse_finite)
qed

abbreviation mini_source :: "(live_input, any_source) source_iface" where
  "mini_source \<equiv> any_iface [''f'' \<mapsto> mini_line @ [newline]] ref_parse"

abbreviation mini_kafka :: "(unit, memory_client KafkaEventProducer) publisher_iface" where
  "mini_kafka \<equiv> kafka_iface (memory_kafka 1) mini_dump"

definition mini_schedule :: "(live_input, unit) service_action list" where
  "mini_schedule = [Main, Thread Owner, Thread Owner, now 1, now 2, now 3, now 4, now 5, now 6] @
     replicate 3 (Thread (Publish ())) @ [Main, Main, Main, Thread Owner, Thread Owner] @
     replicate 2 (Thread (Publish ())) @ [Thread Owner]"

definition mini_service :: "nat \<Rightarrow> (any_source, memory_client KafkaEventProducer) service option" where
  "mini_service n = service_run mini_source mini_kafka mini_dump (take n mini_schedule) (service_new small_pipeline)"

lemma mini_states:
  "\<not> Option.is_none (mini_service 7)" "queue (evq (pipeline (the (mini_service 7)))) = [mini_event\<lparr>ingest_time := 1\<rparr>]"
  "\<not> Option.is_none (mini_service 20)" "service_over (the (mini_service 20))"
  "Option.is_none (terminated (pipeline (the (mini_service 20))))" "started (pipeline (the (mini_service 20)))"
  "mem_log (producer (publisher (pipeline (the (mini_service 20))))) = [(''market-events'', ''A'', mini_line)]"
proof -
  have "case mini_service 7 of None \<Rightarrow> False | Some m \<Rightarrow> queue (evq (pipeline m)) = [mini_event\<lparr>ingest_time := 1\<rparr>]"
    by code_simp
  then show "\<not> Option.is_none (mini_service 7)"
    "queue (evq (pipeline (the (mini_service 7)))) = [mini_event\<lparr>ingest_time := 1\<rparr>]" by (simp_all split: option.splits)
  have "case mini_service 20 of None \<Rightarrow> False | Some m \<Rightarrow>
      service_over m \<and> Option.is_none (terminated (pipeline m)) \<and> started (pipeline m) \<and>
      mem_log (producer (publisher (pipeline m))) = [(''market-events'', ''A'', mini_line)]"
    by code_simp
  then show "\<not> Option.is_none (mini_service 20)" "service_over (the (mini_service 20))"
    "Option.is_none (terminated (pipeline (the (mini_service 20))))" "started (pipeline (the (mini_service 20)))"
    "mem_log (producer (publisher (pipeline (the (mini_service 20))))) = [(''market-events'', ''A'', mini_line)]"
    by (simp_all split: option.splits)
qed

lemma mini_run:
  assumes "\<not> Option.is_none (mini_service n)"
  shows "service_run mini_source mini_kafka mini_dump (take n mini_schedule) (service_new small_pipeline) =
    Some (the (mini_service n))"
  using assms by (simp add: mini_service_def Option.is_none_def)

theorem service_events_well_formed_witness:
  "let e = mini_event\<lparr>ingest_time := 1\<rparr>
   in queue (evq (pipeline (the (mini_service 7)))) = [e] \<and>
      symbol e \<noteq> [] \<and> utf8 (symbol e) \<and> utf8 (source e) \<and> d_finite (price e)"
  unfolding Let_def
  using service_events_well_formed [OF mini.json_reader_axioms small_setup mini_run [OF mini_states(1)],
      of "mini_event\<lparr>ingest_time := 1\<rparr>"] mini_states(2)
  by simp

text \<open>
  C5: from a capture file to the consumer. When the ingestion service replays a capture file and no signal
  interrupts it, then at its end the producer has been handed exactly the events of the valid lines of
  the file, in file order. Take any log that holds copies of the messages which the Kafka client accepted (some of them,
  possibly several times and in another order) among foreign messages, and any reading of it in the
  order of the offsets. The consumer counts as malformed only foreign messages, and the records it yields for our
  messages of a symbol are exactly the accepted events whose copies it reads, in the order of the log; each
  of them is an event of the file; and where the log holds the copies in the order of production, each at most once,
  they are a subsequence of the events of that symbol in the file. Nothing is assumed of the contents of the file but that
  no number in it overflows.
\<close>

theorem capture_file_to_consumer:
  assumes "json_reader parse dump" "rd_kafka_client K kinv enqueued reported"
    and "ingestion_setup env args K writable fs = Inr p0" "parse_args args options_default = Inr opts" "replay_path opts \<noteq> []"
    and "fs0 (replay_path opts) = Some ct" "\<forall>l \<in> set (lines_of ct). no_overflow parse l"
    and "service_run (any_iface fs0 parse) (kafka_iface K dump) dump as (service_new p0) = Some m" "Signal \<notin> set as"
    and "service_over m" "terminated (pipeline m) = None" "started (pipeline m)"
    and "es = map fst (filter snd (handled (pipeline m)))" "msgs = enqueued (producer (publisher (pipeline m)))"
    and "stored_log part msgs logs" "\<forall>n. length (logs n) < 2 ^ 63"
    and "reads_log (\<lambda>n. map (entry_payload msgs) (logs n)) ks is"
    and "\<forall>n payload x. Foreign payload \<in> set (logs n) \<longrightarrow> classify_message parse payload \<noteq> Overflow x"
    and "\<not> con_stop_requested c" "consume_loop parse (map Input is) c = (rs, c', end)"
    and "own = map (\<lambda>r. unstamped (event r)) (filter (\<lambda>r. is_ours logs r \<and> symbol (event r) = sm) rs)"
  shows "\<exists>nows evs. length (lines_of ct) \<le> length nows \<and> evs = concat (map (line_events parse) (zip (lines_of ct) nows)) \<and>
    map fst (handled (pipeline m)) = evs \<and>
    end = None \<and>
    messages_malformed c' = messages_malformed c + of_nat (count_if (\<lambda>i. poll_malformed parse i \<and> \<not> poll_ours logs i) is) \<and>
    own = map (\<lambda>i. captured (es ! i))
      (filter (\<lambda>i. symbol (es ! i) = sm) (own_indices (map ((!) (logs (part sm))) (ks (part sm))))) \<and>
    set own \<subseteq> captured ` {e \<in> set evs. symbol e = sm} \<and>
    (sorted_wrt (<) (own_indices (logs (part sm))) \<longrightarrow> subseq own (map captured (filter (\<lambda>e. symbol e = sm) evs)))"
proof -
  from assms(3) obtain pb rec fs' where new: "KafkaEventProducer_new K (kafka_config env) = Inr pb"
    and p0: "p0 = IngestionPipeline_new (make_source env opts) pb (unat (queue_capacity opts)) rec fs'"
    by (rule ingestion_setup_new) (use assms(4) in auto)
  have src: "make_source env opts = From_replay (ReplaySource_new (replay_path opts))" using assms(5) by (simp add: make_source_def)
  from any.service_runs [OF assms(8) [unfolded p0]] obtain cs where
    run: "runs_from (any_iface fs0 parse) (kafka_iface K dump) dump cs (make_source env opts) pb
      (unat (queue_capacity opts)) rec fs' (pipeline m)" and si: "service_inv any_stop_req m" by blast
  note all = stopped_facts(6) [OF run service_ends_stopped [OF si assms(10-12)]]
  have "main_thread m = M_done" using assms(10,11) by (simp add: service_over_def Option.is_none_def)
  with any.service_undisturbed [OF assms(8) p0 TrueI assms(9)] assms(12)
  obtain q as' where q: "runs_from (any_iface fs0 parse) (kafka_iface K dump) dump as' (make_source env opts) pb
      (unat (queue_capacity opts)) rec fs' q" "Request_stop \<notin> set as'" "started q" "ingest_over q"
    "fetched q = fetched (pipeline m)"
    by (auto simp: read_to_the_end_def undisturbed_def p0)
  from replay_fetches_file [OF assms(6,7) q(1) [unfolded src] q(2-4)] q(5) all
  have whole: "\<exists>nows. length (lines_of ct) \<le> length nows \<and>
      map fst (handled (pipeline m)) = concat (map (line_events parse) (zip (lines_of ct) nows))" by simp
  have "from_replay (make_source env opts)" by (simp add: src from_replay_def)
  from typed_source.held_typed [OF json_reader.replayed_typed [OF assms(1)] run this]
  have ok: "\<forall>h \<in> set (handled (pipeline m)). writable_event (fst h)" by blast
  note enc = published_encodes [OF json_reader.axioms(1) [OF assms(1)] assms(2) new run ok, folded assms(13,14)]
  note reading = order_per_symbol [OF enc assms(15-20)]
  let ?own = "map (\<lambda>i. captured (es ! i)) (filter (\<lambda>i. symbol (es ! i) = sm) (own_indices (map ((!) (logs (part sm))) (ks (part sm)))))"
  have own: "own = ?own" unfolding assms(21) by (rule reading(3))
  have files: "subseq es (map fst (handled (pipeline m)))" unfolding assms(13) by (intro subseq_map subseq_filter_left)
  have "i < length es" if "i \<in> set (own_indices (map ((!) (logs (part sm))) (ks (part sm))))" for i
    using that stored_entry(1) [OF enc assms(15), of i "part sm"] entry_at(2) [OF assms(17), of _ "part sm"]
    by (auto simp: own_indices_set)
  then have "es ! i \<in> set (map fst (handled (pipeline m)))"
    if "i \<in> set (own_indices (map ((!) (logs (part sm))) (ks (part sm))))" for i
    using that nth_mem [of i es] unfolding assms(13) by auto
  then have inside: "set own \<subseteq> captured ` {e \<in> set (map fst (handled (pipeline m))). symbol e = sm}"
    unfolding own by auto
  have order: "subseq own (map captured (filter (\<lambda>e. symbol e = sm) (map fst (handled (pipeline m)))))"
    if "sorted_wrt (<) (own_indices (logs (part sm)))"
    using subseq_order.order_trans [OF reading(4) [OF that] subseq_map [OF subseq_filter [OF files]]] unfolding assms(21) .
  from whole obtain nows where nows: "length (lines_of ct) \<le> length nows"
    "map fst (handled (pipeline m)) = concat (map (line_events parse) (zip (lines_of ct) nows))" by blast
  show ?thesis
    by (intro exI [of _ nows] exI [of _ "map fst (handled (pipeline m))"] conjI impI nows refl own inside order
        reading(1) [THEN conjunct1] reading(1) [THEN conjunct2])
qed

text \<open>The capture file with one line; its message is stored twice, behind a foreign one, and read.\<close>

theorem capture_file_to_consumer_witness:
  "\<exists>rs c'. consume_loop ref_parse (map Input (e2e_polls mini_line)) sample_consumer = (rs, c', None) \<and>
    set (map (\<lambda>r. unstamped (event r)) (filter (\<lambda>r. is_ours e2e_log r \<and> symbol (event r) = ''A'') rs)) \<subseteq>
      captured ` {e \<in> set (map fst (handled (pipeline (the (mini_service 20))))). symbol e = ''A''}"
proof -
  let ?m = "the (mini_service 20)"
  obtain rs c' "end" where loop: "consume_loop ref_parse (map Input (e2e_polls mini_line)) sample_consumer = (rs, c', end)"
    by (metis prod_cases3)
  have lines: "\<forall>l \<in> set (lines_of (mini_line @ [newline])). no_overflow ref_parse l"
  proof -
    have "list_all (\<lambda>l. case classify ref_parse l of Overflow e \<Rightarrow> False | _ \<Rightarrow> True) (lines_of (mini_line @ [newline]))"
      by code_simp
    then show ?thesis by (fastforce simp: list_all_iff)
  qed
  have sched: "Signal \<notin> set (take 20 mini_schedule)" by (auto simp: mini_schedule_def now_def)
  have small: "\<forall>n. length (e2e_log n) < 2 ^ 63" by (simp add: e2e_log_def)
  have foreign: "\<forall>n payload x. Foreign payload \<in> set (e2e_log n) \<longrightarrow> classify_message ref_parse payload \<noteq> Overflow x"
    using e2e_foreign by (metis line_kind.distinct(9))
  have "terminated (pipeline ?m) = None" using mini_states(5) by (simp add: Option.is_none_def)
  moreover have "\<not> con_stop_requested sample_consumer" by (simp add: sample_consumer_def)
  ultimately obtain evs where "map fst (handled (pipeline ?m)) = evs" "end = None"
    "set (map (\<lambda>r. unstamped (event r)) (filter (\<lambda>r. is_ours e2e_log r \<and> symbol (event r) = ''A'') rs)) \<subseteq>
      captured ` {e \<in> set evs. symbol e = ''A''}"
    using capture_file_to_consumer [OF mini.json_reader_axioms memory.rd_kafka_client_axioms small_setup _ _ lines
      mini_run [OF mini_states(3)] sched mini_states(4) _ mini_states(6) refl mini_states(7) [symmetric] e2e_stored small e2e_reads
      foreign _ loop refl, of "''A''"] by (auto simp del: set_map set_filter)
  with loop show ?thesis by (intro exI [of _ rs] exI [of _ c']) (simp del: set_map set_filter)
qed

end
