(* ===== verification/Processes.thy ===== *)
theory Processes
  imports Services
begin

text \<open>
  The consumer service and the ingestion demo have the same shape: the main thread starts one worker
  thread, polls a flag that a signal sets (and that the demo's worker sets when it ends), then calls
  \<^verbatim>\<open>stop()\<close> and joins the worker. This theory models that shape over an interface of the worker, and proves
  from the contract of the worker that the process ends.
\<close>

section \<open>The process\<close>

text \<open>
  One pass of the worker for an input; what \<^verbatim>\<open>stop()\<close> does to it; whether it has ended, has set the
  flag, or has ended the process by an exception.
\<close>

record ('i, 'w) worker_iface =
  w_pass :: "'i \<Rightarrow> 'w \<Rightarrow> 'w"
  w_stop :: "'w \<Rightarrow> 'w"
  w_ended :: "'w \<Rightarrow> bool"
  w_flag :: "'w \<Rightarrow> bool"
  w_dead :: "'w \<Rightarrow> bool"

datatype wait_point = W_wait | W_stop | W_join | W_done

record 'w process =
  wait_thread :: wait_point
  signalled :: bool
  worker :: 'w

definition process_new :: "'w \<Rightarrow> 'w process" where
  "process_new w = \<lparr>wait_thread = W_wait, signalled = False, worker = w\<rparr>"

datatype 'i process_action = Main_thread | Worker_thread 'i | Raise_signal

definition wait_step :: "('i, 'w) worker_iface \<Rightarrow> 'w process \<Rightarrow> 'w process option" where
  "wait_step W p =
     (case wait_thread p of
        W_wait \<Rightarrow> if signalled p \<or> w_flag W (worker p) then Some (p\<lparr>wait_thread := W_stop\<rparr>) else None
      | W_stop \<Rightarrow> Some (p\<lparr>worker := w_stop W (worker p), wait_thread := W_join\<rparr>)
      | W_join \<Rightarrow> if w_ended W (worker p) then Some (p\<lparr>wait_thread := W_done\<rparr>) else None
      | W_done \<Rightarrow> None)"

text \<open>The signal handler, the same in both programs.\<close>

definition process_handleSignal :: "'w process \<Rightarrow> 'w process" where
  [simp]: "process_handleSignal p = p\<lparr>signalled := True\<rparr>"

definition process_do :: "('i, 'w) worker_iface \<Rightarrow> 'i process_action \<Rightarrow> 'w process \<Rightarrow> 'w process option" where
  "process_do W a p =
     (if w_dead W (worker p) then None
      else case a of
        Main_thread \<Rightarrow> wait_step W p
      | Worker_thread i \<Rightarrow> if w_ended W (worker p) then None else Some (p\<lparr>worker := w_pass W i (worker p)\<rparr>)
      | Raise_signal \<Rightarrow> Some (process_handleSignal p))"

fun process_run :: "('i, 'w) worker_iface \<Rightarrow> 'i process_action list \<Rightarrow> 'w process \<Rightarrow> 'w process option" where
  "process_run W [] p = Some p"
| "process_run W (a # as) p = Option.bind (process_do W a p) (process_run W as)"

definition process_over :: "('i, 'w) worker_iface \<Rightarrow> 'w process \<Rightarrow> bool" where
  "process_over W p \<longleftrightarrow> w_dead W (worker p) \<or> wait_thread p = W_done"

section \<open>The contract of the worker\<close>

text \<open>\<^verbatim>\<open>stop()\<close> is remembered, and from then on every pass brings the worker nearer to its end.\<close>

locale stoppable_worker =
  fixes W :: "('i, 'w) worker_iface"
    and stopping :: "'w \<Rightarrow> bool"
    and left :: "'w \<Rightarrow> nat"
  assumes stop_stopping: "stopping (w_stop W w)"
    and pass_stopping: "stopping w \<Longrightarrow> \<not> w_ended W w \<Longrightarrow> stopping (w_pass W i w)"
    and pass_left: "stopping w \<Longrightarrow> \<not> w_ended W w \<Longrightarrow> left (w_pass W i w) < left w"
begin

definition process_work :: "'w process \<Rightarrow> nat" where
  "process_work p = left (worker p) + (if wait_thread p = W_done then 0 else 1)"

definition process_ok :: "'w process \<Rightarrow> bool" where
  "process_ok p \<longleftrightarrow> (wait_thread p \<in> {W_join, W_done} \<longrightarrow> stopping (worker p)) \<and>
     (wait_thread p = W_done \<longrightarrow> w_ended W (worker p))"

lemma do_ok: "process_do W a p = Some p' \<Longrightarrow> process_ok p \<Longrightarrow> process_ok p'"
  using stop_stopping pass_stopping
  by (auto simp: process_do_def wait_step_def process_ok_def split: if_splits process_action.splits wait_point.splits)

lemma run_ok: "process_run W as p = Some p' \<Longrightarrow> process_ok p \<Longrightarrow> process_ok p'"
  by (induction as arbitrary: p) (auto simp: bind_eq_Some_conv intro: do_ok)

lemma new_ok: "process_ok (process_new w)"
  by (simp add: process_ok_def process_new_def)

lemma do_work:
  assumes "process_do W a p = Some p'" "process_ok p" "wait_thread p \<in> {W_join, W_done}"
  shows "wait_thread p' \<in> {W_join, W_done} \<and> process_work p' + (if a = Raise_signal then 0 else 1) \<le> process_work p"
proof (cases a)
  case (Worker_thread i)
  with assms pass_left [of "worker p" i] show ?thesis
    by (auto simp: process_do_def process_ok_def process_work_def split: if_splits)
qed (use assms in \<open>auto simp: process_do_def wait_step_def process_work_def split: if_splits wait_point.splits\<close>)

text \<open>After \<^verbatim>\<open>stop()\<close> the process takes a bounded number of steps, signals not counted.\<close>

lemma run_bounded:
  "\<lbrakk>process_run W as p = Some p'; process_ok p; wait_thread p \<in> {W_join, W_done}\<rbrakk> \<Longrightarrow>
     length (filter (\<lambda>a. a \<noteq> Raise_signal) as) + process_work p' \<le> process_work p"
proof (induction as arbitrary: p)
  case (Cons a as)
  then obtain q where q: "process_do W a p = Some q" "process_run W as q = Some p'" by (auto simp: bind_eq_Some_conv)
  from do_work [OF q(1) Cons.prems(2,3)] Cons.IH [OF q(2) do_ok [OF q(1) Cons.prems(2)]]
  show ?case by (cases "a = Raise_signal") auto
qed simp

text \<open>Once the main thread has a reason to leave its polling loop, the process is over or can move.\<close>

lemma moves:
  assumes "signalled p \<or> w_flag W (worker p) \<or> wait_thread p \<noteq> W_wait" "\<not> process_over W p"
  shows "\<exists>a p'. a \<noteq> Raise_signal \<and> process_do W a p = Some p'"
proof (cases "w_ended W (worker p) \<or> wait_thread p \<noteq> W_join")
  case True
  with assms have "\<exists>p'. process_do W Main_thread p = Some p'"
    by (cases "wait_thread p") (auto simp: process_do_def wait_step_def process_over_def)
  then show ?thesis by blast
next
  case False
  with assms(2) have "process_do W (Worker_thread undefined) p = Some (p\<lparr>worker := w_pass W undefined (worker p)\<rparr>)"
    by (simp add: process_do_def process_over_def)
  then show ?thesis by blast
qed

lemma process_stops:
  assumes "process_run W as (process_new w) = Some p" "signalled p \<or> w_flag W (worker p)"
  shows "(process_over W p \<or> (\<exists>a p'. a \<noteq> Raise_signal \<and> process_do W a p = Some p')) \<and>
    (wait_thread p \<in> {W_join, W_done} \<longrightarrow>
      (\<forall>bs p'. process_run W bs p = Some p' \<longrightarrow>
         length (filter (\<lambda>b. b \<noteq> Raise_signal) bs) \<le> left (worker p) + 1))"
proof -
  have ok: "process_ok p" using run_ok [OF assms(1) new_ok] .
  have "length (filter (\<lambda>b. b \<noteq> Raise_signal) bs) \<le> left (worker p) + 1"
    if "wait_thread p \<in> {W_join, W_done}" "process_run W bs p = Some p'" for bs p'
    using run_bounded [OF that(2) ok that(1)] by (auto simp: process_work_def split: if_splits)
  with moves [of p] assms(2) show ?thesis by blast
qed

end

end
