(* ===== verification/Programs.thy ===== *)
theory Programs
  imports Processes
begin

text \<open>
  The other two programs: the consumer service (\<^verbatim>\<open>services/consumer/main.cpp\<close>), which counts what it
  receives per partition, and the ingestion demo (\<^verbatim>\<open>src/ingestion_demo_main.cpp\<close>), which reads a source
  without a pipeline and records it.
\<close>

section \<open>The consumer service\<close>

definition consumer_config :: "environment \<Rightarrow> KafkaConsumerConfig" where
  "consumer_config env = KafkaConsumerConfig_default\<lparr>
     c_brokers := getEnvOr env ''KAFKA_BOOTSTRAP_SERVERS'' ''localhost:9092'',
     c_topic := getEnvOr env ''KAFKA_TOPIC'' ''market-events'',
     group_id := getEnvOr env ''KAFKA_CONSUMER_GROUP'' ''tickforge-consumer-demo''\<rparr>"

definition consumer_setup :: "environment \<Rightarrow> 'k rd_consumer \<Rightarrow> cpp_exn + 'k KafkaEventConsumer" where
  "consumer_setup env K =
     and_then (KafkaEventConsumer_new K (consumer_config env)) (\<lambda>c.
       case consumer_start K c of (c', None) \<Rightarrow> Inr c' | (c', Some e) \<Rightarrow> Inl e)"

record consumer_counts =
  total :: u64
  per_partition_counts :: "int \<rightharpoonup> u64"

definition no_counts :: consumer_counts where
  "no_counts = \<lparr>total = 0, per_partition_counts = Map.empty\<rparr>"

text \<open>\<^verbatim>\<open>operator[]\<close> of the map inserts a zero for a partition that has no entry yet.\<close>

definition partition_count :: "consumer_counts \<Rightarrow> int \<Rightarrow> u64" where
  "partition_count cs part = (case per_partition_counts cs part of None \<Rightarrow> 0 | Some n \<Rightarrow> n)"

definition count_record :: "ConsumedRecord \<Rightarrow> consumer_counts \<Rightarrow> consumer_counts" where
  "count_record r cs = cs\<lparr>total := total cs + 1,
     per_partition_counts := (per_partition_counts cs)(partition r \<mapsto> partition_count cs (partition r) + 1)\<rparr>"

text \<open>One pass of the thread that consumes, and the thread with the calls of \<^verbatim>\<open>stop()\<close> that the main thread makes.\<close>

definition consume_pass ::
    "json_parser \<Rightarrow> poll_result \<times> i64 \<Rightarrow> consumer_counts \<Rightarrow> 'k KafkaEventConsumer \<Rightarrow>
     consumer_counts \<times> 'k KafkaEventConsumer \<times> consume_result option" where
  "consume_pass parse i cs c =
     (case consumer_step parse i c of
        (c', C_again) \<Rightarrow> (cs, c', None)
      | (c', Record r) \<Rightarrow> (count_record r cs, c', None)
      | (c', e) \<Rightarrow> (cs, c', Some e))"

fun consume_thread ::
    "json_parser \<Rightarrow> (poll_result \<times> i64) tick list \<Rightarrow> consumer_counts \<Rightarrow> 'k KafkaEventConsumer \<Rightarrow>
     consumer_counts \<times> 'k KafkaEventConsumer \<times> consume_result option" where
  "consume_thread parse [] cs c = (cs, c, None)"
| "consume_thread parse (Stop_call # ts) cs c = consume_thread parse ts cs (consumer_stop c)"
| "consume_thread parse (Input i # ts) cs c =
     (case consume_pass parse i cs c of
        (cs', c', None) \<Rightarrow> consume_thread parse ts cs' c'
      | (cs', c', Some e) \<Rightarrow> (cs', c', Some e))"

lemma consume_thread_loop:
  "consume_thread parse ts cs c =
     (case consume_loop parse ts c of (rs, c', e) \<Rightarrow> (fold count_record rs cs, c', e))"
proof (induction ts arbitrary: cs c)
  case (Cons t ts)
  then show ?case
    by (cases t) (auto simp: consume_pass_def split: prod.split consume_result.split)
qed simp

text \<open>The process: the thread as a worker that ends when \<^verbatim>\<open>next()\<close> returns false, and does not set the flag.\<close>

definition consumer_worker ::
    "json_parser \<Rightarrow> (poll_result \<times> i64, consumer_counts \<times> 'k KafkaEventConsumer \<times> consume_result option) worker_iface" where
  "consumer_worker parse =
     \<lparr>w_pass = (\<lambda>i (cs, c, e). consume_pass parse i cs c), w_stop = (\<lambda>(cs, c, e). (cs, consumer_stop c, e)),
      w_ended = (\<lambda>(cs, c, e). e \<noteq> None), w_flag = (\<lambda>_. False),
      w_dead = (\<lambda>(cs, c, e). case e of Some (C_raised x) \<Rightarrow> True | _ \<Rightarrow> False)\<rparr>"

definition consumer_left :: "consumer_counts \<times> 'k KafkaEventConsumer \<times> consume_result option \<Rightarrow> nat" where
  "consumer_left w = (case w of (cs, c, e) \<Rightarrow> if e = None then 1 else 0)"

interpretation consumer_process:
  stoppable_worker "consumer_worker parse" "\<lambda>(cs, c, e). con_stop_requested c" consumer_left
proof
  fix w :: "consumer_counts \<times> 'k KafkaEventConsumer \<times> consume_result option" and i
  obtain cs c e where w: "w = (cs, c, e)" by (cases w)
  show "case w_stop (consumer_worker parse) w of (cs, c, e) \<Rightarrow> con_stop_requested c"
    by (simp add: w consumer_worker_def consumer_stop_def)
  assume "case w of (cs, c, e) \<Rightarrow> con_stop_requested c" "\<not> w_ended (consumer_worker parse) w"
  with w show "case w_pass (consumer_worker parse) i w of (cs, c, e) \<Rightarrow> con_stop_requested c"
    "consumer_left (w_pass (consumer_worker parse) i w) < consumer_left w"
    by (simp_all add: consumer_left_def consumer_worker_def consume_pass_def consumer_step_def)
qed

lemma total_fold: "total (fold count_record rs cs) = total cs + of_nat (length rs)"
  by (induction rs arbitrary: cs) (simp_all add: count_record_def)

lemma partition_fold:
  "partition_count (fold count_record rs cs) part = partition_count cs part + of_nat (count_if (\<lambda>r. partition r = part) rs)"
  by (induction rs arbitrary: cs) (auto simp: count_record_def partition_count_def)

lemma dom_fold:
  "dom (per_partition_counts (fold count_record rs cs)) = dom (per_partition_counts cs) \<union> partition ` set rs"
  by (induction rs arbitrary: cs) (auto simp: count_record_def)

definition sum_counts :: "consumer_counts \<Rightarrow> u64" where
  "sum_counts cs = (\<Sum>part \<in> dom (per_partition_counts cs). partition_count cs part)"

lemma sum_count_record:
  assumes "finite (dom (per_partition_counts cs))"
  shows "sum_counts (count_record r cs) = sum_counts cs + 1"
proof -
  let ?D = "dom (per_partition_counts cs)" and ?p = "partition r"
  have others: "(\<Sum>x \<in> ?D - {?p}. partition_count (count_record r cs) x) = (\<Sum>x \<in> ?D - {?p}. partition_count cs x)"
    by (rule sum.cong) (auto simp: count_record_def partition_count_def)
  have here: "partition_count (count_record r cs) ?p = partition_count cs ?p + 1"
    by (simp add: count_record_def partition_count_def)
  have "sum_counts (count_record r cs) = (\<Sum>x \<in> insert ?p (?D - {?p}). partition_count (count_record r cs) x)"
    by (simp add: sum_counts_def count_record_def)
  also have "\<dots> = partition_count cs ?p + 1 + (\<Sum>x \<in> ?D - {?p}. partition_count cs x)"
    using assms others by (subst sum.insert) (simp_all add: here)
  also have "\<dots> = sum_counts cs + 1"
  proof (cases "?p \<in> ?D")
    case True
    then show ?thesis using sum.remove [OF assms True, of "partition_count cs"] by (simp add: sum_counts_def)
  next
    case False
    then have "partition_count cs ?p = 0" by (simp add: partition_count_def domIff)
    with False show ?thesis by (simp add: sum_counts_def)
  qed
  finally show ?thesis .
qed

lemma sum_fold:
  "finite (dom (per_partition_counts cs)) \<Longrightarrow> sum_counts (fold count_record rs cs) = sum_counts cs + of_nat (length rs)"
proof (induction rs arbitrary: cs)
  case (Cons r rs)
  then have "finite (dom (per_partition_counts (count_record r cs)))" by (simp add: count_record_def)
  from Cons.IH [OF this] sum_count_record [OF Cons.prems, of r] show ?case by simp
qed simp

section \<open>The ingestion demo\<close>

record demo =
  event_count :: u64
  demo_disk :: files
  demo_shutdown :: bool \<comment> \<open>\<^verbatim>\<open>g_shutdown_requested\<close>\<close>

definition demo_new :: "files \<Rightarrow> demo" where
  "demo_new fs = \<lparr>event_count = 0, demo_disk = fs, demo_shutdown = False\<rparr>"

text \<open>
  One pass of the ingestion thread, and the thread with the calls of \<^verbatim>\<open>stop()\<close> of the main thread. It sets
  the flag when it ends, so that the main thread leaves its own loop at the end of a replay; an
  exception ends the process.
\<close>

definition demo_pass ::
    "('i, 's) source_iface \<Rightarrow> json_dumper \<Rightarrow> EventRecorder option \<Rightarrow> 'i \<Rightarrow> demo \<Rightarrow> 's \<Rightarrow>
     demo \<times> 's \<times> next_result option" where
  "demo_pass S dump rec i d s =
     (case src_step S i s of
        (s', Again) \<Rightarrow> (d, s', None)
      | (s', Event e) \<Rightarrow>
          (let d1 = d\<lparr>event_count := event_count d + 1\<rparr>
           in case rec of
                None \<Rightarrow> (d1, s', None)
              | Some r \<Rightarrow>
                  (case record_event dump r e (demo_disk d1) of
                     Inl x \<Rightarrow> (d1, s', Some (Raised x))
                   | Inr fs \<Rightarrow> (d1\<lparr>demo_disk := fs\<rparr>, s', None)))
      | (s', Finished) \<Rightarrow> (d\<lparr>demo_shutdown := True\<rparr>, s', Some Finished)
      | (s', Raised x) \<Rightarrow> (d, s', Some (Raised x)))"

fun demo_thread ::
    "('i, 's) source_iface \<Rightarrow> json_dumper \<Rightarrow> EventRecorder option \<Rightarrow> 'i tick list \<Rightarrow> demo \<Rightarrow> 's \<Rightarrow>
     demo \<times> 's \<times> next_result option" where
  "demo_thread S dump rec [] d s = (d, s, None)"
| "demo_thread S dump rec (Stop_call # ts) d s = demo_thread S dump rec ts d (src_stop S s)"
| "demo_thread S dump rec (Input i # ts) d s =
     (case demo_pass S dump rec i d s of
        (d', s', None) \<Rightarrow> demo_thread S dump rec ts d' s'
      | (d', s', Some r) \<Rightarrow> (d', s', Some r))"

text \<open>The process, with the thread as its worker.\<close>

definition demo_worker ::
    "('i, 's) source_iface \<Rightarrow> json_dumper \<Rightarrow> EventRecorder option \<Rightarrow> ('i, demo \<times> 's \<times> next_result option) worker_iface" where
  "demo_worker S dump rec =
     \<lparr>w_pass = (\<lambda>i (d, s, r). demo_pass S dump rec i d s), w_stop = (\<lambda>(d, s, r). (d, src_stop S s, r)),
      w_ended = (\<lambda>(d, s, r). r \<noteq> None), w_flag = (\<lambda>(d, s, r). demo_shutdown d),
      w_dead = (\<lambda>(d, s, r). case r of Some (Raised x) \<Rightarrow> True | _ \<Rightarrow> False)\<rparr>"

lemma demo_pass_source:
  assumes "src_step S i s = (s', r)"
  shows "fst (snd (demo_pass S dump rec i d s)) = s'"
    "r = Finished \<or> (\<exists>x. r = Raised x) \<Longrightarrow> snd (snd (demo_pass S dump rec i d s)) = Some r"
  using assms by (auto simp: demo_pass_def Let_def split: next_result.split option.split sum.split)

definition demo_left :: "demo \<times> any_source \<times> next_result option \<Rightarrow> nat" where
  "demo_left w = (case w of (d, s, r) \<Rightarrow> if r = None then Suc (any_rank s) else 0)"

interpretation demo_process:
  stoppable_worker "demo_worker (any_iface fs parse) dump rec" "\<lambda>(d, s, r). any_stop_req s" demo_left
proof
  fix w :: "demo \<times> any_source \<times> next_result option" and i
  obtain d s r where w: "w = (d, s, r)" by (cases w)
  show "case w_stop (demo_worker (any_iface fs parse) dump rec) w of (d, s, r) \<Rightarrow> any_stop_req s"
    by (simp add: w demo_worker_def any.stop_sets)
  assume stop: "case w of (d, s, r) \<Rightarrow> any_stop_req s" and run: "\<not> w_ended (demo_worker (any_iface fs parse) dump rec) w"
  obtain s' r' where step: "src_step (any_iface fs parse) i s = (s', r')" by fastforce
  obtain d1 s1 r1 where pass: "demo_pass (any_iface fs parse) dump rec i d s = (d1, s1, r1)" by (metis prod_cases3)
  note src = demo_pass_source [OF step, of dump rec d, unfolded pass fst_conv snd_conv]
  from stop w have req: "any_stop_req s" by simp
  show "case w_pass (demo_worker (any_iface fs parse) dump rec) i w of (d, s, r) \<Rightarrow> any_stop_req s"
    using any.step_stop [OF TrueI step req] src(1) by (simp add: w demo_worker_def pass)
  show "demo_left (w_pass (demo_worker (any_iface fs parse) dump rec) i w) < demo_left w"
    using any.stop_ends [OF TrueI req step] src run by (auto simp: w demo_worker_def pass demo_left_def)
qed

text \<open>\<^verbatim>\<open>main\<close> up to the start of the thread: arguments, source, recorder, \<^verbatim>\<open>source->start()\<close>.\<close>

definition demo_setup ::
    "environment \<Rightarrow> string list \<Rightarrow> (string \<Rightarrow> bool) \<Rightarrow> files \<Rightarrow> cpp_exn + (any_source \<times> EventRecorder option \<times> demo)" where
  "demo_setup env args writable fs =
     (let opts = demo_args args options_default in
      and_then (make_recorder writable (record_path opts) fs) (\<lambda>(rec0, fs').
      case any_start fs' (make_source env opts) of
        (s, None) \<Rightarrow> Inr (s, rec0, demo_new fs')
      | (s, Some e) \<Rightarrow> Inl e))"

text \<open>Without an error of the recorder, the thread counts and records what the reading loop receives.\<close>

lemma demo_reads:
  "read_loop S ts s = (es, s', Some Finished) \<Longrightarrow> record_all dump r es (demo_disk d) = Inr fs' \<Longrightarrow>
     demo_thread S dump (Some r) ts d s =
       (\<lparr>event_count = event_count d + of_nat (length es), demo_disk = fs', demo_shutdown = True\<rparr>, s', Some Finished)"
proof (induction ts arbitrary: d s es)
  case (Cons t ts)
  show ?case
  proof (cases t)
    case (Input i)
    obtain s1 x where step: "src_step S i s = (s1, x)" by fastforce
    show ?thesis
    proof (cases x)
      case (Event e)
      obtain es' s2 x' where rest: "read_loop S ts s1 = (es', s2, x')" by (metis prod_cases3)
      with Cons.prems(1) step Event Input have es: "es = e # es'" "s2 = s'" "x' = Some Finished" by auto
      with Cons.prems(2) obtain fs1 where
        "record_event dump r e (demo_disk d) = Inr fs1" "record_all dump r es' fs1 = Inr fs'"
        by (auto split: sum.splits)
      with Cons.IH [of s1 es' "d\<lparr>event_count := event_count d + 1, demo_disk := fs1\<rparr>"] rest es step Event Input
      show ?thesis by (simp add: demo_pass_def)
    next
      case Again
      with Cons.IH [of s1 es d] Cons.prems step Input show ?thesis by (simp add: demo_pass_def)
    qed (use Cons.prems step Input in \<open>auto simp: demo_pass_def\<close>)
  next
    case Stop_call
    with Cons.IH [of "src_stop S s" es d] Cons.prems show ?thesis by simp
  qed
qed simp

section \<open>Properties\<close>

text \<open>
  The consumer service counts correctly. For any sequence of polls before \<^verbatim>\<open>stop()\<close>, the thread ends
  at the next pass with a total that is the number of messages the consumer has counted and the
  number of records yielded, with the number of records of each partition in the map, with an entry
  for exactly the partitions that occurred, and with these entries adding up to the total.
\<close>

lemma consumer_service_counts:
  assumes "consumer_setup env K = Inr c" "\<forall>i \<in> set is. poll_ok parse i"
  shows "\<exists>cs c'. consume_thread parse (map Input is @ Stop_call # Input j # ts) no_counts c = (cs, c', Some C_finished) \<and>
    total cs = messages_consumed c' \<and> total cs = of_nat (length (concat (map (poll_records parse) is))) \<and>
    dom (per_partition_counts cs) = partition ` set (concat (map (poll_records parse) is)) \<and>
    (\<forall>part. partition_count cs part =
       of_nat (count_if (\<lambda>r. partition r = part) (concat (map (poll_records parse) is)))) \<and>
    sum_counts cs = total cs"
proof -
  let ?rs = "concat (map (poll_records parse) is)"
  have c: "\<not> con_stop_requested c" "messages_consumed c = 0"
    using assms(1)
    by (auto simp: consumer_setup_def KafkaEventConsumer_new_def setConfOrThrow_def and_then_def consumer_start_def
        split: sum.splits option.splits prod.splits)
  from consume_polls [OF c(1) assms(2), of "Stop_call # Input j # ts"] c(2)
  have "\<exists>c'. consume_thread parse (map Input is @ Stop_call # Input j # ts) no_counts c =
      (fold count_record ?rs no_counts, c', Some C_finished) \<and> messages_consumed c' = of_nat (length ?rs)"
    by (simp add: consume_thread_loop Let_def consumer_stop_def consumer_step_def)
  then show ?thesis
    using total_fold [of ?rs no_counts] partition_fold [of ?rs no_counts] dom_fold [of ?rs no_counts] sum_fold [of no_counts ?rs]
    by (auto simp: no_counts_def partition_count_def sum_counts_def)
qed

definition plain_consumer :: "unit rd_consumer" where
  "plain_consumer = \<lparr>con_conf_set = (\<lambda>_ _. None), con_new = (\<lambda>_. Inr ()), subscribe = (\<lambda>_ k. (None, k)),
     consumer_close = id, con_destroy = id\<rparr>"

definition plain_started :: "unit KafkaEventConsumer" where
  "plain_started = sample_consumer\<lparr>cconfig := consumer_config (\<lambda>_. None)\<rparr>"

lemma consumer_service_counts_witness:
  "\<exists>cs c'. consume_thread ref_parse (map Input sample_polls @ Stop_call # Input (Poll_timeout, 9) # []) no_counts plain_started =
      (cs, c', Some C_finished) \<and> total cs = 1 \<and> dom (per_partition_counts cs) = {2} \<and> partition_count cs 2 = 1"
proof -
  have ok: "\<forall>i \<in> set sample_polls. poll_ok ref_parse i"
    by (simp add: sample_polls_def poll_ok_def sample_message_kinds)
  have "consumer_setup (\<lambda>_. None) plain_consumer = Inr plain_started"
    by (simp add: consumer_setup_def KafkaEventConsumer_new_def setConfOrThrow_def and_then_def consumer_start_def
        plain_consumer_def plain_started_def sample_consumer_def)
  from consumer_service_counts [OF this ok, of "(Poll_timeout, 9)" "[]"] show ?thesis
    by (auto simp: sample_polls_def poll_records_def sample_message_kinds count_if_def)
qed

text \<open>
  C33: the demo with \<^verbatim>\<open>--record\<close> captures what it reads. When the loop over its source ends, the thread
  has counted every event, has told the main thread to finish, and has left a capture file that
  replays as exactly these events.
\<close>

theorem demo_captures_source:
  assumes "json_codec parse dump" "read_loop S ts s = (es, s', Some Finished)" "\<forall>e \<in> set es. writable_event e"
    and "make_recorder writable f fs = Inr (Some r, fs0)" "fs f = None" "length es < length nows"
  shows "\<exists>d s1 s2. demo_thread S dump (Some r) ts (demo_new fs0) s = (d, s', Some Finished) \<and>
    event_count d = of_nat (length es) \<and> demo_shutdown d \<and>
    ReplaySource_start (demo_disk d) (ReplaySource_new f) = (s1, None) \<and>
    read_loop (replay_iface (demo_disk d) parse) (map Input nows) s1 =
      (map2 (\<lambda>e now. (captured e)\<lparr>ingest_time := now\<rparr>) es nows, s2, Some Finished)"
proof -
  from assms(4) have "EventRecorder_new writable f fs = Inr (r, fs0)"
    by (auto simp: make_recorder_def split: if_splits sum.splits)
  from recorded_replays [OF assms(1,3,6) _ this] assms(5) obtain fs' s1 s2 where
    rec: "record_all dump r es fs0 = Inr fs'" and replay: "ReplaySource_start fs' (ReplaySource_new f) = (s1, None)"
      "read_loop (replay_iface fs' parse) (map Input nows) s1 =
        (map2 (\<lambda>e now. (captured e)\<lparr>ingest_time := now\<rparr>) es nows, s2, Some Finished)" by blast
  from demo_reads [OF assms(2), of dump r "demo_new fs0"] rec replay show ?thesis by (simp add: demo_new_def)
qed

theorem demo_captures_source_witness:
  "\<exists>d s'. demo_thread (replay_iface [''f'' \<mapsto> tiny_capture] tiny_parse) ref_dump (Some \<lparr>out = ''g''\<rparr>)
      (map Input [1, 2, 3, 4]) (demo_new [''g'' \<mapsto> []]) ((ReplaySource_new ''f'')\<lparr>ins := Good tiny_capture\<rparr>) =
      (d, s', Some Finished) \<and> event_count d = 1 \<and> demo_shutdown d"
proof -
  let ?S = "replay_iface [''f'' \<mapsto> tiny_capture] tiny_parse" and ?s = "(ReplaySource_new ''f'')\<lparr>ins := Good tiny_capture\<rparr>"
  let ?e = "(captured sample_event)\<lparr>ingest_time := 3\<rparr>"
  obtain s' where loop: "read_loop ?S (map Input [1, 2, 3, 4]) ?s = ([?e], s', Some Finished)"
  proof -
    have "case read_loop ?S (map Input [1, 2, 3, 4]) ?s of (es, s', r) \<Rightarrow> es = [?e] \<and> r = Some Finished" by code_simp
    then show thesis using that by (auto split: prod.splits)
  qed
  have "writable_event ?e" by code_simp
  moreover have "make_recorder (\<lambda>_. True) ''g'' Map.empty = Inr (Some \<lparr>out = ''g''\<rparr>, [''g'' \<mapsto> []])"
    by (simp add: make_recorder_def EventRecorder_new_def)
  ultimately show ?thesis
    using demo_captures_source [OF ref_json.json_codec_axioms loop, of "\<lambda>_. True" "''g''" Map.empty "\<lparr>out = ''g''\<rparr>"
        "[''g'' \<mapsto> []]" "[1, 2]"]
    by auto
qed

text \<open>
  The demo ends. Once a signal has come or the ingestion thread has ended, the process is over or
  can take a step, in every state it can reach; and once the main thread has called \<^verbatim>\<open>stop()\<close> on the
  source, it is over after a bounded number of steps, for the live source as for a replay.
\<close>

lemma demo_process_stops:
  assumes "demo_setup env args writable fs = Inr (s, rec, d)"
    and "process_run (demo_worker (any_iface fs0 parse) dump rec) as (process_new (d, s, None)) = Some p"
    and "signalled p \<or> demo_shutdown (fst (worker p))"
  shows "(process_over (demo_worker (any_iface fs0 parse) dump rec) p \<or>
      (\<exists>a p'. a \<noteq> Raise_signal \<and> process_do (demo_worker (any_iface fs0 parse) dump rec) a p = Some p')) \<and>
    (wait_thread p \<in> {W_join, W_done} \<longrightarrow>
      (\<forall>bs p'. process_run (demo_worker (any_iface fs0 parse) dump rec) bs p = Some p' \<longrightarrow>
         length (filter (\<lambda>b. b \<noteq> Raise_signal) bs) \<le> demo_left (worker p) + 1))"
proof (rule demo_process.process_stops [OF assms(2)])
  show "signalled p \<or> w_flag (demo_worker (any_iface fs0 parse) dump rec) (worker p)"
    using assms(3) by (auto simp: demo_worker_def split: prod.splits)
qed

definition demo_at :: "i64 \<Rightarrow> live_input process_action" where
  "demo_at t = Worker_thread \<lparr>connect_error = None, received = None, clock = t\<rparr>"

text \<open>The demo on a small capture file, which ends by itself.\<close>

definition small_demo :: "(demo \<times> any_source \<times> next_result option) process option" where
  "small_demo = process_run (demo_worker (any_iface [''f'' \<mapsto> tiny_capture] tiny_parse) sample_dump None)
     [demo_at 1, demo_at 2, demo_at 3, demo_at 4, Main_thread, Main_thread]
     (process_new (demo_new [''f'' \<mapsto> tiny_capture], From_replay ((ReplaySource_new ''f'')\<lparr>ins := Good tiny_capture\<rparr>), None))"

lemma demo_process_stops_witness:
  "\<exists>p. small_demo = Some p \<and> wait_thread p = W_join \<and>
    (process_over (demo_worker (any_iface [''f'' \<mapsto> tiny_capture] tiny_parse) sample_dump None) p \<or>
     (\<exists>a p'. a \<noteq> Raise_signal \<and>
        process_do (demo_worker (any_iface [''f'' \<mapsto> tiny_capture] tiny_parse) sample_dump None) a p = Some p'))"
proof -
  have "case small_demo of None \<Rightarrow> False | Some p \<Rightarrow> wait_thread p = W_join \<and> demo_shutdown (fst (worker p))"
    by code_simp
  then obtain p where run: "small_demo = Some p" and p: "wait_thread p = W_join" "demo_shutdown (fst (worker p))"
    unfolding option.case_eq_if by (metis option.exhaust_sel)
  have ready: "demo_setup (\<lambda>_. None) [''--replay'', ''f''] (\<lambda>_. True) [''f'' \<mapsto> tiny_capture] =
      Inr (From_replay ((ReplaySource_new ''f'')\<lparr>ins := Good tiny_capture\<rparr>), None, demo_new [''f'' \<mapsto> tiny_capture])"
    by (simp add: demo_setup_def options_default_def make_recorder_def and_then_def make_source_def any_start_def
        ReplaySource_start_def ReplaySource_new_def)
  from demo_process_stops [OF ready run [unfolded small_demo_def]] p run show ?thesis by blast
qed

text \<open>
  C32: the consumer service ends on a signal. Once a signal has come, and until the process is over, the main
  thread leaves its polling loop and then calls \<^verbatim>\<open>stop()\<close>, each as soon as it is scheduled and whatever the consuming
  thread does; when it waits in the join, either the consuming thread has ended, and the main thread's next step ends
  the process, or the next pass of the consuming thread, whatever its poll returns, is its last one and the main
  thread's step after it ends the process. From the call of \<^verbatim>\<open>stop()\<close> on there are at most two more steps.
\<close>

theorem consumer_process_stops:
  assumes "consumer_setup env K = Inr c"
    and "process_run (consumer_worker parse) as (process_new (no_counts, c, None)) = Some p" "signalled p"
  shows "(\<not> process_over (consumer_worker parse) p \<longrightarrow>
      (case wait_thread p of
         W_wait \<Rightarrow> \<exists>p'. process_do (consumer_worker parse) Main_thread p = Some p' \<and> wait_thread p' = W_stop
       | W_stop \<Rightarrow> \<exists>p'. process_do (consumer_worker parse) Main_thread p = Some p' \<and> wait_thread p' = W_join
       | W_join \<Rightarrow> (\<exists>p'. process_do (consumer_worker parse) Main_thread p = Some p' \<and> process_over (consumer_worker parse) p') \<or>
           (\<forall>i. \<exists>q p'. process_do (consumer_worker parse) (Worker_thread i) p = Some q \<and>
              process_do (consumer_worker parse) Main_thread q = Some p' \<and> process_over (consumer_worker parse) p')
       | W_done \<Rightarrow> False)) \<and>
    (wait_thread p \<in> {W_join, W_done} \<longrightarrow>
      (\<forall>bs p'. process_run (consumer_worker parse) bs p = Some p' \<longrightarrow>
         length (filter (\<lambda>b. b \<noteq> Raise_signal) bs) \<le> 2))"
proof -
  have ok: "consumer_process.process_ok parse p"
    using consumer_process.run_ok [OF assms(2)] consumer_process.new_ok by blast
  have "consumer_left w \<le> 1" for w :: "consumer_counts \<times> 'a KafkaEventConsumer \<times> consume_result option"
    by (simp add: consumer_left_def split: prod.split)
  then have "consumer_left (worker p) + 1 \<le> 2" by (simp add: numeral_2_eq_2)
  then have "length (filter (\<lambda>b. b \<noteq> Raise_signal) bs) \<le> 2"
    if "wait_thread p \<in> {W_join, W_done}" "process_run (consumer_worker parse) bs p = Some p'" for bs p'
    using consumer_process.process_stops [OF assms(2)] assms(3) that by (meson le_trans)
  moreover obtain cs c1 e where w: "worker p = (cs, c1, e)" by (cases "worker p")
  moreover have "wait_thread p \<in> {W_join, W_done} \<Longrightarrow> con_stop_requested c1"
    using ok w by (simp add: consumer_process.process_ok_def)
  ultimately show ?thesis
    using assms(3)
    by (cases "wait_thread p"; cases e)
      (auto simp: process_over_def process_do_def wait_step_def consumer_worker_def consume_pass_def consumer_step_def
        split: consume_result.splits)
qed

text \<open>The signal comes after one pass; the main thread has left its loop and called \<^verbatim>\<open>stop()\<close>.\<close>

theorem consumer_process_stops_witness:
  "\<exists>p. process_run (consumer_worker ref_parse) [Worker_thread (Poll_timeout, 1), Raise_signal, Main_thread, Main_thread]
      (process_new (no_counts, plain_started, None)) = Some p \<and> wait_thread p = W_join \<and>
    (\<forall>i. \<exists>q p'. process_do (consumer_worker ref_parse) (Worker_thread i) p = Some q \<and>
       process_do (consumer_worker ref_parse) Main_thread q = Some p' \<and> process_over (consumer_worker ref_parse) p')"
proof -
  have ready: "consumer_setup (\<lambda>_. None) plain_consumer = Inr plain_started"
    by (simp add: consumer_setup_def KafkaEventConsumer_new_def setConfOrThrow_def and_then_def consumer_start_def
        plain_consumer_def plain_started_def sample_consumer_def)
  obtain p where p: "process_run (consumer_worker ref_parse) [Worker_thread (Poll_timeout, 1), Raise_signal, Main_thread, Main_thread]
      (process_new (no_counts, plain_started, None)) = Some p" "signalled p" "wait_thread p = W_join"
    "\<not> process_over (consumer_worker ref_parse) p" "process_do (consumer_worker ref_parse) Main_thread p = None"
    by (simp add: process_do_def wait_step_def process_new_def process_over_def consumer_worker_def consume_pass_def
        consumer_step_def plain_started_def sample_consumer_def)
  from consumer_process_stops [OF ready p(1,2)] p(3-5) p(1) show ?thesis by auto
qed

end
