(* ===== verification/Reports.thy ===== *)
theory Reports
  imports Event_Types Programs
begin

text \<open>
  The reports of the programs. \<^verbatim>\<open>IngestionPipeline::stats()\<close> reads three atomic counters and then
  takes the lock of the queue, one after the other, while both threads of the pipeline run on; the loop of
  \<^verbatim>\<open>main\<close> prints what it returns every two seconds, with the counters of the producer and the depth of the
  queue read after it. So the numbers of one report belong to different moments of the run. The consumer
  service prints every twentieth record and a summary at its end. What is modelled is which values are
  printed, in which order; the text around them is in \<^verbatim>\<open>Terminal_Output\<close>.
\<close>

section \<open>Reading\<close>

text \<open>The states in which the members of \<^verbatim>\<open>Stats\<close> are read, in the order of the code.\<close>

definition stats_read ::
    "('s, 'p) IngestionPipeline \<Rightarrow> ('s, 'p) IngestionPipeline \<Rightarrow> ('s, 'p) IngestionPipeline \<Rightarrow>
     ('s, 'p) IngestionPipeline \<Rightarrow> Stats" where
  "stats_read p1 p2 p3 p4 =
     \<lparr>st_received = events_received p1, st_published = events_published p2, st_failures = publish_failures p3,
      st_high_water_mark = highWaterMark (evq p4), st_capacity = capacity (evq p4)\<rparr>"

lemma stats_read_at_rest: "stats_read p p p p = stats p"
  by (simp add: stats_read_def stats_def)

record Report =
  rp_stats :: Stats
  rp_delivered :: u64
  rp_delivery_failed :: u64
  rp_queue_depth :: nat

definition report_read ::
    "('s, 'k KafkaEventProducer) IngestionPipeline \<Rightarrow> ('s, 'k KafkaEventProducer) IngestionPipeline \<Rightarrow>
     ('s, 'k KafkaEventProducer) IngestionPipeline \<Rightarrow> ('s, 'k KafkaEventProducer) IngestionPipeline \<Rightarrow>
     ('s, 'k KafkaEventProducer) IngestionPipeline \<Rightarrow> ('s, 'k KafkaEventProducer) IngestionPipeline \<Rightarrow>
     ('s, 'k KafkaEventProducer) IngestionPipeline \<Rightarrow> Report" where
  "report_read p1 p2 p3 p4 p5 p6 p7 =
     \<lparr>rp_stats = stats_read p1 p2 p3 p4, rp_delivered = delivery_successes (publisher p5),
      rp_delivery_failed = delivery_failures (publisher p6), rp_queue_depth = queueDepth p7\<rparr>"

section \<open>What the counters count\<close>

text \<open>The events that a thread has received or handled and not counted yet.\<close>

definition uncounted_in :: "('s, 'p) IngestionPipeline \<Rightarrow> nat" where
  "uncounted_in p = (case ingest_thread p of I_count e \<Rightarrow> 1 | _ \<Rightarrow> 0)"

definition uncounted_out :: "bool \<Rightarrow> ('s, 'p) IngestionPipeline \<Rightarrow> nat" where
  "uncounted_out ok p = (if publish_thread p = P_count ok then 1 else 0)"

definition outcomes :: "bool \<Rightarrow> ('s, 'p) IngestionPipeline \<Rightarrow> nat" where
  "outcomes ok p = count_if (\<lambda>h. snd h = ok) (handled p)"

definition counted :: "bool \<Rightarrow> ('s, 'p) IngestionPipeline \<Rightarrow> nat" where
  "counted ok p = outcomes ok p - uncounted_out ok p"

definition pending_inv :: "('s, 'p) IngestionPipeline \<Rightarrow> bool" where
  "pending_inv p \<longleftrightarrow> (\<forall>ok. publish_thread p = P_count ok \<longrightarrow> handled p \<noteq> [] \<and> snd (last (handled p)) = ok)"

lemma pending_step:
  assumes "pstep S P dump a p p'" "pending_inv p"
  shows "pending_inv p'"
  using assms(1)
proof (cases rule: pstep_cases)
  case call
  from assms(1) call show ?thesis by (cases rule: call_cases) (use assms(2) in \<open>simp_all add: pending_inv_def\<close>)
next
  case owner
  from owner(2) assms(2) show ?thesis by (cases rule: owner_cases) (simp_all add: pending_inv_def)
next
  case (ingest i)
  from ingest(2) assms(2) show ?thesis by (cases rule: ingest_cases) (simp_all add: pending_inv_def)
next
  case (publish j)
  from publish(2) assms(2) show ?thesis by (cases rule: publish_cases) (simp_all add: pending_inv_def)
qed

lemma pending_runs: "pruns S P dump as p p' \<Longrightarrow> pending_inv p \<Longrightarrow> pending_inv p'"
  by (induction rule: pruns.induct) (auto intro: pending_step)

lemma runs_pending: "runs_from S P dump as s pb c rec fs p \<Longrightarrow> pending_inv p"
  by (rule pending_runs) (auto simp: pending_inv_def IngestionPipeline_new_def)

lemma uncounted_le:
  assumes "pending_inv p"
  shows "uncounted_out ok p \<le> outcomes ok p"
proof (cases "publish_thread p = P_count ok")
  case True
  with assms have "handled p \<noteq> []" "snd (last (handled p)) = ok" by (simp_all add: pending_inv_def)
  then have "filter (\<lambda>h. snd h = ok) (handled p) \<noteq> []" using last_in_set by (auto simp: filter_empty_conv)
  with True show ?thesis by (simp add: uncounted_out_def outcomes_def count_if_def Suc_leI)
qed (simp add: uncounted_out_def)

lemma outcomes_total: "outcomes True p + outcomes False p = length (handled p)"
  using sum_length_filter_compl [of snd "handled p"] by (simp add: outcomes_def count_if_def)

lemma counters:
  assumes "runs_from S P dump as s pb c rec fs p" "length (fetched p) < 2 ^ 64"
  shows "unat (events_received p) + uncounted_in p = length (fetched p)"
    "unat (events_published p) = counted True p" "unat (publish_failures p) = counted False p"
proof -
  note inv = runs_inv(2,4) [OF assms(1)]
  have small: "length (handled p) \<le> length (fetched p)" using inv(1) unfolding flow_inv_def by (metis length_append length_map le_add1)
  have nat: "unat w + n = m" if "w + of_nat n = of_nat m" "n \<le> m" "m < 2 ^ 64" for w :: u64 and n m
  proof -
    note eqs = that
    obtain k where k: "m = n + k" using le_Suc_ex [OF eqs(2)] by blast
    with eqs(1) have "w = of_nat k" by simp
    moreover have "unat (of_nat k :: u64) = k" using k eqs(3) by (simp add: unat_of_nat)
    ultimately show ?thesis using k by simp
  qed
  have "length (ingest_hand p) \<le> length (fetched p)"
    using inv(1) unfolding flow_inv_def by (metis append_assoc le_add2 length_append)
  then have "uncounted_in p \<le> length (fetched p)"
    by (cases "ingest_thread p") (simp_all add: uncounted_in_def ingest_hand_def)
  moreover have "events_received p + of_nat (uncounted_in p) = of_nat (length (fetched p))"
    using inv(2) by (cases "ingest_thread p") (simp_all add: count_inv_def uncounted_in_def)
  ultimately show "unat (events_received p) + uncounted_in p = length (fetched p)" using nat assms(2) by blast
  have "outcomes True p < 2 ^ 64" "outcomes False p < 2 ^ 64"
    using outcomes_total [of p] small assms(2) by linarith+
  note le = uncounted_le [OF runs_pending [OF assms(1)]] this
  have "events_published p + of_nat (uncounted_out True p) = of_nat (outcomes True p)"
    "publish_failures p + of_nat (uncounted_out False p) = of_nat (outcomes False p)"
    using inv(2) by (auto simp: count_inv_def uncounted_out_def outcomes_def)
  from nat [OF this(1) le(1,2)] nat [OF this(2) le(1,3)]
  show "unat (events_published p) = counted True p" "unat (publish_failures p) = counted False p" by (simp_all add: counted_def)
qed

section \<open>The counters only grow\<close>

lemma step_grows:
  assumes "pstep S P dump a p p'" "pending_inv p"
  shows "prefix (fetched p) (fetched p') \<and> prefix (handled p) (handled p') \<and> counted ok p \<le> counted ok p'"
  using assms(1)
proof (cases rule: pstep_cases)
  case call
  from assms(1) call show ?thesis
    by (cases rule: call_cases) (simp_all add: counted_def outcomes_def uncounted_out_def)
next
  case owner
  from owner(2) show ?thesis
    by (cases rule: owner_cases) (auto simp: counted_def outcomes_def uncounted_out_def)
next
  case (ingest i)
  from ingest(2) show ?thesis
    by (cases rule: ingest_cases) (simp_all add: counted_def outcomes_def uncounted_out_def)
next
  case (publish j)
  note le = uncounted_le [OF assms(2), of ok]
  from publish(2) show ?thesis
    by (cases rule: publish_cases) (use le in \<open>auto simp: counted_def outcomes_def uncounted_out_def\<close>)
qed

lemma runs_grow:
  assumes "pruns S P dump as p p'" "pending_inv p"
  shows "prefix (fetched p) (fetched p') \<and> prefix (handled p) (handled p') \<and> counted ok p \<le> counted ok p'"
  using assms
proof (induction rule: pruns.induct)
  case (pruns_Snoc as p p' a p'')
  from pruns_Snoc.IH [OF pruns_Snoc.prems] step_grows [OF pruns_Snoc.hyps(2) pending_runs [OF pruns_Snoc.hyps(1) pruns_Snoc.prems], of ok]
  show ?case by (meson le_trans prefix_order.trans)
qed simp

lemma runs_continue: "pruns S P dump bs p q \<Longrightarrow> pruns S P dump as p0 p \<Longrightarrow> pruns S P dump (as @ bs) p0 q"
proof (induction arbitrary: as rule: pruns.induct)
  case (pruns_Snoc bs p p' b p'')
  from pruns.pruns_Snoc [OF pruns_Snoc.IH [OF pruns_Snoc.prems] pruns_Snoc.hyps(2)] show ?case by simp
qed simp

lemma outcomes_mono: "prefix (handled p) (handled q) \<Longrightarrow> outcomes ok p \<le> outcomes ok q"
  by (auto simp: prefix_def outcomes_def)

section \<open>The output of the consumer service\<close>

text \<open>The records the consuming thread prints (\<^verbatim>\<open>total % 20 == 1\<close> after the increment), along its loop.\<close>

fun consume_output ::
    "json_parser \<Rightarrow> (poll_result \<times> i64) tick list \<Rightarrow> consumer_counts \<Rightarrow> 'k KafkaEventConsumer \<Rightarrow> ConsumedRecord list" where
  "consume_output parse [] cs c = []"
| "consume_output parse (Stop_call # ts) cs c = consume_output parse ts cs (consumer_stop c)"
| "consume_output parse (Input i # ts) cs c =
     (case consumer_step parse i c of
        (c', C_again) \<Rightarrow> consume_output parse ts cs c'
      | (c', Record r) \<Rightarrow>
          (let cs' = count_record r cs
           in (if total cs' mod 20 = 1 then [r] else []) @ consume_output parse ts cs' c')
      | (c', e) \<Rightarrow> [])"

text \<open>The summary: the total, the malformed messages, and the entries of the map in the order of its keys.\<close>

record consumer_summary =
  cs_total :: u64
  cs_malformed :: u64
  cs_partitions :: "(int \<times> u64) list"

definition consumer_summary_of :: "consumer_counts \<Rightarrow> 'k KafkaEventConsumer \<Rightarrow> consumer_summary" where
  "consumer_summary_of cs c =
     \<lparr>cs_total = total cs, cs_malformed = messages_malformed c,
      cs_partitions = map (\<lambda>part. (part, partition_count cs part)) (sorted_list_of_set (dom (per_partition_counts cs)))\<rparr>"

lemma word_mod_20: "(w :: u64) mod 20 = 1 \<longleftrightarrow> unat w mod 20 = 1"
proof -
  have "unat (w mod 20) = unat w mod 20" by (simp add: unat_mod_distrib)
  then show ?thesis by (simp add: word_unat_eq_iff)
qed

lemma output_sampled:
  "unat (total cs) + length (fst (consume_loop parse ts c)) < 2 ^ 64 \<Longrightarrow>
    consume_output parse ts cs c = nths (fst (consume_loop parse ts c)) {i. (unat (total cs) + i) mod 20 = 0}"
proof (induction ts arbitrary: cs c)
  case (Cons t ts)
  show ?case
  proof (cases t)
    case (Input i)
    obtain c' x where step: "consumer_step parse i c = (c', x)" by fastforce
    show ?thesis
    proof (cases x)
      case (Record r)
      obtain rs c'' e where rest: "consume_loop parse ts c' = (rs, c'', e)" by (metis prod_cases3)
      with Cons.prems Input step Record have len: "unat (total cs) + Suc (length rs) < 2 ^ 64" by simp
      then have more: "unat (total (count_record r cs)) = Suc (unat (total cs))"
        by (simp add: count_record_def unat_word_ariths)
      from Cons.IH [of "count_record r cs" c'] len rest more
      have "consume_output parse ts (count_record r cs) c' = nths rs {i. (Suc (unat (total cs)) + i) mod 20 = 0}" by simp
      moreover have "Suc n mod 20 = 1 \<longleftrightarrow> n mod 20 = 0" for n :: nat by presburger
      ultimately show ?thesis using Input step Record rest more
        by (simp add: nths_Cons word_mod_20 Let_def)
    qed (use Cons Input step in auto)
  next
    case Stop_call
    with Cons show ?thesis by simp
  qed
qed simp

section \<open>Properties\<close>

text \<open>
  C27: what a report of \<^verbatim>\<open>stats()\<close> says, although its members are read at different moments while the threads
  run on. The number received is the number of events fetched at the moment it was read, at most one event behind;
  published is the number of \<^verbatim>\<open>publish\<close> calls that had returned true at the moment it was read, and failed the number of those
  that had returned false, each at most one call behind. Published and
  failed together never exceed the events handled when the last of them was read, and miss at most one of
  those handled when the report began; the high-water mark and the depth are within the capacity, which is
  the configured one. With fewer than 2 to the 64 events, no counter wraps. It does not follow that
  published and failed together are at most received: the witness has a report where they are more.
\<close>

theorem stats_report_bounds:
  assumes "runs_from S P dump as s pb c rec fs p1" "pruns S P dump bs p1 p2" "pruns S P dump cs p2 p3" "pruns S P dump ds p3 p4"
    and "length (fetched p4) < 2 ^ 64"
  shows "unat (st_received (stats_read p1 p2 p3 p4)) \<le> length (fetched p1) \<and>
    length (fetched p1) \<le> unat (st_received (stats_read p1 p2 p3 p4)) + 1 \<and>
    unat (st_published (stats_read p1 p2 p3 p4)) \<le> count_if snd (handled p2) \<and>
    count_if snd (handled p2) \<le> unat (st_published (stats_read p1 p2 p3 p4)) + 1 \<and>
    unat (st_failures (stats_read p1 p2 p3 p4)) \<le> count_if (\<lambda>h. \<not> snd h) (handled p3) \<and>
    count_if (\<lambda>h. \<not> snd h) (handled p3) \<le> unat (st_failures (stats_read p1 p2 p3 p4)) + 1 \<and>
    unat (st_published (stats_read p1 p2 p3 p4)) + unat (st_failures (stats_read p1 p2 p3 p4)) \<le> length (handled p3) \<and>
    length (handled p1) \<le> unat (st_published (stats_read p1 p2 p3 p4)) + unat (st_failures (stats_read p1 p2 p3 p4)) + 1 \<and>
    queueDepth p4 \<le> st_high_water_mark (stats_read p1 p2 p3 p4) \<and> st_high_water_mark (stats_read p1 p2 p3 p4) \<le> c \<and>
    st_capacity (stats_read p1 p2 p3 p4) = c"
proof -
  note r2 = runs_continue [OF assms(2,1)]
  note r3 = runs_continue [OF assms(3) r2]
  note r4 = runs_continue [OF assms(4) r3]
  note g12 = runs_grow [OF assms(2) runs_pending [OF assms(1)]]
  note g23 = runs_grow [OF assms(3) runs_pending [OF r2]]
  note g34 = runs_grow [OF assms(4) runs_pending [OF r3]]
  have len: "length (fetched p1) < 2 ^ 64" "length (fetched p2) < 2 ^ 64" "length (fetched p3) < 2 ^ 64"
    using g12 g23 g34 assms(5) by (meson le_less_trans prefix_length_le)+
  note n1 = counters [OF assms(1) len(1)] and n2 = counters [OF r2 len(2)] and n3 = counters [OF r3 len(3)]
  have "uncounted_in p1 \<le> 1" by (simp add: uncounted_in_def split: ingest_point.split)
  then have received: "unat (events_received p1) \<le> length (fetched p1)" "length (fetched p1) \<le> unat (events_received p1) + 1"
    using n1(1) by linarith+
  have each: "unat (events_published p2) \<le> count_if snd (handled p2)" "count_if snd (handled p2) \<le> unat (events_published p2) + 1"
    "unat (publish_failures p3) \<le> count_if (\<lambda>h. \<not> snd h) (handled p3)"
    "count_if (\<lambda>h. \<not> snd h) (handled p3) \<le> unat (publish_failures p3) + 1"
    unfolding n2(2) n3(3) by (auto simp: counted_def outcomes_def uncounted_out_def)
  have "counted True p2 \<le> outcomes True p3" "counted False p3 \<le> outcomes False p3"
    using outcomes_mono [of p2 p3 True] g23 by (auto simp: counted_def)
  then have upper: "unat (events_published p2) + unat (publish_failures p3) \<le> length (handled p3)"
    unfolding n2(2) n3(3) using outcomes_total [of p3] by linarith
  have "uncounted_out True p1 + uncounted_out False p1 \<le> 1" by (simp add: uncounted_out_def)
  then have "length (handled p1) \<le> counted True p1 + counted False p1 + 1"
    using outcomes_total [of p1] unfolding counted_def by linarith
  moreover have "counted True p1 \<le> counted True p2" "counted False p1 \<le> counted False p3" using g12 g23 le_trans by blast+
  ultimately have lower: "length (handled p1) \<le> unat (events_published p2) + unat (publish_failures p3) + 1"
    unfolding n2(2) n3(3) by linarith
  show ?thesis
    using received each upper lower runs_inv(3) [OF r4]
    by (simp add: stats_read_def bound_inv_def bq_inv_def queueDepth_def bq_size_def highWaterMark_def)
qed

text \<open>A report on the run of the tests that begins before the first event and ends after its publication.\<close>

lemma do_actions_append:
  "do_actions S P dump (as @ bs) p = Option.bind (do_actions S P dump as p) (do_actions S P dump bs)"
proof (induction bs rule: rev_induct)
  case Nil
  then show ?case by (cases "do_actions S P dump as p") (simp_all add: do_actions_def)
next
  case (snoc b bs)
  have "do_actions S P dump (as @ bs @ [b]) p = Option.bind (do_actions S P dump (as @ bs) p) (do_action S P dump b)"
    using do_actions_snoc [of S P dump "as @ bs"] by simp
  with snoc show ?case by (cases "do_actions S P dump as p") (simp_all add: do_actions_snoc)
qed

lemma sample_between:
  assumes "\<not> Option.is_none (sample_run m)" "\<not> Option.is_none (sample_run n)" "take n sample_schedule = take m sample_schedule @ bs"
  shows "pruns infinite_iface fake_publisher_iface ref_dump bs (the (sample_run m)) (the (sample_run n))"
  using assms by (auto simp: do_actions_pruns [symmetric] do_actions_append Option.is_none_def)

lemma sample_report:
  "\<not> Option.is_none (sample_run 3)" "\<not> Option.is_none (sample_run 11)" "\<not> Option.is_none (sample_run 14)"
  "take 11 sample_schedule = take 3 sample_schedule @ replicate 8 (Ingest ())"
  "take 14 sample_schedule = take 11 sample_schedule @ replicate 3 (Publish ())"
  "length (fetched (the (sample_run 14))) = 2"
  "st_received (stats_read (the (sample_run 3)) (the (sample_run 11)) (the (sample_run 14)) (the (sample_run 14))) = 0"
  "st_failures (stats_read (the (sample_run 3)) (the (sample_run 11)) (the (sample_run 14)) (the (sample_run 14))) = 1"
  by code_simp+

theorem stats_report_bounds_witness:
  "let p1 = the (sample_run 3); p2 = the (sample_run 11); p3 = the (sample_run 14); r = stats_read p1 p2 p3 p3
   in unat (st_received r) \<le> length (fetched p1) \<and> unat (st_published r) \<le> count_if snd (handled p2) \<and>
      unat (st_failures r) \<le> count_if (\<lambda>h. \<not> snd h) (handled p3) \<and> unat (st_published r) + unat (st_failures r) \<le> length (handled p3) \<and>
      length (handled p1) \<le> unat (st_published r) + unat (st_failures r) + 1 \<and> st_high_water_mark r \<le> 4 \<and> st_capacity r = 4 \<and>
      st_received r < st_failures r"
proof -
  have "length (fetched (the (sample_run 14))) < 2 ^ 64" using sample_report(6) by simp
  from stats_report_bounds [OF sample_runs [OF sample_report(1)] sample_between [OF sample_report(1,2,4)]
      sample_between [OF sample_report(2,3,5)] pruns_Nil this]
  show ?thesis unfolding Let_def using sample_report(7,8) by simp
qed

text \<open>
  C31: what the consumer service prints. Of the records it receives it prints the first and then every
  twentieth; and its summary, after \<^verbatim>\<open>stop()\<close>, gives the number of records and of malformed messages, and
  one line for each partition that occurred, in ascending order, with the number of its records; these numbers
  add up to the total.
\<close>

theorem consumer_report:
  assumes "consumer_setup env K = Inr c" "\<forall>i \<in> set is. poll_ok parse i" "rs = concat (map (poll_records parse) is)"
    and "length rs < 2 ^ 64"
  shows "consume_output parse (map Input is @ Stop_call # Input j # ts) no_counts c = nths rs {i. i mod 20 = 0} \<and>
    (\<exists>cs c'. consume_thread parse (map Input is @ Stop_call # Input j # ts) no_counts c = (cs, c', Some C_finished) \<and>
      cs_total (consumer_summary_of cs c') = of_nat (length rs) \<and>
      cs_malformed (consumer_summary_of cs c') = of_nat (count_if (poll_malformed parse) is) \<and>
      sorted_wrt (<) (map fst (cs_partitions (consumer_summary_of cs c'))) \<and>
      set (cs_partitions (consumer_summary_of cs c')) =
        (\<lambda>r. (partition r, of_nat (count_if (\<lambda>r'. partition r' = partition r) rs))) ` set rs \<and>
      sum_list (map snd (cs_partitions (consumer_summary_of cs c'))) = cs_total (consumer_summary_of cs c'))"
proof -
  let ?ts = "map Input is @ Stop_call # Input j # ts" and ?cs = "fold count_record rs no_counts"
  have c: "\<not> con_stop_requested c" "messages_malformed c = 0"
    using assms(1)
    by (auto simp: consumer_setup_def KafkaEventConsumer_new_def setConfOrThrow_def and_then_def consumer_start_def
        split: sum.splits option.splits prod.splits)
  from consume_polls [OF c(1) assms(2), of "Stop_call # Input j # ts"] c(2) assms(3)
  obtain c' where loop: "consume_loop parse ?ts c = (rs, c', Some C_finished)"
    and c': "messages_malformed c' = of_nat (count_if (poll_malformed parse) is)"
    by (simp add: Let_def consumer_stop_def consumer_step_def)
  have sampled: "consume_output parse ?ts no_counts c = nths rs {i. i mod 20 = 0}"
    using output_sampled [of no_counts parse ?ts c] loop assms(4) by (simp add: no_counts_def)
  have thread: "consume_thread parse ?ts no_counts c = (?cs, c', Some C_finished)"
    by (simp add: consume_thread_loop loop)
  have dom: "dom (per_partition_counts ?cs) = partition ` set rs" using dom_fold [of rs no_counts] by (simp add: no_counts_def)
  have count: "partition_count ?cs part = of_nat (count_if (\<lambda>r. partition r = part) rs)" for part
    using partition_fold [of rs no_counts] by (simp add: no_counts_def partition_count_def)
  have "sum_list (map (partition_count ?cs) (sorted_list_of_set (dom (per_partition_counts ?cs)))) = sum_counts ?cs"
    unfolding sum_counts_def by (subst sum_list_distinct_conv_sum_set) (simp_all add: dom)
  also have "\<dots> = total ?cs" using sum_fold [of no_counts rs] total_fold [of rs no_counts] by (simp add: no_counts_def sum_counts_def)
  finally have sum: "sum_list (map snd (cs_partitions (consumer_summary_of ?cs c'))) = cs_total (consumer_summary_of ?cs c')"
    by (simp add: consumer_summary_of_def o_def)
  have "set (cs_partitions (consumer_summary_of ?cs c')) =
      (\<lambda>r. (partition r, of_nat (count_if (\<lambda>r'. partition r' = partition r) rs))) ` set rs"
    by (auto simp: consumer_summary_of_def dom count image_image)
  moreover have "sorted_wrt (<) (map fst (cs_partitions (consumer_summary_of ?cs c')))"
    by (simp add: consumer_summary_of_def o_def dom strict_sorted_list_of_set)
  moreover have "cs_total (consumer_summary_of ?cs c') = of_nat (length rs)" "cs_malformed (consumer_summary_of ?cs c') = messages_malformed c'"
    using total_fold [of rs no_counts] by (simp_all add: consumer_summary_of_def no_counts_def)
  ultimately show ?thesis using sampled thread sum c' by (intro conjI exI [of _ ?cs] exI [of _ c']) simp_all
qed

theorem consumer_report_witness:
  "\<exists>cs c'. consume_thread ref_parse (map Input sample_polls @ Stop_call # Input (Poll_timeout, 9) # []) no_counts plain_started =
      (cs, c', Some C_finished) \<and>
    cs_total (consumer_summary_of cs c') = 1 \<and> cs_malformed (consumer_summary_of cs c') = 1 \<and>
    set (cs_partitions (consumer_summary_of cs c')) = {(2, 1)}"
proof -
  have ok: "\<forall>i \<in> set sample_polls. poll_ok ref_parse i"
    by (simp add: sample_polls_def poll_ok_def sample_message_kinds)
  have new: "consumer_setup (\<lambda>_. None) plain_consumer = Inr plain_started"
    by (simp add: consumer_setup_def KafkaEventConsumer_new_def setConfOrThrow_def and_then_def consumer_start_def
        plain_consumer_def plain_started_def sample_consumer_def)
  let ?rs = "[\<lparr>event = (captured sample_event)\<lparr>ingest_time := 4\<rparr>, partition = 2, offset = 41\<rparr>]"
  have rs: "concat (map (poll_records ref_parse) sample_polls) = ?rs"
    by (simp add: sample_polls_def poll_records_def sample_message_kinds)
  have bad: "count_if (poll_malformed ref_parse) sample_polls = 1"
    by (simp add: sample_polls_def poll_malformed_def sample_message_kinds)
  from consumer_report [OF new ok rs [symmetric], of "(Poll_timeout, 9)" "[]"] bad show ?thesis by auto
qed

end
