(* ===== verification/Terminal_Output.thy ===== *)
theory Terminal_Output
  imports Stream_Format Reports
begin

text \<open>
  The text the three programs write to \<^verbatim>\<open>std::cout\<close>, line by line as the code composes it. The lines of the ingestion
  service and of the consumer service are functions of the values in \<^verbatim>\<open>Reports\<close>; for the ingestion demo the output of
  the whole process is followed along a schedule of its two threads.
\<close>

section \<open>The ingestion demo\<close>

definition line :: "string \<Rightarrow> string" where
  "line s = s @ [newline]"

definition show_u64 :: "u64 \<Rightarrow> string" where
  "show_u64 w = show_nat (unat w)"

definition demo_mode_line :: "environment \<Rightarrow> options \<Rightarrow> string" where
  "demo_mode_line env opts =
     (if replay_path opts \<noteq> [] then line (''Mode: replay ('' @ replay_path opts @ '')'')
      else line (''Mode: live (wss://'' @ host LiveSourceConfig_default @ '':'' @ port LiveSourceConfig_default @
        '', symbols: '' @ getEnvOr env ''TICKFORGE_SYMBOLS'' ''btcusdt,ethusdt'' @ '')''))"

definition recording_line :: "string \<Rightarrow> string" where
  "recording_line f = (if f = [] then [] else line (''Recording captured events to: '' @ f))"

text \<open>Before the thread starts; the second line comes after the file has been opened.\<close>

definition demo_setup_output :: "environment \<Rightarrow> string list \<Rightarrow> (string \<Rightarrow> bool) \<Rightarrow> files \<Rightarrow> string" where
  "demo_setup_output env args writable fs =
     (let opts = demo_args args options_default
      in demo_mode_line env opts @
         (case make_recorder writable (record_path opts) fs of
            Inl x \<Rightarrow> []
          | Inr _ \<Rightarrow> recording_line (record_path opts)))"

definition demo_sample_line :: "u64 \<Rightarrow> MarketEvent \<Rightarrow> string" where
  "demo_sample_line n e = line (''['' @ show_u64 n @ ''] '' @ symbol e @ '' price='' @ ostream_double (price e) @
     '' event_time_ms='' @ show_int (sint (time_to_ms (event_time e))) @ '' seq='' @
     (case provider_sequence e of Some k \<Rightarrow> show_u64 k | None \<Rightarrow> ''n/a'') @ '' source='' @ source e)"

definition demo_finished_line :: "u64 \<Rightarrow> string" where
  "demo_finished_line n = line (''Ingestion loop finished ('' @ show_u64 n @ '' events total).'')"

definition demo_shutdown_line :: string where
  "demo_shutdown_line = [newline] @ line ''Shutdown requested, stopping source...''"

text \<open>What one pass of the ingestion thread prints: nothing if the recorder throws before.\<close>

definition demo_pass_output ::
    "('i, 's) source_iface \<Rightarrow> json_dumper \<Rightarrow> EventRecorder option \<Rightarrow> 'i \<Rightarrow> demo \<Rightarrow> 's \<Rightarrow> string" where
  "demo_pass_output S dump rec i d s =
     (case src_step S i s of
        (s', Event e) \<Rightarrow>
          (let n = event_count d + 1
           in case rec of
                None \<Rightarrow> if n mod 20 = 1 then demo_sample_line n e else []
              | Some r \<Rightarrow>
                  (case record_event dump r e (demo_disk d) of
                     Inl x \<Rightarrow> []
                   | Inr fs \<Rightarrow> if n mod 20 = 1 then demo_sample_line n e else []))
      | (s', Finished) \<Rightarrow> demo_finished_line (event_count d)
      | _ \<Rightarrow> [])"

definition demo_prints ::
    "('i, 's) source_iface \<Rightarrow> json_dumper \<Rightarrow> EventRecorder option \<Rightarrow> 'i process_action \<Rightarrow>
     (demo \<times> 's \<times> next_result option) process \<Rightarrow> string" where
  "demo_prints S dump rec a p =
     (case a of
        Main_thread \<Rightarrow> if wait_thread p = W_stop then demo_shutdown_line else []
      | Worker_thread i \<Rightarrow> (case worker p of (d, s, r) \<Rightarrow> demo_pass_output S dump rec i d s)
      | Raise_signal \<Rightarrow> [])"

fun demo_output ::
    "('i, 's) source_iface \<Rightarrow> json_dumper \<Rightarrow> EventRecorder option \<Rightarrow> 'i process_action list \<Rightarrow>
     (demo \<times> 's \<times> next_result option) process \<Rightarrow> string" where
  "demo_output S dump rec [] p = []"
| "demo_output S dump rec (a # as) p =
     (case process_do (demo_worker S dump rec) a p of
        None \<Rightarrow> []
      | Some p' \<Rightarrow> demo_prints S dump rec a p @ demo_output S dump rec as p')"

section \<open>The consumer service\<close>

definition consumer_config_line :: "KafkaConsumerConfig \<Rightarrow> string" where
  "consumer_config_line c = line (''Kafka: '' @ c_brokers c @ '' topic='' @ c_topic c @ '' group='' @ group_id c @
     '' auto.offset.reset='' @ auto_offset_reset c)"

definition consumer_sample_line :: "ConsumedRecord \<Rightarrow> string" where
  "consumer_sample_line r = line (''[partition '' @ show_int (partition r) @ '' offset '' @ show_int (sint (offset r)) @ ''] '' @
     symbol (event r) @ '' price='' @ ostream_double (price (event r)))"

definition consumer_summary_text :: "consumer_summary \<Rightarrow> string" where
  "consumer_summary_text s =
     line (''Total consumed: '' @ show_u64 (cs_total s) @ '' (malformed: '' @ show_u64 (cs_malformed s) @ '')'') @
     line ''Per-partition counts (every event for one symbol always lands in the same partition):'' @
     concat (map (\<lambda>(part, n). line (''  partition '' @ show_int part @ '': '' @ show_u64 n @ '' events'')) (cs_partitions s))"

section \<open>The ingestion service\<close>

definition service_source_line :: "environment \<Rightarrow> options \<Rightarrow> string" where
  "service_source_line env opts =
     (if replay_path opts \<noteq> [] then line (''Source: replay ('' @ replay_path opts @ '')'')
      else line (''Source: live (wss://'' @ host LiveSourceConfig_default @ '':'' @ port LiveSourceConfig_default @
        '', symbols: '' @ getEnvOr env ''TICKFORGE_SYMBOLS'' ''btcusdt,ethusdt'' @ '')''))"

definition service_kafka_line :: "environment \<Rightarrow> options \<Rightarrow> string" where
  "service_kafka_line env opts = line (''Kafka: '' @ brokers (kafka_config env) @ '' topic='' @ topic (kafka_config env) @
     '' queue_capacity='' @ show_u64 (queue_capacity opts))"

definition stats_line :: "Report \<Rightarrow> string" where
  "stats_line r = line (''[stats] received='' @ show_u64 (st_received (rp_stats r)) @
     '' published(local)='' @ show_u64 (st_published (rp_stats r)) @
     '' publish_failures(local)='' @ show_u64 (st_failures (rp_stats r)) @
     '' delivered(broker)='' @ show_u64 (rp_delivered r) @ '' delivery_failed(broker)='' @ show_u64 (rp_delivery_failed r) @
     '' queue_depth='' @ show_nat (rp_queue_depth r) @ ''/'' @ show_nat (st_capacity (rp_stats r)) @
     '' queue_high_water_mark='' @ show_nat (st_high_water_mark (rp_stats r)))"

definition service_shutdown_line :: string where
  "service_shutdown_line = [newline] @ line ''Shutdown requested, stopping pipeline...''"

text \<open>The last line, after \<^verbatim>\<open>stop()\<close> has returned and no thread of the pipeline runs.\<close>

definition final_stats_line :: "('s, 'k KafkaEventProducer) IngestionPipeline \<Rightarrow> string" where
  "final_stats_line p =
     (let s = stats p
      in line (''Final stats: received='' @ show_u64 (st_received s) @
        '' published(local)='' @ show_u64 (st_published s) @
        '' publish_failures(local)='' @ show_u64 (st_failures s) @
        '' delivered(broker)='' @ show_u64 (delivery_successes (publisher p)) @
        '' delivery_failed(broker)='' @ show_u64 (delivery_failures (publisher p)) @
        '' queue_high_water_mark='' @ show_nat (st_high_water_mark s) @ ''/'' @ show_nat (st_capacity s)))"

section \<open>The output of the demo\<close>

text \<open>The sample lines of events after the first \<open>n\<close>.\<close>

fun sample_lines :: "nat \<Rightarrow> MarketEvent list \<Rightarrow> string" where
  "sample_lines n [] = []"
| "sample_lines n (e # es) = (if n mod 20 = 0 then demo_sample_line (of_nat (Suc n)) e else []) @ sample_lines (Suc n) es"

fun worker_inputs :: "'i process_action list \<Rightarrow> 'i list" where
  "worker_inputs [] = []"
| "worker_inputs (Worker_thread i # as) = i # worker_inputs as"
| "worker_inputs (a # as) = worker_inputs as"

lemma demo_dead:
  "process_run (demo_worker S dump rec) as p = Some p' \<Longrightarrow> worker p = (d, s, Some (Raised x)) \<Longrightarrow> as = [] \<and> p' = p"
  by (cases as) (simp_all add: process_do_def demo_worker_def)

text \<open>Once the thread has ended, what is left is the main thread.\<close>

lemma demo_output_ended:
  "process_run (demo_worker S dump rec) as p = Some p' \<Longrightarrow> wait_thread p' = W_done \<Longrightarrow> Raise_signal \<notin> set as \<Longrightarrow>
     worker p = (d, s, Some Finished) \<Longrightarrow>
     worker_inputs as = [] \<and>
     demo_output S dump rec as p = (if wait_thread p \<in> {W_wait, W_stop} then demo_shutdown_line else [])"
proof (induction as arbitrary: p s)
  case (Cons a as)
  then obtain p1 where p1: "process_do (demo_worker S dump rec) a p = Some p1" "process_run (demo_worker S dump rec) as p1 = Some p'"
    by (auto simp: bind_eq_Some_conv)
  from p1(1) Cons.prems(3,4) have a: "a = Main_thread" "wait_step (demo_worker S dump rec) p = Some p1"
    by (auto simp: process_do_def demo_worker_def split: process_action.splits if_splits)
  from a(2) Cons.prems(4) obtain s1 where w: "worker p1 = (d, s1, Some Finished)"
    by (auto simp: wait_step_def demo_worker_def split: wait_point.splits if_splits)
  from Cons.IH [OF p1(2) Cons.prems(2) _ w] Cons.prems(3) a p1(1) show ?case
    by (auto simp: demo_prints_def wait_step_def split: wait_point.splits if_splits)
qed simp

lemma sampled_count: "Suc n < 2 ^ 64 \<Longrightarrow> (of_nat n + 1 :: u64) mod 20 = 1 \<longleftrightarrow> n mod 20 = 0"
proof -
  assume "Suc n < 2 ^ 64"
  then have "unat (of_nat n + 1 :: u64) = Suc n" by (simp add: unat_word_ariths unat_of_nat take_bit_nat_eq_self)
  then have "(of_nat n + 1 :: u64) mod 20 = 1 \<longleftrightarrow> Suc n mod 20 = 1" by (simp only: word_mod_20)
  then show ?thesis by presburger
qed

lemma sample_lines_nth:
  "sample_lines n es =
     concat (map (\<lambda>i. demo_sample_line (of_nat (Suc (n + i))) (es ! i)) (filter (\<lambda>i. (n + i) mod 20 = 0) [0..<length es]))"
proof (induction es arbitrary: n)
  case (Cons e es)
  have "[0..<length (e # es)] = 0 # map Suc [0..<length es]" by (metis length_Cons map_Suc_upt upt_conv_Cons zero_less_Suc)
  with Cons show ?case by (simp add: filter_map o_def)
qed simp

lemma read_loop_length: "read_loop S ts s = (es, s', r) \<Longrightarrow> length es \<le> length ts"
proof (induction ts arbitrary: s es)
  case (Cons t ts)
  show ?case
  proof (cases t)
    case (Input i)
    obtain s1 x where step: "src_step S i s = (s1, x)" by fastforce
    obtain es1 s2 x2 where rest: "read_loop S ts s1 = (es1, s2, x2)" by (metis prod_cases3)
    from Cons.IH [of s1 es1] Cons.prems Input step rest show ?thesis by (cases x) auto
  next
    case Stop_call
    with Cons.IH [of "src_stop S s" es] Cons.prems show ?thesis by simp
  qed
qed simp

text \<open>A pass of the thread, by what \<^verbatim>\<open>next()\<close> returns.\<close>

lemma demo_pass_event:
  assumes "src_step S i s = (s', Event e)" "demo_pass S dump rec i d s = (d1, s1, None)"
  shows "s1 = s' \<and> event_count d1 = event_count d + 1 \<and> demo_shutdown d1 = demo_shutdown d \<and>
    demo_pass_output S dump rec i d s = (if (event_count d + 1) mod 20 = 1 then demo_sample_line (event_count d + 1) e else [])"
  using assms by (auto simp: demo_pass_def demo_pass_output_def Let_def split: option.splits sum.splits)

lemma demo_output_runs:
  "process_run (demo_worker S dump rec) as p = Some p' \<Longrightarrow> wait_thread p' = W_done \<Longrightarrow> Raise_signal \<notin> set as \<Longrightarrow>
     worker p = (d, s, None) \<Longrightarrow> wait_thread p = W_wait \<Longrightarrow> \<not> signalled p \<Longrightarrow> \<not> demo_shutdown d \<Longrightarrow> event_count d = of_nat n \<Longrightarrow>
     \<exists>es s'. read_loop S (map Input (worker_inputs as)) s = (es, s', Some Finished) \<and>
       (n + length es < 2 ^ 64 \<longrightarrow> demo_output S dump rec as p =
          sample_lines n es @ demo_finished_line (of_nat (n + length es)) @ demo_shutdown_line)"
proof (induction as arbitrary: p d s n)
  case (Cons a as)
  let ?W = "demo_worker S dump rec"
  from Cons.prems(1) obtain p1 where p1: "process_do ?W a p = Some p1" "process_run ?W as p1 = Some p'"
    by (auto simp: bind_eq_Some_conv)
  from p1(1) Cons.prems(3-7) obtain i where a: "a = Worker_thread i" and w1: "worker p1 = demo_pass S dump rec i d s"
    and m1: "wait_thread p1 = W_wait" "\<not> signalled p1"
    by (cases a) (auto simp: process_do_def wait_step_def demo_worker_def split: if_splits)
  obtain s1 r where step: "src_step S i s = (s1, r)" by fastforce
  obtain d2 s2 r2 where pass: "demo_pass S dump rec i d s = (d2, s2, r2)" by (metis prod_cases3)
  have out: "demo_output S dump rec (a # as) p = demo_pass_output S dump rec i d s @ demo_output S dump rec as p1"
    using p1(1) by (simp add: a demo_prints_def Cons.prems(4))
  have sig: "Raise_signal \<notin> set as" using Cons.prems(3) by simp
  have alive: "r2 \<noteq> Some (Raised x)" for x
    using demo_dead [OF p1(2)] w1 pass m1(1) Cons.prems(2) by auto
  show ?case
  proof (cases r)
    case (Event e)
    have "r2 = None" using step Event pass alive by (auto simp: demo_pass_def Let_def split: option.splits sum.splits)
    with demo_pass_event [OF step [unfolded Event]] pass have
      d2: "s2 = s1" "event_count d2 = of_nat (Suc n)" "\<not> demo_shutdown d2" and
      line1: "demo_pass_output S dump rec i d s = (if (of_nat n + 1 :: u64) mod 20 = 1 then demo_sample_line (of_nat (Suc n)) e else [])"
      using Cons.prems(7,8) by (auto simp: add.commute)
    from Cons.IH [OF p1(2) Cons.prems(2) sig _ m1 d2(3,2)] w1 pass \<open>r2 = None\<close> d2(1) obtain es s' where
      rest: "read_loop S (map Input (worker_inputs as)) s1 = (es, s', Some Finished)"
      "Suc n + length es < 2 ^ 64 \<longrightarrow> demo_output S dump rec as p1 =
         sample_lines (Suc n) es @ demo_finished_line (of_nat (Suc n + length es)) @ demo_shutdown_line" by auto
    then show ?thesis using step Event a out line1 sampled_count [of n] by (intro exI [of _ "e # es"] exI [of _ s']) auto
  next
    case Again
    with step pass have d2: "s2 = s1" "d2 = d" "r2 = None" and quiet: "demo_pass_output S dump rec i d s = []"
      by (auto simp: demo_pass_def demo_pass_output_def)
    from Cons.IH [OF p1(2) Cons.prems(2) sig _ m1 Cons.prems(7,8), of s1] w1 pass d2 step Again a out quiet
    show ?thesis by auto
  next
    case Finished
    with step pass have d2: "r2 = Some Finished" and last: "demo_pass_output S dump rec i d s = demo_finished_line (of_nat n)"
      using Cons.prems(8) by (auto simp: demo_pass_def demo_pass_output_def)
    from demo_output_ended [OF p1(2) Cons.prems(2) sig, of d2 s2] w1 pass d2 m1(1) step Finished a out last
    show ?thesis by auto
  next
    case (Raised x)
    with step pass alive show ?thesis by (auto simp: demo_pass_def)
  qed
qed simp

section \<open>Properties\<close>

text \<open>
  C34: what the demo prints when no signal comes. Whatever the schedule of its two threads, if the process
  ends, its source has ended, and after the lines of the set-up the output is: a sample line for the
  first and then every twentieth event, with its number; the line with the number of events read; the line of
  the main thread. No line is printed out of this order.
\<close>

theorem demo_prints_all:
  assumes "demo_setup env args writable fs = Inr (s, rec, d)"
    and "process_run (demo_worker S dump rec) as (process_new (d, s, None)) = Some p"
    and "wait_thread p = W_done" "Raise_signal \<notin> set as" "length (worker_inputs as) < 2 ^ 64"
  shows "\<exists>es s'. read_loop S (map Input (worker_inputs as)) s = (es, s', Some Finished) \<and>
    demo_output S dump rec as (process_new (d, s, None)) =
      concat (map (\<lambda>i. demo_sample_line (of_nat (Suc i)) (es ! i)) (filter (\<lambda>i. i mod 20 = 0) [0..<length es])) @
      demo_finished_line (of_nat (length es)) @ demo_shutdown_line"
proof -
  have d: "event_count d = of_nat 0" "\<not> demo_shutdown d"
    using assms(1) by (auto simp: demo_setup_def and_then_def demo_new_def Let_def split: sum.splits prod.splits option.splits)
  from demo_output_runs [OF assms(2-4), of d s 0] d obtain es s' where
    es: "read_loop S (map Input (worker_inputs as)) s = (es, s', Some Finished)"
    "length es < 2 ^ 64 \<longrightarrow> demo_output S dump rec as (process_new (d, s, None)) =
       sample_lines 0 es @ demo_finished_line (of_nat (length es)) @ demo_shutdown_line"
    by (auto simp: process_new_def)
  have "length es \<le> length (worker_inputs as)" using read_loop_length [OF es(1)] by simp
  with assms(5) es sample_lines_nth [of 0 es] show ?thesis by (intro exI [of _ es] exI [of _ s']) simp
qed

text \<open>The demo on the small capture file, to its end: it has one event, which is printed.\<close>

definition whole_demo :: "live_input process_action list" where
  "whole_demo = [demo_at 1, demo_at 2, demo_at 3, demo_at 4, Main_thread, Main_thread, Main_thread]"

abbreviation tiny_source :: "(live_input, any_source) source_iface" where
  "tiny_source \<equiv> any_iface [''f'' \<mapsto> tiny_capture] tiny_parse"

abbreviation tiny_demo :: "(demo \<times> any_source \<times> next_result option) process" where
  "tiny_demo \<equiv> process_new (demo_new [''f'' \<mapsto> tiny_capture], From_replay ((ReplaySource_new ''f'')\<lparr>ins := Good tiny_capture\<rparr>), None)"

theorem demo_prints_all_witness:
  "\<exists>es. length es = 1 \<and> demo_output tiny_source sample_dump None whole_demo tiny_demo =
    demo_sample_line 1 (es ! 0) @ demo_finished_line 1 @ demo_shutdown_line"
proof -
  let ?s = "From_replay ((ReplaySource_new ''f'')\<lparr>ins := Good tiny_capture\<rparr>)"
  have "case process_run (demo_worker tiny_source sample_dump None) whole_demo tiny_demo of None \<Rightarrow> False | Some p \<Rightarrow> wait_thread p = W_done"
    by code_simp
  then obtain p where p: "process_run (demo_worker tiny_source sample_dump None) whole_demo tiny_demo = Some p" "wait_thread p = W_done"
    by (auto split: option.splits)
  have quiet: "Raise_signal \<notin> set whole_demo" and len: "length (worker_inputs whole_demo) < 2 ^ 64"
    by (simp_all add: whole_demo_def demo_at_def)
  have ready: "demo_setup (\<lambda>_. None) [''--replay'', ''f''] (\<lambda>_. True) [''f'' \<mapsto> tiny_capture] = Inr (?s, None, demo_new [''f'' \<mapsto> tiny_capture])"
    by (simp add: demo_setup_def options_default_def make_recorder_def and_then_def make_source_def any_start_def
        ReplaySource_start_def ReplaySource_new_def)
  from demo_prints_all [OF ready p quiet len] obtain es s' where
    es: "read_loop tiny_source (map Input (worker_inputs whole_demo)) ?s = (es, s', Some Finished)"
    "demo_output tiny_source sample_dump None whole_demo tiny_demo =
      concat (map (\<lambda>i. demo_sample_line (of_nat (Suc i)) (es ! i)) (filter (\<lambda>i. i mod 20 = 0) [0..<length es])) @
      demo_finished_line (of_nat (length es)) @ demo_shutdown_line" by blast
  have "case read_loop tiny_source (map Input (worker_inputs whole_demo)) ?s of (es, s', r) \<Rightarrow> length es = 1" by code_simp
  with es show ?thesis by (intro exI [of _ es]) simp
qed

text \<open>
  C35: the price in the sample lines. Where the demo and the consumer print an event with a finite price, the
  text after \<^verbatim>\<open>price=\<close> is the sign and a decimal number that differs from the price by at most five millionths of
  it: six digits are right, the others are not printed.
\<close>

theorem printed_price_close:
  assumes "d_finite (price e)"
  shows "\<exists>before digits after. demo_sample_line n e =
      before @ '' price='' @ (if d_neg (price e) then ''-'' else []) @ digits @ '' event_time_ms='' @ after \<and>
    (\<forall>r. event r = e \<longrightarrow> (\<exists>front. consumer_sample_line r =
      front @ '' price='' @ (if d_neg (price e) then ''-'' else []) @ digits @ [newline])) \<and>
    \<bar>text_value digits - mag_value (d_mag (price e))\<bar> \<le> 5 / 10 ^ 6 * mag_value (d_mag (price e))"
proof -
  have "\<not> d_nan (price e)" using assms nan_not_finite by blast
  with assms have shown: "ostream_double (price e) = (if d_neg (price e) then ''-'' else []) @ show_mag_g (d_mag (price e))"
    by (simp add: ostream_double_def)
  show ?thesis
    by (intro exI [of _ "''['' @ show_u64 n @ ''] '' @ symbol e"] exI [of _ "show_mag_g (d_mag (price e))"] conjI allI impI
        show_mag_g_close exI)
      (simp_all add: demo_sample_line_def consumer_sample_line_def line_def shown)
qed

lemma sample_prices:
  "ostream_double 4679225732930679603 = ''65432.1''"
  "ostream_double (mk_double False (decimal_mag 6543215 (- 2))) = ''65432.2''"
  "ostream_double (mk_double False (decimal_mag 12345650 (- 2))) = ''123456''"
  "ostream_double (mk_double False (decimal_mag 9999995 (- 1))) = ''1e+06''"
  "ostream_double (mk_double True (decimal_mag 1 (- 5))) = ''-1e-05''"
  "ostream_double (mk_double False (decimal_mag 25 (- 4))) = ''0.0025''"
  by code_simp+

theorem printed_price_close_witness:
  "\<exists>before digits after. demo_sample_line 1 e2e_event = before @ '' price='' @ digits @ '' event_time_ms='' @ after \<and>
    \<bar>text_value digits - 1\<bar> \<le> 5 / 10 ^ 6"
proof -
  have fin: "d_finite (price e2e_event)" and sign: "\<not> d_neg (price e2e_event)" and sig: "mag_sig (d_mag (price e2e_event)) = 2 ^ 52"
    and ex: "mag_exp (d_mag (price e2e_event)) = - 52"
    by code_simp+
  have one: "mag_value (d_mag (price e2e_event)) = 1" by (simp add: mag_value_def sig ex power_int_minus)
  from printed_price_close [OF fin, of 1] sign show ?thesis by (simp add: one) blast
qed

text \<open>
  The last line of the ingestion service gives the number of events received, accepted and refused
  by the producer, which add up, and a high-water mark within the capacity.
\<close>

lemma service_final_line:
  assumes "rd_kafka_client K kinv enqueued reported" "ingestion_setup env args K writable fs = Inr p0"
    and "service_run (any_iface fs0 parse) (kafka_iface K dump) dump as (service_new p0) = Some m"
    and "service_over m" "terminated (pipeline m) = None" "started (pipeline m)" "length (fetched (pipeline m)) < 2 ^ 64"
  shows "\<exists>received accepted refused high cap. final_stats_line (pipeline m) =
      line (''Final stats: received='' @ show_nat received @ '' published(local)='' @ show_nat accepted @
        '' publish_failures(local)='' @ show_nat refused @
        '' delivered(broker)='' @ show_u64 (delivery_successes (publisher (pipeline m))) @
        '' delivery_failed(broker)='' @ show_u64 (delivery_failures (publisher (pipeline m))) @
        '' queue_high_water_mark='' @ show_nat high @ ''/'' @ show_nat cap) \<and>
    received = length (fetched (pipeline m)) \<and> accepted = length (enqueued (producer (publisher (pipeline m)))) \<and>
    accepted + refused = received \<and> high \<le> cap"
proof -
  from assms(2) obtain opts pb rec fs' where new: "KafkaEventProducer_new K (kafka_config env) = Inr pb"
    and p0: "p0 = IngestionPipeline_new (make_source env opts) pb (unat (queue_capacity opts)) rec fs'"
    by (rule ingestion_setup_new)
  from any.service_runs [OF assms(3) [unfolded p0]] obtain cs where
    run: "runs_from (any_iface fs0 parse) (kafka_iface K dump) dump cs (make_source env opts) pb
      (unat (queue_capacity opts)) rec fs' (pipeline m)" and "service_inv any_stop_req m" by blast
  from service_ends_stopped [OF this(2) assms(4-6)] have stopped: "stopped (pipeline m)" .
  note facts = stopped_facts [OF run stopped]
  have idle: "uncounted_in (pipeline m) = 0" "uncounted_out ok (pipeline m) = 0" for ok
    using facts(1,2) by (simp_all add: uncounted_in_def uncounted_out_def)
  note n = counters [OF run assms(7), unfolded counted_def idle]
  have all: "length (fetched (pipeline m)) = length (handled (pipeline m))" using facts(6) by (metis length_map)
  have accepted: "length (enqueued (producer (publisher (pipeline m)))) = outcomes True (pipeline m)"
    using rd_kafka_client.kafka_runs [OF assms(1) new run] by (simp add: outcomes_def count_if_def)
  have "highWaterMark (evq (pipeline m)) \<le> capacity (evq (pipeline m))"
    using runs_inv(3) [OF run] by (simp add: bound_inv_def bq_inv_def highWaterMark_def)
  with n all accepted outcomes_total [of "pipeline m"] show ?thesis
    by (intro exI [of _ "length (fetched (pipeline m))"] exI [of _ "outcomes True (pipeline m)"]
        exI [of _ "outcomes False (pipeline m)"] exI [of _ "highWaterMark (evq (pipeline m))"] exI [of _ "capacity (evq (pipeline m))"])
      (simp add: final_stats_line_def show_u64_def stats_def)
qed

end
