(* ===== verification/Consumer_Group.thy ===== *)
theory Consumer_Group
  imports End_To_End Programs
begin

text \<open>
  The consumer service over its restarts. A process reads as a member of its consumer group; when it ends,
  the next one goes on at the offsets committed for the group. The code leaves the commits to librdkafka:
  \<^verbatim>\<open>enable.auto.commit\<close> and \<^verbatim>\<open>enable.auto.offset.store\<close> keep their default, true, so that a message counts as
  stored as soon as a poll has returned it, a timer commits what is stored, and \<^verbatim>\<open>rd_kafka_consumer_close\<close>, which
  the destructor calls, commits it once more. Any of these commits can fail, the one of the close too. That documented
  behaviour is the hypothesis \<^verbatim>\<open>group_history\<close> below; the records of each process are those of the code.

  What the partitions hold is arbitrary: messages of the ingestion service, stored once, several times or not at
  all, and messages of anybody else. The topic is one whose log is kept from offset zero on while the group reads it
  and is not compacted.
\<close>

section \<open>Sessions\<close>

text \<open>
  How a process ends: by the destructor of the consumer, killed between two passes of its consuming
  thread, or killed in a pass, after the poll and before the record has been counted.
\<close>

datatype session_end = Destroyed | Killed | Killed_in_pass

record session =
  log_end :: "int \<Rightarrow> nat"            \<comment> \<open>the end of each partition when the session begins\<close>
  polls :: "(poll_result \<times> i64) list"
  session_end :: session_end
  close_committed :: bool            \<comment> \<open>the commit of the close was acknowledged\<close>
  committed :: "int \<Rightarrow> nat option"   \<comment> \<open>the offsets committed when it has ended\<close>

definition handed :: "int \<Rightarrow> session \<Rightarrow> nat" where
  "handed n s = length (polled_at n (polls s))"

text \<open>Without a committed offset, \<^verbatim>\<open>auto.offset.reset\<close> decides where the session begins.\<close>

definition start_offset :: "KafkaConsumerConfig \<Rightarrow> (int \<Rightarrow> nat option) \<Rightarrow> session \<Rightarrow> int \<Rightarrow> nat" where
  "start_offset cfg c0 s n =
     (case c0 n of Some k \<Rightarrow> k | None \<Rightarrow> if auto_offset_reset cfg = ''earliest'' then 0 else log_end s n)"

definition session_delivers :: "KafkaConsumerConfig \<Rightarrow> (int \<Rightarrow> string list) \<Rightarrow> (int \<Rightarrow> nat option) \<Rightarrow> session \<Rightarrow> bool" where
  "session_delivers cfg plog c0 s \<longleftrightarrow>
     (\<forall>n. start_offset cfg c0 s n + handed n s \<le> length (plog n) \<and>
        polled_at n (polls s) =
          map (\<lambda>k. (plog n ! k, of_nat k)) [start_offset cfg c0 s n ..< start_offset cfg c0 s n + handed n s])"

text \<open>
  The commits of a session: none has succeeded, or one at some offset up to which messages have been polled. If the
  consumer was closed at the end and the commit of the close was acknowledged, it is everything that was polled.
\<close>

definition session_commits :: "bool \<Rightarrow> KafkaConsumerConfig \<Rightarrow> (int \<Rightarrow> nat option) \<Rightarrow> session \<Rightarrow> bool" where
  "session_commits was_closed cfg c0 s \<longleftrightarrow>
     (\<forall>n. (committed s n = c0 n \<or>
          (\<exists>k. 0 < k \<and> k \<le> handed n s \<and> committed s n = Some (start_offset cfg c0 s n + k))) \<and>
        (was_closed \<and> close_committed s \<longrightarrow>
          committed s n = (if handed n s = 0 then c0 n else Some (start_offset cfg c0 s n + handed n s))))"

fun group_history ::
    "(session \<Rightarrow> bool) \<Rightarrow> KafkaConsumerConfig \<Rightarrow> (int \<Rightarrow> string list) \<Rightarrow> (int \<Rightarrow> nat option) \<Rightarrow> session list \<Rightarrow> (int \<Rightarrow> nat option) \<Rightarrow> bool" where
  "group_history fin cfg plog c0 [] c \<longleftrightarrow> c = c0"
| "group_history fin cfg plog c0 (s # ss) c \<longleftrightarrow>
     session_delivers cfg plog c0 s \<and> session_commits (fin s) cfg c0 s \<and> group_history fin cfg plog (committed s) ss c"

section \<open>The records of a session\<close>

text \<open>The passes a session has completed, and the records its consuming thread has counted in them.\<close>

definition completed :: "session \<Rightarrow> (poll_result \<times> i64) list" where
  "completed s = (if session_end s = Killed_in_pass then butlast (polls s) else polls s)"

definition session_records :: "json_parser \<Rightarrow> 'k KafkaEventConsumer \<Rightarrow> session \<Rightarrow> ConsumedRecord list" where
  "session_records parse c s = fst (consume_loop parse (map Input (completed s)) c)"

text \<open>
  The consumer at the end of a session: \<^verbatim>\<open>main\<close> stops it, joins the thread and leaves the block of the consumer,
  so that its destructor runs; a killed process does nothing more.
\<close>

definition session_final :: "'k rd_consumer \<Rightarrow> json_parser \<Rightarrow> 'k KafkaEventConsumer \<Rightarrow> session \<Rightarrow> 'k KafkaEventConsumer" where
  "session_final K parse c s =
     (if session_end s = Destroyed
      then KafkaEventConsumer_destroy K (fst (snd (consume_loop parse (map Input (completed s) @ [Stop_call]) c)))
      else fst (snd (consume_loop parse (map Input (completed s)) c)))"

text \<open>The client library: which of its states are those of a closed consumer.\<close>

locale rd_kafka_group =
  fixes K :: "'k rd_consumer"
    and is_closed :: "'k \<Rightarrow> bool"
  assumes close_closed: "is_closed (consumer_close K k)"
    and destroy_closed: "is_closed k \<Longrightarrow> is_closed (con_destroy K k)"
begin

lemma destroyed_closed: "session_end s = Destroyed \<Longrightarrow> is_closed (consumer (session_final K parse c s))"
  by (simp add: session_final_def KafkaEventConsumer_destroy_def Let_def close_closed destroy_closed)

end

text \<open>A client in memory whose state is whether it has been closed.\<close>

definition flag_consumer :: "bool rd_consumer" where
  "flag_consumer = \<lparr>con_conf_set = (\<lambda>_ _. None), con_new = (\<lambda>_. Inr False), subscribe = (\<lambda>_ k. (None, k)),
     consumer_close = (\<lambda>_. True), con_destroy = id\<rparr>"

interpretation flag: rd_kafka_group flag_consumer "\<lambda>k. k"
  by unfold_locales (simp_all add: flag_consumer_def)

lemma session_counts:
  "total (fst (consume_thread parse (map Input (completed s)) no_counts c)) = of_nat (length (session_records parse c s))"
  by (simp add: consume_thread_loop session_records_def total_fold no_counts_def split: prod.split)

text \<open>The valid messages before the committed offsets that no session has processed.\<close>

definition processed :: "json_parser \<Rightarrow> 'k KafkaEventConsumer \<Rightarrow> session list \<Rightarrow> int \<Rightarrow> nat \<Rightarrow> bool" where
  "processed parse c ss n k \<longleftrightarrow>
     (\<exists>s \<in> set ss. \<exists>r \<in> set (session_records parse c s). partition r = n \<and> offset r = of_nat k)"

definition unprocessed ::
    "json_parser \<Rightarrow> 'k KafkaEventConsumer \<Rightarrow> (int \<Rightarrow> string list) \<Rightarrow> session list \<Rightarrow> (int \<Rightarrow> nat option) \<Rightarrow> (int \<times> nat) set" where
  "unprocessed parse c plog ss cm =
     {(n, k). (\<exists>m. cm n = Some m \<and> k < m) \<and> decode parse (plog n ! k) \<noteq> [] \<and> \<not> processed parse c ss n k}"

section \<open>Positions\<close>

text \<open>The message a session has polled and not processed.\<close>

definition cut_off :: "session \<Rightarrow> (int \<times> nat) set" where
  "cut_off s = (if session_end s = Killed_in_pass \<and> polls s \<noteq> [] then
     (case fst (last (polls s)) of Polled payload part off \<Rightarrow> {(part, unat off)} | _ \<Rightarrow> {}) else {})"

lemma card_cut_off: "finite (cut_off s)" "card (cut_off s) \<le> (if session_end s = Killed_in_pass then 1 else 0)"
  by (auto simp: cut_off_def split: poll_result.split)

lemma polled_completed:
  assumes "(payload, off) \<in> set (polled_at n (polls s))"
  shows "(payload, off) \<in> set (polled_at n (completed s)) \<or> (n, unat off) \<in> cut_off s"
proof (cases "session_end s = Killed_in_pass \<and> polls s \<noteq> []")
  case True
  then have "polled_at n (polls s) = polled_at n (butlast (polls s)) @ polled_at n [last (polls s)]"
    by (metis append_butlast_last_id polled_at_simps(2))
  with assms consider "(payload, off) \<in> set (polled_at n (butlast (polls s)))"
    | "(payload, off) \<in> set (polled_at n [last (polls s)])" by auto
  then show ?thesis
  proof cases
    case 2
    then have "fst (last (polls s)) = Polled payload n off"
      by (auto simp: polled_at_def split: poll_result.splits if_splits)
    with True show ?thesis by (simp add: cut_off_def)
  qed (use True in \<open>simp add: completed_def\<close>)
qed (use assms in \<open>auto simp: completed_def\<close>)

lemma delivered:
  assumes "session_delivers cfg plog c0 s"
  shows "(payload, off) \<in> set (polled_at n (polls s)) \<longleftrightarrow>
    (\<exists>k. start_offset cfg c0 s n \<le> k \<and> k < start_offset cfg c0 s n + handed n s \<and> payload = plog n ! k \<and> off = of_nat k)"
proof -
  from assms have "polled_at n (polls s) =
      map (\<lambda>k. (plog n ! k, of_nat k)) [start_offset cfg c0 s n ..< start_offset cfg c0 s n + handed n s]"
    unfolding session_delivers_def by blast
  from arg_cong [OF this, of set] show ?thesis by auto
qed

text \<open>Every committed message was polled by some session.\<close>

lemma committed_polled:
  "group_history fin cfg plog c0 ss c \<Longrightarrow> auto_offset_reset cfg = ''earliest'' \<Longrightarrow> c n = Some m \<Longrightarrow> k < m \<Longrightarrow>
     (\<exists>m0. c0 n = Some m0 \<and> k < m0) \<or>
     (\<exists>s \<in> set ss. (plog n ! k, of_nat k) \<in> set (polled_at n (polls s)))"
proof (induction ss arbitrary: c0)
  case (Cons s ss)
  then have del: "session_delivers cfg plog c0 s"
    and com: "committed s n = c0 n \<or> (\<exists>j. j \<le> handed n s \<and> committed s n = Some (start_offset cfg c0 s n + j))"
    by (auto simp: session_commits_def split: if_splits)
  from Cons.IH [of "committed s"] Cons.prems consider
    "\<exists>s' \<in> set ss. (plog n ! k, of_nat k) \<in> set (polled_at n (polls s'))"
    | m0 where "committed s n = Some m0" "k < m0" by auto
  then show ?case
  proof cases
    case 2
    show ?thesis
    proof (cases "k < start_offset cfg c0 s n")
      case True
      then show ?thesis using Cons.prems(2) by (auto simp: start_offset_def split: option.splits)
    next
      case False
      from com show ?thesis
      proof
        assume "\<exists>j. j \<le> handed n s \<and> committed s n = Some (start_offset cfg c0 s n + j)"
        with 2 False have "start_offset cfg c0 s n \<le> k" "k < start_offset cfg c0 s n + handed n s" by auto
        then have "(plog n ! k, of_nat k) \<in> set (polled_at n (polls s))" unfolding delivered [OF del] by blast
        then show ?thesis by auto
      qed (use 2 in auto)
    qed
  qed auto
qed simp

lemma sessions_in_log:
  "group_history fin cfg plog c0 ss c \<Longrightarrow> s \<in> set ss \<Longrightarrow> (payload, off) \<in> set (polled_at n (polls s)) \<Longrightarrow>
     \<exists>k < length (plog n). payload = plog n ! k \<and> off = of_nat k"
proof (induction ss arbitrary: c0)
  case (Cons s' ss)
  show ?case
  proof (cases "s = s'")
    case True
    with Cons.prems have del: "session_delivers cfg plog c0 s" by simp
    from Cons.prems(3) obtain k where "k < start_offset cfg c0 s n + handed n s" "payload = plog n ! k" "off = of_nat k"
      unfolding delivered [OF del] by blast
    moreover have "start_offset cfg c0 s n + handed n s \<le> length (plog n)" using del by (simp add: session_delivers_def)
    ultimately show ?thesis by (intro exI [of _ k]) simp
  qed (use Cons in auto)
qed simp

lemma committed_bound:
  "group_history fin cfg plog c0 ss c \<Longrightarrow> c n = Some m \<Longrightarrow> m \<le> length (plog n) \<or> c0 n = Some m"
proof (induction ss arbitrary: c0)
  case (Cons s ss)
  have del: "start_offset cfg c0 s n + handed n s \<le> length (plog n)" using Cons.prems by (simp add: session_delivers_def)
  have "committed s n = c0 n \<or> (\<exists>j. j \<le> handed n s \<and> committed s n = Some (start_offset cfg c0 s n + j))"
    using Cons.prems by (auto simp: session_commits_def split: if_splits)
  with Cons.IH [of "committed s"] Cons.prems del show ?case by auto
qed simp

text \<open>
  After sessions that were all closed, with an acknowledged commit, the polls together are one reading of each
  partition up to the committed offset.
\<close>

definition position :: "(int \<Rightarrow> nat option) \<Rightarrow> int \<Rightarrow> nat" where
  "position c n = (case c n of Some k \<Rightarrow> k | None \<Rightarrow> 0)"

lemma closed_sessions_polls:
  "group_history fin cfg plog c0 ss c \<Longrightarrow> \<forall>s \<in> set ss. fin s \<and> close_committed s \<Longrightarrow> auto_offset_reset cfg = ''earliest'' \<Longrightarrow>
     position c0 n \<le> length (plog n) \<Longrightarrow>
     position c0 n \<le> position c n \<and> position c n \<le> length (plog n) \<and>
     polled_at n (concat (map polls ss)) = map (\<lambda>k. (plog n ! k, of_nat k)) [position c0 n ..< position c n]"
proof (induction ss arbitrary: c0)
  case (Cons s ss)
  let ?o = "position c0 n" and ?m = "handed n s"
  have st: "start_offset cfg c0 s n = ?o" using Cons.prems(3) by (simp add: start_offset_def position_def)
  from Cons.prems(1) have del: "?o + ?m \<le> length (plog n)"
    "polled_at n (polls s) = map (\<lambda>k. (plog n ! k, of_nat k)) [?o ..< ?o + ?m]"
    unfolding st [symmetric] by (auto simp: session_delivers_def)
  from Cons.prems(1,2) have "committed s n = (if ?m = 0 then c0 n else Some (?o + ?m))"
    unfolding st [symmetric] by (auto simp: session_commits_def)
  then have next_position: "position (committed s) n = ?o + ?m" by (simp add: position_def)
  with Cons.IH [of "committed s"] Cons.prems del(1)
  have "?o + ?m \<le> position c n" "position c n \<le> length (plog n)"
    "polled_at n (concat (map polls ss)) = map (\<lambda>k. (plog n ! k, of_nat k)) [?o + ?m ..< position c n]" by auto
  then show ?case using del(2) upt_add_eq_append [of ?o "?o + ?m" "position c n - (?o + ?m)"] by simp
qed simp

section \<open>Records\<close>

lemma poll_records_at:
  assumes "(payload, off) \<in> set (polled_at n is)" "decode parse payload \<noteq> []"
  shows "\<exists>r \<in> set (concat (map (poll_records parse) is)). partition r = n \<and> offset r = off"
proof -
  from assms(2) obtain e where e: "classify_message parse payload = Captured e" by (auto simp: decode_def split: line_kind.splits)
  from assms(1) obtain t where t: "(Polled payload n off, t) \<in> set is" by (auto simp: polled_at_member)
  from e have "poll_records parse (Polled payload n off, t) = [\<lparr>event = e\<lparr>ingest_time := t\<rparr>, partition = n, offset = off\<rparr>]"
    by (simp add: poll_records_def)
  with t show ?thesis by force
qed

lemma decoded_record:
  assumes "r \<in> set (concat (map (poll_records parse) is))"
  shows "\<exists>payload. (payload, offset r) \<in> set (polled_at (partition r) is) \<and> decode parse payload = [unstamped (event r)]"
proof -
  from assms obtain payload e t where "(Polled payload (partition r) (offset r), t) \<in> set is"
    "classify_message parse payload = Captured e" "event r = e\<lparr>ingest_time := t\<rparr>" by (rule record_polled)
  with captured_event_unstamped [of parse payload e] show ?thesis
    by (intro exI [of _ payload]) (auto simp: polled_at_member decode_def)
qed

text \<open>The consumer of every session is a new one.\<close>

lemma setup_config:
  "consumer_setup env K = Inr c \<Longrightarrow> \<not> con_stop_requested c \<and> cconfig c = consumer_config env"
  by (auto simp: consumer_setup_def KafkaEventConsumer_new_def setConfOrThrow_def and_then_def consumer_start_def
      split: sum.splits option.splits prod.splits)

lemma session_records_polls:
  assumes "\<not> con_stop_requested c" "\<forall>i \<in> set (completed s). poll_ok parse i"
  shows "session_records parse c s = concat (map (poll_records parse) (completed s))"
  using consume_polls [OF assms, of "[]"] by (simp add: session_records_def Let_def)

lemma completed_subset: "set (completed s) \<subseteq> set (polls s)"
  by (auto simp: completed_def dest: in_set_butlastD)

lemma completed_at: "set (polled_at n (completed s)) \<subseteq> set (polled_at n (polls s))"
  using completed_subset [of s] by (auto simp: polled_at_def)

section \<open>Nothing is lost\<close>

text \<open>A log without a number too large for a double, on which the parser would throw another exception.\<close>

definition log_ok :: "json_parser \<Rightarrow> (int \<Rightarrow> string list) \<Rightarrow> bool" where
  "log_ok parse plog \<longleftrightarrow> (\<forall>n. \<forall>payload \<in> set (plog n). \<forall>x. classify_message parse payload \<noteq> Overflow x)"

lemma session_polls_ok:
  assumes "log_ok parse plog" "group_history fin cfg plog c0 ss cm" "s \<in> set ss" "i \<in> set (polls s)"
  shows "poll_ok parse i"
proof (cases "fst i")
  case (Polled payload n off)
  with assms(4) have "(payload, off) \<in> set (polled_at n (polls s))" unfolding polled_at_member by (metis prod.collapse)
  from sessions_in_log [OF assms(2,3) this] assms(1) have "classify_message parse payload \<noteq> Overflow x" for x
    unfolding log_ok_def by (metis nth_mem)
  with Polled show ?thesis by (simp add: poll_ok_def)
qed (simp_all add: poll_ok_def)

lemma session_records_log:
  assumes "log_ok parse plog" "group_history fin cfg plog c0 ss cm" "s \<in> set ss" "\<not> con_stop_requested c"
  shows "session_records parse c s = concat (map (poll_records parse) (completed s))"
  by (rule session_records_polls [OF assms(4)]) (use session_polls_ok [OF assms(1-3)] completed_subset [of s] in blast)

lemma session_record_right:
  assumes "log_ok parse plog" "group_history fin cfg plog c0 ss cm" "s \<in> set ss"
    and "\<not> con_stop_requested c" "r \<in> set (session_records parse c s)"
  shows "\<exists>k < length (plog (partition r)). offset r = of_nat k \<and> decode parse (plog (partition r) ! k) = [unstamped (event r)]"
proof -
  from decoded_record assms(5) obtain payload where
    r: "(payload, offset r) \<in> set (polled_at (partition r) (completed s))" "decode parse payload = [unstamped (event r)]"
    unfolding session_records_log [OF assms(1-4)] by blast
  from r(1) completed_at have "(payload, offset r) \<in> set (polled_at (partition r) (polls s))" by blast
  from sessions_in_log [OF assms(2,3) this] r(2) show ?thesis by blast
qed

lemma unprocessed_cut_off:
  assumes "log_ok parse plog" "\<And>n. length (plog n) < 2 ^ 63" "group_history fin cfg plog (\<lambda>_. None) ss cm"
    and "auto_offset_reset cfg = ''earliest''" "\<not> con_stop_requested c"
  shows "unprocessed parse c plog ss cm \<subseteq> (\<Union>s \<in> set ss. cut_off s)"
proof
  fix x assume "x \<in> unprocessed parse c plog ss cm"
  then obtain n k m where nk: "x = (n, k)" "cm n = Some m" "k < m" "decode parse (plog n ! k) \<noteq> []" "\<not> processed parse c ss n k"
    by (auto simp: unprocessed_def)
  from committed_polled [OF assms(3,4) nk(2,3)] obtain s where
    s: "s \<in> set ss" "(plog n ! k, of_nat k) \<in> set (polled_at n (polls s))" by auto
  have "(plog n ! k, of_nat k) \<notin> set (polled_at n (completed s))"
  proof
    assume "(plog n ! k, of_nat k) \<in> set (polled_at n (completed s))"
    from poll_records_at [OF this nk(4)] s(1) have "processed parse c ss n k"
      unfolding processed_def session_records_log [OF assms(1,3) s(1) assms(5), symmetric] by blast
    with nk(5) show False ..
  qed
  with polled_completed [OF s(2)] have cut: "(n, unat (of_nat k :: i64)) \<in> cut_off s" by blast
  from committed_bound [OF assms(3) nk(2)] nk(3) have "k < length (plog n)" by simp
  from unat_offset [OF assms(2) this] cut s(1) nk(1) show "x \<in> (\<Union>s \<in> set ss. cut_off s)" by auto
qed

lemma card_cut_offs:
  "finite (\<Union>s \<in> set ss. cut_off s) \<and> card (\<Union>s \<in> set ss. cut_off s) \<le> count_if (\<lambda>s. session_end s = Killed_in_pass) ss"
proof (induction ss)
  case (Cons s ss)
  then have "card (cut_off s \<union> (\<Union>s \<in> set ss. cut_off s)) \<le> card (cut_off s) + card (\<Union>s \<in> set ss. cut_off s)"
    by (intro card_Un_le)
  with Cons card_cut_off [of s] show ?case by (auto split: if_splits)
qed simp

section \<open>Properties\<close>

text \<open>
  C9: what a consumer group processes, and what it can lose. Take any contents of the partitions, without numbers that overflow,
  and any sequence of consumer processes of one group, each closed, killed between two passes or killed in a pass, with
  the commits of librdkafka at any moments and any of them failing. Every record a process counts is the decoded
  message at its offset of its partition. Of the valid messages before the committed offsets, which no later process will
  read, all have been counted by some process, with the exception of at most one for each process that was killed in a
  pass; so none is lost if no process was. A message may be counted by several processes.
\<close>

theorem consumer_group_at_least_once:
  assumes "consumer_setup env KC = Inr c" "group_history fin (cconfig c) plog (\<lambda>_. None) ss cm"
    and "\<forall>n. length (plog n) < 2 ^ 63" "log_ok parse plog"
  shows "(\<forall>s \<in> set ss. \<forall>r \<in> set (session_records parse c s). \<exists>k < length (plog (partition r)).
       offset r = of_nat k \<and> decode parse (plog (partition r) ! k) = [unstamped (event r)]) \<and>
    finite (unprocessed parse c plog ss cm) \<and>
    card (unprocessed parse c plog ss cm) \<le> count_if (\<lambda>s. session_end s = Killed_in_pass) ss"
proof -
  have c: "\<not> con_stop_requested c" "auto_offset_reset (cconfig c) = ''earliest''"
    using setup_config [OF assms(1)] by (simp_all add: consumer_config_def KafkaConsumerConfig_default_def)
  from unprocessed_cut_off [OF assms(4) _ assms(2) c(2,1)] assms(3)
  have sub: "unprocessed parse c plog ss cm \<subseteq> (\<Union>s \<in> set ss. cut_off s)" by blast
  from card_cut_offs [of ss] card_mono [OF _ sub] finite_subset [OF sub]
  have "finite (unprocessed parse c plog ss cm) \<and>
    card (unprocessed parse c plog ss cm) \<le> count_if (\<lambda>s. session_end s = Killed_in_pass) ss" by linarith
  then show ?thesis using session_record_right [OF assms(4,2) _ c(1)] by blast
qed

text \<open>
  C10: orderly restarts neither lose nor repeat a message of the log. If every process of the group ended by itself, so that the
  destructor of its consumer ran, and the commit that the close made was acknowledged each time, then in every partition the
  records of all processes together, one after the other, are exactly the valid messages before the committed offset:
  each offset once, in order, as if one consumer had never been restarted. This says nothing of how often the log
  holds an event.
\<close>

theorem consumer_orderly_restarts:
  assumes "consumer_setup env KC = Inr c" "rd_kafka_group KC is_closed"
    and "group_history (\<lambda>s. is_closed (consumer (session_final KC parse c s))) (cconfig c) plog (\<lambda>_. None) ss cm"
    and "\<forall>s \<in> set ss. session_end s = Destroyed \<and> close_committed s" "log_ok parse plog"
  shows "position cm n \<le> length (plog n) \<and>
    map (\<lambda>r. (unstamped (event r), offset r)) (filter (\<lambda>r. partition r = n) (concat (map (session_records parse c) ss))) =
      concat (map (\<lambda>k. map (\<lambda>e. (e, of_nat k)) (decode parse (plog n ! k))) [0 ..< position cm n])"
proof -
  have c: "\<not> con_stop_requested c" "auto_offset_reset (cconfig c) = ''earliest''"
    using setup_config [OF assms(1)] by (simp_all add: consumer_config_def KafkaConsumerConfig_default_def)
  have fin: "\<forall>s \<in> set ss. is_closed (consumer (session_final KC parse c s)) \<and> close_committed s"
    using rd_kafka_group.destroyed_closed [OF assms(2)] assms(4) by blast
  have "session_records parse c s = concat (map (poll_records parse) (polls s))" if "s \<in> set ss" for s
    using session_records_log [OF assms(5,3) that c(1)] assms(4) that by (simp add: completed_def)
  then have all: "concat (map (session_records parse c) ss) = concat (map (poll_records parse) (concat (map polls ss)))"
    by (induction ss) auto
  from closed_sessions_polls [OF assms(3) fin c(2), of n]
  show ?thesis unfolding all records_of_partition by (simp add: position_def o_def)
qed

text \<open>
  A partition with a message that is not an event and one that is, and sessions that poll both; the ends and the commits
  vary.
\<close>

definition two_log :: "int \<Rightarrow> string list" where
  "two_log n = (if n = 0 then [''{}'', show_json (marketEventToJson sample_event)] else [])"

definition two_polls :: "session_end \<Rightarrow> bool \<Rightarrow> (int \<Rightarrow> nat option) \<Rightarrow> session" where
  "two_polls e ack cm = \<lparr>log_end = (\<lambda>_. 0),
     polls = [(Poll_timeout, 1), (Polled ''{}'' 0 0, 2), (Polled (show_json (marketEventToJson sample_event)) 0 1, 3)],
     session_end = e, close_committed = ack, committed = cm\<rparr>"

definition flag_started :: "bool KafkaEventConsumer" where
  "flag_started = \<lparr>cconfig = consumer_config (\<lambda>_. None), consumer = False, con_stop_requested = False,
     messages_consumed = 0, messages_malformed = 0\<rparr>"

lemma flag_setup: "consumer_setup (\<lambda>_. None) flag_consumer = Inr flag_started"
  by (simp add: consumer_setup_def KafkaEventConsumer_new_def setConfOrThrow_def and_then_def consumer_start_def
      flag_consumer_def flag_started_def)

lemma two_log_ok: "log_ok ref_parse two_log" "\<forall>n. length (two_log n) < 2 ^ 63"
  by (auto simp: log_ok_def two_log_def sample_message_kinds)

lemma two_polls_deliver: "session_delivers (cconfig flag_started) two_log (\<lambda>_. None) (two_polls e ack cm)"
  by (simp add: session_delivers_def start_offset_def handed_def two_polls_def two_log_def flag_started_def
      consumer_config_def KafkaConsumerConfig_default_def)

lemma two_polls_commit:
  "session_commits was_closed (cconfig flag_started) (\<lambda>_. None) (two_polls e ack [0 \<mapsto> 2])"
  "session_commits was_closed (cconfig flag_started) (\<lambda>_. None) (two_polls e False (\<lambda>_. None))"
  by (auto simp: session_commits_def start_offset_def handed_def two_polls_def flag_started_def
      consumer_config_def KafkaConsumerConfig_default_def)

text \<open>
  The same messages read by a process that is killed between two passes before the timer has committed, read again by
  one that is closed but whose commit fails, and read a third time by one that is closed: the group ends with every event counted.
\<close>

definition restarted :: "session list" where
  "restarted = [two_polls Killed False (\<lambda>_. None), two_polls Destroyed False (\<lambda>_. None), two_polls Destroyed True [0 \<mapsto> 2]]"

theorem consumer_group_at_least_once_witness:
  "group_history (\<lambda>s. session_end s = Destroyed) (cconfig flag_started) two_log (\<lambda>_. None) restarted [0 \<mapsto> 2] \<and>
    unprocessed ref_parse flag_started two_log restarted [0 \<mapsto> 2] = {}"
proof -
  have history: "group_history (\<lambda>s. session_end s = Destroyed) (cconfig flag_started) two_log (\<lambda>_. None) restarted [0 \<mapsto> 2]"
    using two_polls_deliver two_polls_commit by (simp add: restarted_def two_polls_def)
  have "count_if (\<lambda>s. session_end s = Killed_in_pass) restarted = 0" by (simp add: restarted_def two_polls_def)
  with consumer_group_at_least_once [OF flag_setup history two_log_ok(2,1)]
  have "unprocessed ref_parse flag_started two_log restarted [0 \<mapsto> 2] = {}" by (metis card_eq_0_iff le_zero_eq)
  with history show ?thesis by blast
qed

theorem consumer_orderly_restarts_witness:
  "map (\<lambda>r. (unstamped (event r), offset r)) (filter (\<lambda>r. partition r = 0)
      (session_records ref_parse flag_started (two_polls Destroyed True [0 \<mapsto> 2]))) = [(captured sample_event, 1)]"
proof -
  let ?s = "two_polls Destroyed True [0 \<mapsto> 2]"
  have history: "group_history (\<lambda>s. consumer (session_final flag_consumer ref_parse flag_started s)) (cconfig flag_started) two_log
      (\<lambda>_. None) [?s] [0 \<mapsto> 2]"
    using two_polls_deliver two_polls_commit by (simp add: two_polls_def)
  have "\<forall>s \<in> set [?s]. session_end s = Destroyed \<and> close_committed s" by (simp add: two_polls_def)
  from consumer_orderly_restarts [OF flag_setup flag.rd_kafka_group_axioms history this two_log_ok(1), of 0]
  show ?thesis by (simp add: position_def two_log_def decode_def sample_message_kinds numeral_2_eq_2)
qed

text \<open>
  The exception is real. A process polls the messages, the timer commits what is stored, and the process is
  killed before the last pass has ended: no process of the group has counted the event, and since its offset
  is committed none will. With the offsets left to librdkafka the consumer is not at-least-once.
\<close>

lemma killed_in_pass_loses:
  "group_history (\<lambda>s. session_end s = Destroyed) (cconfig flag_started) two_log (\<lambda>_. None)
     [two_polls Killed_in_pass False [0 \<mapsto> 2]] [0 \<mapsto> 2]"
  "unprocessed ref_parse flag_started two_log [two_polls Killed_in_pass False [0 \<mapsto> 2]] [0 \<mapsto> 2] = {(0, 1)}"
proof -
  let ?s = "two_polls Killed_in_pass False [0 \<mapsto> 2]"
  show history: "group_history (\<lambda>s. session_end s = Destroyed) (cconfig flag_started) two_log (\<lambda>_. None) [?s] [0 \<mapsto> 2]"
    using two_polls_deliver two_polls_commit(1) by (simp add: two_polls_def)
  have "\<not> con_stop_requested flag_started" by (simp add: flag_started_def)
  from session_records_log [OF two_log_ok(1) history _ this, of ?s]
  have "session_records ref_parse flag_started ?s = []"
    by (simp add: completed_def two_polls_def poll_records_def sample_message_kinds)
  then show "unprocessed ref_parse flag_started two_log [?s] [0 \<mapsto> 2] = {(0, 1)}"
    by (auto simp: unprocessed_def processed_def two_log_def decode_def sample_message_kinds less_Suc_eq numeral_2_eq_2
        split: if_splits)
qed

end
