(* ===== verification/Benchmark.thy ===== *)
theory Benchmark
  imports Services
begin

text \<open>
  The benchmark (\<^verbatim>\<open>benchmarks/queue_kafka_benchmark.cpp\<close>): loading the capture file several times, the
  handover of all events through a queue between two threads, publishing them to Kafka, and consuming
  until enough messages have come or a deadline has passed; and \<^verbatim>\<open>main\<close>, which does these one after the other. The
  measured times are not modelled.
\<close>

section \<open>Loading\<close>

text \<open>
  One repetition per list of clock readings; \<^const>\<open>None\<close> when a list is too short for its reading loop
  to end.
\<close>

fun loadFixtureRepeated ::
    "files \<Rightarrow> json_parser \<Rightarrow> string \<Rightarrow> i64 list list \<Rightarrow> MarketEvent list \<Rightarrow> (cpp_exn + MarketEvent list) option" where
  "loadFixtureRepeated fs parse f [] events = Some (Inr events)"
| "loadFixtureRepeated fs parse f (nows # repeats) events =
     (case ReplaySource_start fs (ReplaySource_new f) of
        (s, Some x) \<Rightarrow> Some (Inl x)
      | (s, None) \<Rightarrow>
          (case read_loop (replay_iface fs parse) (map Input nows) s of
             (es, s', Some Finished) \<Rightarrow> loadFixtureRepeated fs parse f repeats (events @ es)
           | (es, s', Some (Raised x)) \<Rightarrow> Some (Inl x)
           | _ \<Rightarrow> None))"

lemma load_file:
  assumes "fs f = Some c" "\<forall>l \<in> set (lines_of c). no_overflow parse l"
  shows "\<forall>nows \<in> set repeats. length (lines_of c) < length nows \<Longrightarrow>
    loadFixtureRepeated fs parse f repeats events =
      Some (Inr (events @ concat (map (\<lambda>nows. concat (map (line_events parse) (zip (lines_of c) nows))) repeats)))"
proof (induction repeats arbitrary: events)
  case (Cons nows repeats)
  have "ReplaySource_start fs (ReplaySource_new f) = ((ReplaySource_new f)\<lparr>ins := Good c\<rparr>, None)"
    using assms(1) by (simp add: ReplaySource_start_def ReplaySource_new_def)
  moreover have "read_loop (replay_iface fs parse) (map Input nows) ((ReplaySource_new f)\<lparr>ins := Good c\<rparr>) =
      (concat (map (line_events parse) (zip (lines_of c) nows)),
       (ReplaySource_new f)\<lparr>ins := Failed, lines_malformed := of_nat (malformed_count parse (lines_of c))\<rparr>, Some Finished)"
    using read_loop_replay [of "(ReplaySource_new f)\<lparr>ins := Good c\<rparr>" c parse nows fs] assms(2) Cons.prems
    by (simp add: ReplaySource_new_def)
  ultimately show ?case using Cons by simp
qed simp

section \<open>The queue\<close>

datatype bench_point = B_push "MarketEvent list" | B_join | B_joined

record bench =
  bench_main :: bench_point     \<comment> \<open>the main thread: the events still to push, or waiting in \<^verbatim>\<open>join()\<close>\<close>
  bench_queue :: "MarketEvent BoundedQueue"
  consumer_ended :: bool
  bench_got :: "MarketEvent list" \<comment> \<open>history: what the consumer has received\<close>

definition bench_new :: "MarketEvent list \<Rightarrow> bench" where
  "bench_new events = \<lparr>bench_main = B_push events, bench_queue = BoundedQueue_new 1024, consumer_ended = False, bench_got = []\<rparr>"

definition benchmarkQueue_main :: "bench \<Rightarrow> bench option" where
  "benchmarkQueue_main b =
     (case bench_main b of
        B_push (e # es) \<Rightarrow>
          (case push e (bench_queue b) of
             Blocked \<Rightarrow> None
           | Done (ok, q) \<Rightarrow> Some (b\<lparr>bench_queue := q, bench_main := B_push es\<rparr>))
      | B_push [] \<Rightarrow> Some (b\<lparr>bench_queue := shutdown (bench_queue b), bench_main := B_join\<rparr>)
      | B_join \<Rightarrow> if consumer_ended b then Some (b\<lparr>bench_main := B_joined\<rparr>) else None
      | B_joined \<Rightarrow> None)"

definition benchmarkQueue_consumer :: "bench \<Rightarrow> bench option" where
  "benchmarkQueue_consumer b =
     (if consumer_ended b then None
      else case pop (bench_queue b) of
        Blocked \<Rightarrow> None
      | Done (Some e, q) \<Rightarrow> Some (b\<lparr>bench_queue := q, bench_got := bench_got b @ [e]\<rparr>)
      | Done (None, q) \<Rightarrow> Some (b\<lparr>bench_queue := q, consumer_ended := True\<rparr>))"

text \<open>A schedule says which thread moves: true for the main thread.\<close>

fun benchmarkQueue :: "bool list \<Rightarrow> bench \<Rightarrow> bench option" where
  "benchmarkQueue [] b = Some b"
| "benchmarkQueue (m # sched) b =
     Option.bind (if m then benchmarkQueue_main b else benchmarkQueue_consumer b) (benchmarkQueue sched)"

section \<open>Kafka\<close>

fun bench_publish :: "'k rd_kafka \<Rightarrow> json_dumper \<Rightarrow> MarketEvent list \<Rightarrow> 'k KafkaEventProducer \<Rightarrow> cpp_exn + 'k KafkaEventProducer" where
  "bench_publish K dump [] p = Inr (kafka_flush K 30000 p)"
| "bench_publish K dump (e # es) p =
     (case kafka_publish K dump e p of
        (p', Inl x) \<Rightarrow> Inl x
      | (p', Inr ok) \<Rightarrow> bench_publish K dump es p')"

definition benchmarkKafkaProducer ::
    "'k rd_kafka \<Rightarrow> json_dumper \<Rightarrow> MarketEvent list \<Rightarrow> string \<Rightarrow> string \<Rightarrow> cpp_exn + 'k KafkaEventProducer" where
  "benchmarkKafkaProducer K dump events b t =
     and_then (KafkaEventProducer_new K \<lparr>brokers = b, topic = t\<rparr>) (bench_publish K dump events)"

text \<open>
  The consumer's loop: a clock reading before each call of \<^verbatim>\<open>next()\<close>, and the polls these calls make.
  \<^const>\<open>None\<close> while the loop is still running after all of them.
\<close>

fun bench_consume ::
    "json_parser \<Rightarrow> nat \<Rightarrow> int \<Rightarrow> int list \<Rightarrow> (poll_result \<times> i64) tick list \<Rightarrow> nat \<Rightarrow> 'k KafkaEventConsumer \<Rightarrow>
     (cpp_exn + nat \<times> 'k KafkaEventConsumer) option" where
  "bench_consume parse expected deadline [] polls consumed c =
     (if consumed < expected then None else Some (Inr (consumed, consumer_stop c)))"
| "bench_consume parse expected deadline (t # clocks) polls consumed c =
     (if consumed < expected \<and> t < deadline
      then case consumer_next parse polls c of
             None \<Rightarrow> None
           | Some (c', Record r, polls') \<Rightarrow> bench_consume parse expected deadline clocks polls' (consumed + 1) c'
           | Some (c', C_raised x, polls') \<Rightarrow> Some (Inl x)
           | Some (c', _, polls') \<Rightarrow> bench_consume parse expected deadline clocks polls' consumed c'
      else Some (Inr (consumed, consumer_stop c)))"

definition benchmark_consumer_config :: "string \<Rightarrow> string \<Rightarrow> string \<Rightarrow> KafkaConsumerConfig" where
  "benchmark_consumer_config start_count b t = \<lparr>c_brokers = b, c_topic = t,
     group_id = ''tickforge-benchmark-'' @ start_count, auto_offset_reset = ''earliest''\<rparr>"

definition benchmarkKafkaConsumer ::
    "'k rd_consumer \<Rightarrow> json_parser \<Rightarrow> nat \<Rightarrow> string \<Rightarrow> string \<Rightarrow> string \<Rightarrow> int \<Rightarrow> int list \<Rightarrow>
     (poll_result \<times> i64) tick list \<Rightarrow> (cpp_exn + nat \<times> 'k KafkaEventConsumer) option" where
  "benchmarkKafkaConsumer K parse expected_count b t start_count start clocks polls =
     (case KafkaEventConsumer_new K (benchmark_consumer_config start_count b t) of
        Inl x \<Rightarrow> Some (Inl x)
      | Inr c \<Rightarrow>
          (case consumer_start K c of
             (c', Some x) \<Rightarrow> Some (Inl x)
           | (c', None) \<Rightarrow> bench_consume parse expected_count (start + 30000000000) clocks polls 0 c'))"

section \<open>The handover\<close>

definition bench_rest :: "bench \<Rightarrow> MarketEvent list" where
  "bench_rest b = (case bench_main b of B_push es \<Rightarrow> es | _ \<Rightarrow> [])"

definition bench_inv :: "MarketEvent list \<Rightarrow> bench \<Rightarrow> bool" where
  "bench_inv events b \<longleftrightarrow>
     bench_got b @ queue (bench_queue b) @ bench_rest b = events \<and>
     (is_shutdown (bench_queue b) \<longleftrightarrow> bench_main b \<in> {B_join, B_joined}) \<and>
     (consumer_ended b \<longrightarrow> is_shutdown (bench_queue b) \<and> queue (bench_queue b) = []) \<and>
     (bench_main b = B_joined \<longrightarrow> consumer_ended b) \<and> capacity (bench_queue b) = 1024"

definition bench_work :: "bench \<Rightarrow> nat" where
  "bench_work b = 2 * length (bench_rest b) + length (queue (bench_queue b)) + (if consumer_ended b then 0 else 1) +
     (case bench_main b of B_push es \<Rightarrow> 2 | B_join \<Rightarrow> 1 | B_joined \<Rightarrow> 0)"

lemma bench_main_step:
  assumes "benchmarkQueue_main b = Some b'" "bench_inv events b"
  shows "bench_inv events b' \<and> bench_work b' < bench_work b"
  using assms
  by (auto simp: benchmarkQueue_main_def bench_inv_def bench_work_def bench_rest_def push_Done_iff queue_ops
      split: bench_point.splits list.splits attempt.splits if_splits)

lemma bench_consumer_step:
  assumes "benchmarkQueue_consumer b = Some b'" "bench_inv events b"
  shows "bench_inv events b' \<and> bench_work b' < bench_work b"
  using assms
  by (auto simp: benchmarkQueue_consumer_def bench_inv_def bench_work_def bench_rest_def pop_Done_iff queue_ops can_pop_def
      split: bench_point.splits list.splits attempt.splits if_splits option.splits)

lemma bench_run:
  "benchmarkQueue sched b = Some b' \<Longrightarrow> bench_inv events b \<Longrightarrow>
     bench_inv events b' \<and> length sched + bench_work b' \<le> bench_work b"
proof (induction sched arbitrary: b)
  case (Cons m sched)
  then obtain b1 where b1: "(if m then benchmarkQueue_main b else benchmarkQueue_consumer b) = Some b1"
    "benchmarkQueue sched b1 = Some b'" by (auto simp: bind_eq_Some_conv)
  with Cons.prems(2) have "bench_inv events b1 \<and> bench_work b1 < bench_work b"
    using bench_main_step bench_consumer_step by (metis (full_types))
  with Cons.IH [OF b1(2)] show ?case by simp
qed simp

lemma bench_moves:
  assumes "bench_inv events b" "bench_main b \<noteq> B_joined"
  shows "\<exists>m b'. benchmarkQueue [m] b = Some b'"
proof (cases "can_pop (bench_queue b) \<and> \<not> consumer_ended b")
  case True
  then have "\<exists>b'. benchmarkQueue_consumer b = Some b'"
    by (simp add: benchmarkQueue_consumer_def pop_def split: prod.split option.split)
  then show ?thesis by (intro exI [of _ False]) auto
next
  case False
  with assms have "\<exists>b'. benchmarkQueue_main b = Some b'"
    by (auto simp: benchmarkQueue_main_def bench_inv_def can_pop_def can_push_def push_def split: bench_point.split list.split prod.split)
  then show ?thesis by (intro exI [of _ True]) auto
qed


section \<open>The deadline\<close>

lemma next_timeouts: "\<not> con_stop_requested c \<Longrightarrow> consumer_next parse (map Input (map (Pair Poll_timeout) us)) c = None"
  by (induction us) (simp_all add: consumer_step_def)

lemma bench_consume_returns:
  "bench_consume parse expected deadline clocks polls consumed c = Some (Inr (n, c')) \<Longrightarrow> consumed \<le> expected \<Longrightarrow>
     n \<le> expected \<and> (n = expected \<or> (\<exists>t \<in> set clocks. deadline \<le> t))"
proof (induction clocks arbitrary: polls consumed c)
  case Nil
  then show ?case by (auto split: if_splits)
next
  case (Cons t clocks)
  show ?case
  proof (cases "consumed < expected \<and> t < deadline")
    case True
    then obtain c1 r polls1 where nxt: "consumer_next parse polls c = Some (c1, r, polls1)"
      using Cons.prems(1) by (cases "consumer_next parse polls c") auto
    with True Cons.prems Cons.IH [of polls1 "consumed + 1" c1] Cons.IH [of polls1 consumed c1]
    show ?thesis by (cases r) auto
  next
    case False
    with Cons.prems show ?thesis by auto
  qed
qed

section \<open>Properties\<close>

text \<open>
  The queue benchmark hands over everything. Under every schedule of its two threads it takes at
  most two steps per event and three more, it is never stuck before the threads are joined, and then
  the consumer has received exactly the events pushed, in order.
\<close>

lemma benchmark_queue_hands_over:
  assumes "benchmarkQueue sched (bench_new events) = Some b"
  shows "length sched \<le> 2 * length events + 3 \<and>
    (if bench_main b = B_joined then bench_got b = events else (\<exists>m b'. benchmarkQueue [m] b = Some b'))"
proof -
  have "bench_inv events (bench_new events)" "bench_work (bench_new events) = 2 * length events + 3"
    by (simp_all add: bench_inv_def bench_new_def bench_rest_def bench_work_def)
  with bench_run [OF assms, of events] have run: "bench_inv events b" "length sched \<le> 2 * length events + 3" by auto
  show ?thesis
  proof (cases "bench_main b = B_joined")
    case True
    with run show ?thesis by (auto simp: bench_inv_def bench_rest_def)
  next
    case False
    with run bench_moves [OF run(1) False] show ?thesis by simp
  qed
qed

lemma benchmark_queue_hands_over_witness:
  "\<exists>b. benchmarkQueue [True, False, True, False, True] (bench_new [sample_event]) = Some b \<and>
    bench_main b = B_joined \<and> bench_got b = [sample_event]"
proof -
  have "\<exists>b. benchmarkQueue [True, False, True, False, True] (bench_new [sample_event]) = Some b \<and> bench_main b = B_joined"
    by (simp add: bench_new_def benchmarkQueue_main_def benchmarkQueue_consumer_def queue_defs)
  then show ?thesis using benchmark_queue_hands_over by metis
qed

text \<open>
  C38: the deadline of the consumer benchmark. When its loop returns, it has consumed as many messages
  as expected, or the clock was read past the deadline. But the clock is read between the calls of
  \<^verbatim>\<open>next()\<close> only, and \<^verbatim>\<open>next()\<close> does not return while no message comes: if fewer messages come than are
  expected, the benchmark does not return however many polls time out, whatever its deadline is.
\<close>

theorem benchmark_deadline_not_observed:
  assumes "t < deadline" "0 < expected" "\<not> con_stop_requested c"
  shows "bench_consume parse expected deadline (t # clocks) (map Input (map (Pair Poll_timeout) us)) 0 c = None \<and>
    (bench_consume parse expected deadline clocks polls 0 c = Some (Inr (n, c')) \<longrightarrow>
       n \<le> expected \<and> (n = expected \<or> (\<exists>t \<in> set clocks. deadline \<le> t)))"
  using assms next_timeouts [OF assms(3), of parse us] bench_consume_returns [of parse expected deadline clocks polls 0 c n c']
  by simp

theorem benchmark_deadline_not_observed_witness:
  "bench_consume ref_parse 100 30000000000 [0, 60000000000] (map Input (map (Pair Poll_timeout) [1, 2, 3])) 0 sample_consumer = None"
  using benchmark_deadline_not_observed [of 0 30000000000 100 sample_consumer ref_parse "[60000000000]" "[1, 2, 3]"]
  by (simp add: sample_consumer_def)

text \<open>
  Loading the capture file several times yields the events of its valid lines that many times.
\<close>

lemma benchmark_loads_fixture:
  assumes "fs f = Some c" "\<forall>l \<in> set (lines_of c). no_overflow parse l"
    and "\<forall>nows \<in> set repeats. length (lines_of c) < length nows"
  shows "loadFixtureRepeated fs parse f repeats [] =
    Some (Inr (concat (map (\<lambda>nows. concat (map (line_events parse) (zip (lines_of c) nows))) repeats)))"
  using load_file [of fs f c parse repeats "[]"] assms by simp

section \<open>\<^verbatim>\<open>main\<close>\<close>

definition fixture_path :: "string list \<Rightarrow> string" where
  "fixture_path args = (case args of [] \<Rightarrow> ''replay/btcusdt_ethusdt_sample.jsonl'' | f # _ \<Rightarrow> f)"

text \<open>
  The parts one after the other, for twenty lists of clock readings, a schedule of the queue's two threads,
  and the clock and the polls of the consumer. \<^const>\<open>None\<close> stands for a part that has not come to its end with its
  inputs. The producer and the consumer are destroyed when their part returns.
\<close>

definition benchmark_main ::
    "environment \<Rightarrow> string list \<Rightarrow> files \<Rightarrow> json_parser \<Rightarrow> json_dumper \<Rightarrow> 'k rd_kafka \<Rightarrow> 'c rd_consumer \<Rightarrow> i64 list list \<Rightarrow>
     bool list \<Rightarrow> string \<Rightarrow> int \<Rightarrow> int list \<Rightarrow> (poll_result \<times> i64) tick list \<Rightarrow>
     (cpp_exn + MarketEvent list \<times> bench \<times> 'k KafkaEventProducer \<times> nat \<times> 'c KafkaEventConsumer) option" where
  "benchmark_main env args fs parse dump K KC repeats sched start_count start clocks polls =
     (let b = getEnvOr env ''KAFKA_BOOTSTRAP_SERVERS'' ''localhost:9092''; t = getEnvOr env ''KAFKA_TOPIC'' ''market-events''
      in if length repeats \<noteq> 20 then None
         else case loadFixtureRepeated fs parse (fixture_path args) repeats [] of
           None \<Rightarrow> None
         | Some (Inl x) \<Rightarrow> Some (Inl x)
         | Some (Inr events) \<Rightarrow>
             (case benchmarkQueue sched (bench_new events) of
                None \<Rightarrow> None
              | Some q \<Rightarrow>
                  if bench_main q \<noteq> B_joined then None
                  else case benchmarkKafkaProducer K dump events b t of
                    Inl x \<Rightarrow> Some (Inl x)
                  | Inr p \<Rightarrow>
                      (case benchmarkKafkaConsumer KC parse (length events) b t start_count start clocks polls of
                         None \<Rightarrow> None
                       | Some (Inl x) \<Rightarrow> Some (Inl x)
                       | Some (Inr (n, c)) \<Rightarrow>
                           Some (Inr (events, q, KafkaEventProducer_destroy K p, n, KafkaEventConsumer_destroy KC c)))))"

lemma benchmark_main_returns:
  assumes "benchmark_main env args fs parse dump K KC repeats sched start_count start clocks polls = Some (Inr (events, q, p, n, c))"
    and "fs (fixture_path args) = Some content" "\<forall>l \<in> set (lines_of content). no_overflow parse l"
    and "\<forall>nows \<in> set repeats. length (lines_of content) < length nows"
  shows "length repeats = 20 \<and>
    events = concat (map (\<lambda>nows. concat (map (line_events parse) (zip (lines_of content) nows))) repeats) \<and>
    bench_got q = events \<and> n \<le> length events \<and> (n = length events \<or> (\<exists>t \<in> set clocks. start + 30000000000 \<le> t))"
proof -
  note load = benchmark_loads_fixture [of fs "fixture_path args", OF assms(2-4)]
  from assms(1) load have ev: "length repeats = 20"
    "events = concat (map (\<lambda>nows. concat (map (line_events parse) (zip (lines_of content) nows))) repeats)"
    and run: "benchmarkQueue sched (bench_new events) = Some q" "bench_main q = B_joined"
    by (auto simp: benchmark_main_def Let_def split: if_splits option.splits sum.splits prod.splits)
  obtain b t c0 where "benchmarkKafkaConsumer KC parse (length events) b t start_count start clocks polls = Some (Inr (n, c0))"
    using assms(1) load ev(2)
    by (auto simp: benchmark_main_def Let_def split: if_splits option.splits sum.splits prod.splits)
  then obtain c1 where "bench_consume parse (length events) (start + 30000000000) clocks polls 0 c1 = Some (Inr (n, c0))"
    by (auto simp: benchmarkKafkaConsumer_def split: sum.splits prod.splits option.splits)
  from bench_consume_returns [OF this] benchmark_queue_hands_over [OF run(1)] run(2) ev show ?thesis by simp
qed

end
