(* ===== verification/Test_Suite.thy ===== *)
theory Test_Suite
  imports Services
begin

text \<open>
  The cases of the repository's own test suite (\<^verbatim>\<open>tests/*_test.cpp\<close>), evaluated on the model: the inputs of each
  case, as literal texts and calls, and the results that it expects. They tie the definitions to what the
  authors of the code have written down about it. JSON texts go through the reference codec of
  \<^verbatim>\<open>Json_Text\<close>; blocking is a result of the model, so the cases with a thread that waits say that it is blocked
  before, and not after, the call that releases it.
\<close>

text \<open>A JSON text, with a tilde for each quotation mark.\<close>

definition js :: "string \<Rightarrow> string" where
  "js s = map (\<lambda>c. if c = CHR ''~'' then CHR 0x22 else c) s"

section \<open>\<^verbatim>\<open>binance_trade_parser_test.cpp\<close>\<close>

definition parse_trade :: "string \<Rightarrow> MarketEvent option" where
  "parse_trade raw = (case parseBinanceTradeMessage ref_parse (js raw) None of Inr (r, _) \<Rightarrow> r | Inl x \<Rightarrow> None)"

definition kValidTrade :: string where
  "kValidTrade = ''{~stream~:~btcusdt@trade~,~data~:{~e~:~trade~,~E~:1735500000123,~s~:~BTCUSDT~,'' @
     ''~t~:98765432,~p~:~65432.10000000~,~q~:~0.00150000~,~T~:1735500000119,~m~:true,~M~:true}}''"

lemma test_parses_valid_trade:
  "case parse_trade kValidTrade of
     None \<Rightarrow> False
   | Some e \<Rightarrow> symbol e = ''BTCUSDT'' \<and> price e = 4679225732930679603 \<and> provider_sequence e = Some 98765432 \<and>
       event_time e = ms_to_time 1735500000119"
  by code_simp

lemma test_rejects_invalid_json:
  "case parseBinanceTradeMessage ref_parse (js ''{not json'') (Some []) of
     Inr (None, Some error) \<Rightarrow> error \<noteq> [] | _ \<Rightarrow> False"
  by code_simp

lemma test_rejects_other_messages:
  "parse_trade ''{~stream~:~btcusdt@trade~}'' = None"
  "parse_trade ''{~stream~:~btcusdt@depth~,~data~:{~e~:~depthUpdate~,~s~:~BTCUSDT~}}'' = None"
  by code_simp+

lemma test_rejects_bad_fields:
  "parse_trade ''{~data~:{~e~:~trade~,~s~:~~,~t~:1,~p~:~1.0~,~T~:1735500000000}}'' = None"
  "parse_trade ''{~data~:{~e~:~trade~,~s~:~BTCUSDT~,~t~:1,~T~:1735500000000}}'' = None"
  "parse_trade ''{~data~:{~e~:~trade~,~s~:~BTCUSDT~,~t~:1,~p~:65432.1,~T~:1735500000000}}'' = None"
  "parse_trade ''{~data~:{~e~:~trade~,~s~:~BTCUSDT~,~t~:1,~p~:~not-a-number~,~T~:1735500000000}}'' = None"
  "parse_trade ''{~data~:{~e~:~trade~,~s~:~BTCUSDT~,~t~:1,~p~:~0.0~,~T~:1735500000000}}'' = None"
  "parse_trade ''{~data~:{~e~:~trade~,~s~:~BTCUSDT~,~t~:1,~p~:~1.0~}}'' = None"
  by code_simp+

lemma test_missing_sequence_is_optional:
  "case parse_trade ''{~data~:{~e~:~trade~,~s~:~BTCUSDT~,~p~:~1.0~,~T~:1735500000000}}'' of
     None \<Rightarrow> False | Some e \<Rightarrow> provider_sequence e = None"
  by code_simp

section \<open>\<^verbatim>\<open>market_event_json_test.cpp\<close>\<close>

definition sampleEvent :: MarketEvent where
  "sampleEvent = MarketEvent_default\<lparr>symbol := ''BTCUSDT'', price := 4679225732930679603,
     event_time := ms_to_time 1735500000119, provider_sequence := Some 98765432, source := ''live:binance''\<rparr>"

lemma test_round_trips_all_fields:
  "fst (marketEventFromJson (marketEventToJson sampleEvent) None) = Some sampleEvent"
  "member ''ingest_time'' (marketEventToJson sampleEvent) = None"
  by code_simp+

lemma test_omits_provider_sequence_when_absent:
  "member ''provider_sequence'' (marketEventToJson (sampleEvent\<lparr>provider_sequence := None\<rparr>)) = None"
  "fst (marketEventFromJson (marketEventToJson (sampleEvent\<lparr>provider_sequence := None\<rparr>)) None) =
     Some (sampleEvent\<lparr>provider_sequence := None\<rparr>)"
  by code_simp+

lemma test_rejects_incomplete_values:
  "fst (marketEventFromJson (JObject [(''event_time_ms'', JInt 1735500000119), (''price'', JFloat 0x3FF0000000000000)]) None) = None"
  "fst (marketEventFromJson (JObject [(''event_time_ms'', JInt 1735500000119), (''symbol'', JString ''BTCUSDT'')]) None) = None"
  "fst (marketEventFromJson (JArray []) None) = None"
  by code_simp+

section \<open>\<^verbatim>\<open>env_test.cpp\<close>\<close>

lemma test_environment:
  "getEnv Map.empty ''TICKFORGE_TEST_UNSET_VAR'' = None"
  "getEnv [''TICKFORGE_TEST_SET_VAR'' \<mapsto> ''hello''] ''TICKFORGE_TEST_SET_VAR'' = Some ''hello''"
  "getEnv [''TICKFORGE_TEST_EMPTY_VAR'' \<mapsto> []] ''TICKFORGE_TEST_EMPTY_VAR'' = None"
  "getEnvOr Map.empty ''TICKFORGE_TEST_DEFAULT_VAR'' ''fallback'' = ''fallback''"
  "getEnvOr [''TICKFORGE_TEST_DEFAULT_VAR2'' \<mapsto> ''actual''] ''TICKFORGE_TEST_DEFAULT_VAR2'' ''fallback'' = ''actual''"
  by code_simp+

section \<open>\<^verbatim>\<open>bounded_queue_test.cpp\<close>\<close>

abbreviation queue_after :: "nat \<Rightarrow> nat queue_op list \<Rightarrow> (nat BoundedQueue, nat) queue_run" where
  "queue_after c ops \<equiv> run_ops bq_iface (BoundedQueue_new c) ops"

lemma test_preserves_fifo_order: "popped (queue_after 4 [Push 1, Push 2, Push 3, Pop, Pop, Pop]) = [1, 2, 3]"
  by code_simp

lemma test_pop_blocks_until_an_item_is_pushed:
  "pop (final (queue_after 4 [])) = Blocked" "pop (final (queue_after 4 [Push 42])) \<noteq> Blocked"
  by code_simp+

lemma test_push_blocks_when_full:
  "push 3 (final (queue_after 2 [Push 1, Push 2])) = Blocked" "push 3 (final (queue_after 2 [Push 1, Push 2, Pop])) \<noteq> Blocked"
  by code_simp+

lemma test_shutdown:
  "accepted (queue_after 4 [Shutdown, Push 1]) = []"
  "popped (queue_after 4 [Push 1, Push 2, Shutdown, Pop, Pop]) = [1, 2]"
  "pop (final (queue_after 4 [Push 1, Push 2, Shutdown, Pop, Pop])) = Done (None, final (queue_after 4 [Push 1, Push 2, Shutdown, Pop, Pop]))"
  "pop (final (queue_after 4 [Shutdown])) \<noteq> Blocked"
  by code_simp+

lemma test_high_water_mark:
  "highWaterMark (final (queue_after 4 [])) = 0"
  "highWaterMark (final (queue_after 4 [Push 1, Push 2, Push 3])) = 3"
  "highWaterMark (final (queue_after 4 [Push 1, Push 2, Push 3, Pop, Pop])) = 3"
  "highWaterMark (final (queue_after 4 [Push 1, Push 2, Push 3, Pop, Pop, Push 4, Push 5])) = 3"
  by code_simp+

lemma test_capacity_and_size:
  "capacity (final (queue_after 3 [])) = 3" "bq_size (final (queue_after 3 [])) = 0"
  "bq_size (final (queue_after 3 [Push 1, Push 2])) = 2"
  by code_simp+

section \<open>\<^verbatim>\<open>replay_source_test.cpp\<close>\<close>

text \<open>The file, the symbols read from it, whether the loop came to its end, and the lines counted as malformed.\<close>

definition written :: "string list \<Rightarrow> files" where
  "written ls = [''f'' \<mapsto> concat (map (\<lambda>l. js l @ [newline]) ls)]"

definition replay_test :: "string list \<Rightarrow> i64 tick list \<Rightarrow> (MarketEvent list \<times> u64 \<times> bool) option" where
  "replay_test ls ts =
     (case ReplaySource_start (written ls) (ReplaySource_new ''f'') of
        (s, Some e) \<Rightarrow> None
      | (s, None) \<Rightarrow>
          (case read_loop (replay_iface (written ls) ref_parse) ts s of
             (es, s', r) \<Rightarrow> Some (es, lines_malformed s', r = Some Finished)))"

definition btc_line :: string where
  "btc_line = ''{~symbol~:~BTCUSDT~,~price~:65432.1,~event_time_ms~:1735500000119,~source~:~live:binance~}''"

definition eth_line :: string where
  "eth_line = ''{~symbol~:~ETHUSDT~,~price~:3456.7,~event_time_ms~:1735500000200,~source~:~live:binance~}''"

lemma line_kinds:
  "classify ref_parse (js btc_line) = Captured (sampleEvent\<lparr>provider_sequence := None\<rparr>)"
  "classify ref_parse (js ''not even json'') = Malformed"
  "classify ref_parse (js ''{~symbol~:~~,~price~:1.0,~event_time_ms~:1}'') = Malformed"
  by code_simp+

lemma eth_line_kind:
  "classify ref_parse (js eth_line) = Captured (MarketEvent_default\<lparr>symbol := ''ETHUSDT'', price := 4659819778761188966,
     event_time := ms_to_time 1735500000200, source := ''live:binance''\<rparr>)"
  by code_simp

abbreviation test_lines :: "string list" where
  "test_lines \<equiv> [btc_line, ''not even json'', ''{~symbol~:~~,~price~:1.0,~event_time_ms~:1}'', eth_line]"

lemma test_replays_in_order_and_skips_malformed_lines:
  "\<exists>es. replay_test test_lines (map Input [1, 2, 3, 4, 5]) = Some (es, 2, True) \<and>
    map symbol es = [''BTCUSDT'', ''ETHUSDT''] \<and> price (hd es) = price sampleEvent \<and> map ingest_time es = [1, 4]"
proof -
  let ?ct = "concat (map (\<lambda>l. js l @ [newline]) test_lines)" and ?s = "(ReplaySource_new ''f'')\<lparr>ins := Good (concat (map (\<lambda>l. js l @ [newline]) test_lines))\<rparr>"
  have start: "ReplaySource_start (written test_lines) (ReplaySource_new ''f'') = (?s, None)"
    by (simp add: written_def ReplaySource_start_def ReplaySource_new_def)
  have lines: "lines_of ?ct = map js test_lines" by code_simp
  have "\<not> stop_requested ?s" by (simp add: ReplaySource_new_def)
  from read_loop_replay [OF this, of ?ct ref_parse "[1, 2, 3, 4, 5]" "written test_lines"] start show ?thesis
    unfolding lines
    by (simp add: replay_test_def line_kinds eth_line_kind line_events_def MarketEvent_default_def sampleEvent_def ReplaySource_new_def)
qed

lemma test_stop_causes_next_to_return_false:
  "replay_test [btc_line] [Stop_call, Input 1] = Some ([], 0, True)"
  by code_simp

section \<open>\<^verbatim>\<open>ingestion_pipeline_test.cpp\<close>\<close>

text \<open>
  The unbounded source: some events, then \<^verbatim>\<open>requestStop()\<close> and \<^verbatim>\<open>stop()\<close>, which returns; without and with a
  failure of the first publication.
\<close>

definition pipeline_test :: "int \<Rightarrow> (FakeInfiniteSource, FakeEventPublisher) IngestionPipeline option" where
  "pipeline_test failures = do_actions infinite_iface fake_publisher_iface ref_dump
     ([Start, Owner, Owner] @ replicate 12 (Ingest ()) @ replicate 9 (Publish ()) @ [Request_stop, Stop] @
      replicate 2 (Ingest ()) @ [Owner, Owner, Publish (), Publish (), Owner])
     (IngestionPipeline_new FakeInfiniteSource_new (failNextN failures FakeEventPublisher_new) 4 None Map.empty)"

lemma test_request_stop_then_stop_completes:
  "case pipeline_test 0 of
     None \<Rightarrow> False
   | Some p \<Rightarrow> stopped p \<and> length (fake_published (publisher p)) = 3 \<and> flush_called (publisher p) \<and>
       st_received (stats p) = 3 \<and> st_published (stats p) = 3 \<and> st_failures (stats p) = 0"
  by code_simp

lemma test_counts_failures_without_stopping:
  "case pipeline_test 1 of
     None \<Rightarrow> False
   | Some p \<Rightarrow> stopped p \<and> length (fake_published (publisher p)) = 2 \<and>
       st_received (stats p) = 3 \<and> st_published (stats p) = 2 \<and> st_failures (stats p) = 1"
  by code_simp

text \<open>A pipeline on a capture file that is read to its end, then \<^verbatim>\<open>stop()\<close> alone.\<close>

definition file_pipeline_test :: "string list \<Rightarrow> int \<Rightarrow> (ReplaySource, FakeEventPublisher) IngestionPipeline option" where
  "file_pipeline_test ls failures = do_actions (replay_iface (written ls) ref_parse) fake_publisher_iface ref_dump
     ([Start, Owner, Owner] @ replicate (4 * length ls + 2) (Ingest 7) @ replicate (3 * length ls) (Publish ()) @
      [Stop, Owner, Owner, Publish (), Publish (), Owner])
     (IngestionPipeline_new (ReplaySource_new ''f'') (failNextN failures FakeEventPublisher_new) 4 None Map.empty)"

lemma test_publishes_replayed_events_in_order:
  "case file_pipeline_test [btc_line, eth_line] 0 of
     None \<Rightarrow> False
   | Some p \<Rightarrow> stopped p \<and> map symbol (fake_published (publisher p)) = [''BTCUSDT'', ''ETHUSDT''] \<and> flush_called (publisher p) \<and>
       st_received (stats p) = 2 \<and> st_published (stats p) = 2 \<and> st_failures (stats p) = 0"
  by code_simp

lemma test_counts_publish_failures_of_a_file:
  "case file_pipeline_test
      [''{~symbol~:~BTCUSDT~,~price~:1.0,~event_time_ms~:1735500000000,~source~:~live:binance~}'',
       ''{~symbol~:~ETHUSDT~,~price~:2.0,~event_time_ms~:1735500000001,~source~:~live:binance~}'',
       ''{~symbol~:~SOLUSDT~,~price~:3.0,~event_time_ms~:1735500000002,~source~:~live:binance~}''] 1 of
     None \<Rightarrow> False
   | Some p \<Rightarrow> stopped p \<and> length (fake_published (publisher p)) = 2 \<and>
       st_received (stats p) = 3 \<and> st_failures (stats p) = 1 \<and> st_published (stats p) = 2"
  by code_simp

section \<open>\<^verbatim>\<open>event_recorder_test.cpp\<close>\<close>

abbreviation recorder_events :: "MarketEvent list" where
  "recorder_events \<equiv> [sampleEvent\<lparr>provider_sequence := None\<rparr>, sampleEvent\<lparr>provider_sequence := None, symbol := ''ETHUSDT''\<rparr>]"

lemma recorder_events_writable:
  "list_all writable_event recorder_events" "writable_event (sampleEvent\<lparr>provider_sequence := Some 42\<rparr>)"
  by code_simp+

lemma test_recorder_opens: "EventRecorder_new (\<lambda>_. True) ''f'' Map.empty = Inr (\<lparr>out = ''f''\<rparr>, [''f'' \<mapsto> []])"
  by (simp add: EventRecorder_new_def)

lemma test_writes_one_json_line_per_event:
  "\<exists>fs c. record_all ref_dump \<lparr>out = ''f''\<rparr> recorder_events [''f'' \<mapsto> []] = Inr fs \<and> fs ''f'' = Some c \<and> length (lines_of c) = 2"
proof -
  have "\<forall>e \<in> set recorder_events. writable_event e" using recorder_events_writable(1) by simp
  from record_all_lines [OF ref_json.json_codec_axioms this, of "\<lparr>out = ''f''\<rparr>" "[''f'' \<mapsto> []]"] obtain ls where
    ls: "record_all ref_dump \<lparr>out = ''f''\<rparr> recorder_events [''f'' \<mapsto> []] =
      Inr (append_file ''f'' (concat (map (\<lambda>l. l @ [newline]) ls)) [''f'' \<mapsto> []])"
    "lines_of (concat (map (\<lambda>l. l @ [newline]) ls)) = ls"
    "list_all2 (\<lambda>l e. classify ref_parse l = Captured (captured e)) ls recorder_events" by auto
  from list_all2_lengthD [OF ls(3)] have "length ls = 2" by simp
  with ls(1,2) show ?thesis by (simp add: append_file_def)
qed

lemma test_round_trips_through_replay_source:
  "\<exists>fs s s'. record_all ref_dump \<lparr>out = ''f''\<rparr> [sampleEvent\<lparr>provider_sequence := Some 42\<rparr>] [''f'' \<mapsto> []] = Inr fs \<and>
    ReplaySource_start fs (ReplaySource_new ''f'') = (s, None) \<and>
    read_loop (replay_iface fs ref_parse) (map Input [5, 6]) s =
      ([sampleEvent\<lparr>provider_sequence := Some 42, ingest_time := 5\<rparr>], s', Some Finished) \<and> lines_malformed s' = 0"
proof -
  have "captured (sampleEvent\<lparr>provider_sequence := Some 42\<rparr>) = sampleEvent\<lparr>provider_sequence := Some 42\<rparr>" by code_simp
  with recorded_replays [OF ref_json.json_codec_axioms _ _ _ test_recorder_opens,
      of "[sampleEvent\<lparr>provider_sequence := Some 42\<rparr>]" "[5, 6]"] recorder_events_writable(2)
  show ?thesis by simp
qed

end
