(* ===== verification/Spec2Isabelle.thy ===== *)
theory Spec2Isabelle
  imports Pipeline_Threads_Stop Terminal_Output Consumer_Group Benchmark Test_Suite
begin

text \<open>
  A verification development for \<^verbatim>\<open>tickforge-distributed\<close>, a C++ program that takes trade events from a
  market data provider (or from a capture file) and publishes them to Kafka, where other processes
  consume them. This theory imports the whole development; paths below are relative to \<^verbatim>\<open>src/\<close>.

  \<^bold>\<open>The program.\<close> A \<^verbatim>\<open>MarketDataSource\<close> (\<^verbatim>\<open>LiveSource\<close>: a WebSocket with reconnects; \<^verbatim>\<open>ReplaySource\<close>: a file of
  JSON lines) yields \<^verbatim>\<open>MarketEvent\<close>s. The \<^verbatim>\<open>IngestionPipeline\<close> owns two threads: the ingest thread reads
  the source, optionally writes each event to an \<^verbatim>\<open>EventRecorder\<close>, and pushes it into a \<^verbatim>\<open>BoundedQueue\<close>; the
  publish thread pops it and hands it to an \<^verbatim>\<open>EventPublisher\<close> (\<^verbatim>\<open>KafkaEventProducer\<close>). On the other side of
  Kafka, \<^verbatim>\<open>KafkaEventConsumer\<close> polls and decodes. \<^verbatim>\<open>services/ingestion\<close>, \<^verbatim>\<open>services/consumer\<close>, the demo and the
  benchmark put these parts together.

  \<^bold>\<open>The theories\<close>, from the bottom up.

  \<^item> \<open>Prelude\<close>: machine integers, the result \<^verbatim>\<open>attempt\<close> of an operation that may block, shared lemmas and the
    collections of definitions that the proofs unfold.
  \<^item> \<open>Fifo_Interface\<close>: the contract of a blocking bounded queue (locale \<^verbatim>\<open>bounded_fifo\<close>) and what clients
    conclude from it alone.
  \<^item> \<open>Bounded_Queue\<close> and \<open>Queue_Threads\<close> (\<^verbatim>\<open>include/tickforge/bounded_queue.hpp\<close>): first the critical
    sections as functions on the state of the queue, interpreting the contract; then any number of
    threads inside \<^verbatim>\<open>push\<close>, \<^verbatim>\<open>pop\<close> and \<^verbatim>\<open>shutdown\<close> as a step relation with one program point per instruction
    that another thread can observe, with the mutex, both condition variables, notifications to any
    one waiter and spurious wakeups. Shown: mutual exclusion, linearizability with respect to the
    functions, no lost wakeup, and that \<^verbatim>\<open>shutdown\<close> releases every thread in boundedly many steps without the help of
    spurious wakeups.
  \<^item> \<open>Doubles\<close>, \<open>Json_Model\<close>, \<open>Json_Text\<close>: binary64 values as their bits with exact rounding of decimal
    numbers (\<^verbatim>\<open>std::from_chars\<close>), JSON values, and the contract of the JSON library (locale
    \<^verbatim>\<open>json_codec\<close>), which is not part of the repository. \<open>Json_Text\<close> interprets the contract by a printer
    and a parser for JSON texts, so that no theorem about the library's clients is vacuous.
  \<^item> \<open>Market_Event\<close> (\<^verbatim>\<open>market_event.hpp\<close>, \<^verbatim>\<open>market_event_json.cpp\<close>) and \<open>Binance_Parser\<close>
    (\<^verbatim>\<open>binance_trade_parser.cpp\<close>): the event, its capture format in both directions, and the validation of
    provider messages, on every branch.
  \<^item> \<open>Interfaces\<close> (\<^verbatim>\<open>market_data_source.hpp\<close>, \<^verbatim>\<open>event_publisher.hpp\<close>): the two interfaces as records of operations
    and as locales. An implementation of \<^verbatim>\<open>next()\<close> provides one pass through its loop; what the outside
    world contributes to a pass is its input, and calls of \<^verbatim>\<open>stop()\<close> from other threads may come between
    any two passes.
  \<^item> \<open>Recorder_Replay\<close> (\<^verbatim>\<open>event_recorder.cpp\<close>, \<^verbatim>\<open>replay_source.cpp\<close>), \<open>Live_Source\<close> (\<^verbatim>\<open>live_source.cpp\<close>),
    \<open>Kafka_Producer\<close> and \<open>Kafka_Consumer\<close> (\<^verbatim>\<open>kafka_event_producer.cpp\<close>, \<^verbatim>\<open>kafka_event_consumer.cpp\<close>), \<open>Test_Doubles\<close>
    (\<^verbatim>\<open>tests/fake_event_publisher.hpp\<close>, \<^verbatim>\<open>tests/fake_infinite_source.hpp\<close>): the implementations, each an interpretation of
    its interface. The file system is a map from paths to contents, the network is an input, and
    librdkafka is a parameter with its documented behaviour in the locale \<^verbatim>\<open>rd_kafka_client\<close>, interpreted by a
    client in memory. That behaviour is about the client only: \<^verbatim>\<open>enqueued\<close> are the messages its local queue has accepted
    and \<^verbatim>\<open>reported\<close> the delivery reports it has served; that a message is enqueued does not say that a broker has it.
  \<^item> \<open>Ingestion_Pipeline\<close>, \<open>Pipeline_Liveness\<close>, \<open>Pipeline_Properties\<close> (\<^verbatim>\<open>ingestion_pipeline.cpp\<close>): the owner, the
    ingest thread and the publish thread as one transition system over any source and any publisher;
    its invariants (control, flow of events, bounds, counters, capture file); the measure under which
    a pipeline that is being stopped always makes progress; and the properties, for every schedule.
  \<^item> \<open>Pipeline_Threads\<close>, \<open>Pipeline_Threads_Stop\<close>: the pipeline and the queue together, by instruction. The
    coarse system above takes a call of the queue as one step; here the three threads go through \<^verbatim>\<open>push\<close>,
    \<^verbatim>\<open>pop\<close> and \<^verbatim>\<open>shutdown\<close> as threads of \<open>Queue_Threads\<close> (\<^verbatim>\<open>fstep\<close>). An abstraction function (\<^verbatim>\<open>coarse\<close>: a call has
    happened once its critical section has run) maps every such run to a run of the coarse system, so that
    its properties hold of the real interleavings; and a second measure, \<^verbatim>\<open>fine_work\<close>, bounds the instructions
    of a stopping pipeline, with three more for each spurious wakeup. \<^verbatim>\<open>fine_do\<close> is an executable scheduler.
  \<^item> \<open>End_To_End\<close>: from the source to the records of a consumer. The log of a partition is any list of entries, each a copy
    of an enqueued message or a foreign payload; so messages may be lost, stored twice and overtake each other
    (\<^verbatim>\<open>docs/milestone-2-queue-kafka.md\<close>, sections 6 and 8). Assumed are the partition as a function of the key and the
    payload stored unchanged (\<^verbatim>\<open>stored_log\<close>), and polls in the order of the offsets within a partition (\<^verbatim>\<open>reads_log\<close>). The
    order of production is a condition of the one conclusion that speaks of it.
  \<^item> \<open>Consumer_Group\<close>: the consumer service over its restarts. Each process reads from the offsets committed for its
    group; it is closed, killed between two passes, or killed in a pass, and the contents of the partitions are arbitrary. What
    librdkafka stores and commits is the hypothesis \<^verbatim>\<open>group_history\<close> (and the locale \<^verbatim>\<open>rd_kafka_group\<close> for what the destructor
    calls), with commits that may fail; shown is which messages a kill can cost, and that processes that are
    closed with an acknowledged commit together read each offset once. Nothing here makes delivery from the producer
    exactly-once.
  \<^item> \<open>Services\<close>, \<open>Service_Properties\<close>, \<open>Processes\<close>, \<open>Programs\<close> (\<^verbatim>\<open>env.cpp\<close>, \<^verbatim>\<open>services/ingestion/main.cpp\<close>, \<^verbatim>\<open>services/consumer/main.cpp\<close>,
    \<^verbatim>\<open>src/ingestion_demo_main.cpp\<close>): environment, arguments, construction, and the \<^verbatim>\<open>main\<close> functions with
    signals; that the ingestion service ends and has then handed every fetched event to the client, and that the other two programs end
    (from the locale \<^verbatim>\<open>stoppable_worker\<close>, which both interpret).
  \<^item> \<open>Event_Types\<close>: what is true of every event the service holds (locale \<^verbatim>\<open>typed_source\<close>, which the replay
    and the live source interpret under the locale \<^verbatim>\<open>json_reader\<close>: the JSON library yields finite numbers
    only), and the way of a whole capture file through the service and Kafka to a consumer.
  \<^item> \<open>Reports\<close>: the values printed by the services. \<^verbatim>\<open>stats()\<close> is not atomic; \<^verbatim>\<open>stats_read\<close> takes the state at the
    moment of each of its reads.
  \<^item> \<open>Stream_Format\<close>, \<open>Terminal_Output\<close>: the text of the three programs. \<open>Stream_Format\<close> writes out how \<^verbatim>\<open>std::cout\<close> prints a
    double (six significant digits of its exact value) and bounds the error; \<open>Terminal_Output\<close> has the lines, and
    the output of the whole demo along a schedule of its threads.
  \<^item> \<open>Benchmark\<close> (\<^verbatim>\<open>benchmarks/queue_kafka_benchmark.cpp\<close>).
  \<^item> \<open>Test_Suite\<close> (\<^verbatim>\<open>tests/*_test.cpp\<close>): the test cases of the repository, evaluated on the model.

  \<^bold>\<open>Conventions.\<close> Fields and functions keep the names of the code where the logic allows it. Counters are
  64-bit words and wrap. An exception is a value of \<^verbatim>\<open>cpp_exn\<close>; one that leaves a thread function ends the
  process (\<^verbatim>\<open>terminated\<close>). Fields marked as history (\<^verbatim>\<open>fetched\<close>, \<^verbatim>\<open>handled\<close>, \<^verbatim>\<open>flushes\<close>, with the number of
  events handled before each flush, and \<^verbatim>\<open>slept\<close>) are not in the code and nothing depends on them. A loop that may run for ever is followed along a list of inputs and is
  \<^const>\<open>None\<close> when it has not ended with them; the termination properties say how many inputs or steps
  are enough: the lines left for a replay, \<^verbatim>\<open>live_rank\<close> for a stopped live source, \<^verbatim>\<open>pipe_work\<close> for a
  pipeline (\<^verbatim>\<open>fine_work\<close> when its instructions are counted), \<^verbatim>\<open>service_work\<close> for the service, \<^verbatim>\<open>demo_left\<close> for the demo.

  \<^bold>\<open>What is shown.\<close> For the queue: order, bounds, no deadlock and no lost wakeup. For the pipeline: at
  every moment every event fetched is in exactly one place and in order; \<^verbatim>\<open>stop()\<close> drains; it ends after
  \<^verbatim>\<open>requestStop()\<close>, and by itself for a finite source; the two ways in which it does hang are stated (an endless
  source without \<^verbatim>\<open>requestStop()\<close>, a queue of capacity zero). All of this is proved with atomic calls of the
  queue, and carried over to its instructions by a refinement; that \<^verbatim>\<open>stop()\<close> ends is proved at both levels. For the formats: round trips of events
  through the capture format, of captures through the recorder and the replay source, and of those messages that a
  broker's log holds to the records of a consumer, per symbol; exact acceptance conditions of the two parsers. For the live source: false
  only after \<^verbatim>\<open>stop()\<close>, no connection left open after it, doubling sleeps between attempts, accounted messages. For the
  programs: the service ends after a signal and has then handed everything it fetched to the Kafka client; every event it holds is well
  formed; without a signal, a capture file is handed over line by line, and what a consumer reads of it are events of the
  file; how far the numbers of a
  report can be from each other; what the consumer and the demo print, and how exact the printed price is. For the
  consumer group: records of processes that follow one another, with the one way in which a message is lost.

  \<^bold>\<open>Not modelled.\<close> Diagnostics on \<^verbatim>\<open>std::cerr\<close>; measured times and the lines of the benchmark that report them; the TLS
  and WebSocket protocols; the broker beyond the assumptions named above (when and how often an enqueued message is
  stored, retention, compaction and rebalancing between the members of a group are not); disk errors
  after a capture file has been opened, which the code does not look at; memory exhaustion. The effect of a weak memory model is not modelled: the code
  shares data under mutexes and sequentially consistent atomics only.
\<close>

end
